(* ===== verification/Prelude.thy ===== *)
theory Prelude
  imports Main "HOL-Library.Word"
begin

text \<open>
  Shared vocabulary of the development: the outcome type of kernel code, the constants of
  \<^verbatim>\<open>include/param.h\<close>, \<^verbatim>\<open>include/fs.h\<close> and \<^verbatim>\<open>include/stat.h\<close>, the little-endian access to
  16- and 32-bit fields of a byte array that C gets from casting a \<^verbatim>\<open>uchar*\<close>, and the generic
  lemmas on lists and outcomes that the component theories share.

  C's \<^verbatim>\<open>uint\<close> is \<^typ>\<open>nat\<close> with the reduction modulo \<open>2 ^ 32\<close> written out wherever the code can
  wrap around, or a \<^typ>\<open>32 word\<close> where the wrap-around is the point (the ring indices of pipes and
  of the console).  C's \<^verbatim>\<open>int\<close> and \<^verbatim>\<open>short\<close> are \<^typ>\<open>int\<close>.
\<close>

section \<open>Outcomes of kernel code\<close>

text \<open>
  A kernel function returns, calls \<^verbatim>\<open>panic\<close> (which never returns), goes to \<^verbatim>\<open>sleep\<close> (it has to wait
  for another process), or leaves the behaviour that C defines (an index out of the bounds of an
  array, a signed overflow).  \<^emph>\<open>Sleeps\<close> carries no state: it says that the call does not return before
  another process has acted, and nothing about what the call has done until then or does afterwards.
  Where a call changes the state before it sleeps and the difference matters, its model returns the
  state at the sleep instead: \<^verbatim>\<open>wait\<close>, \<^verbatim>\<open>pipewrite\<close>, \<^verbatim>\<open>filewrite\<close>, \<^verbatim>\<open>consoleread\<close>.
\<close>

datatype 'a res = Ok 'a | Panic string | Sleeps | Undef

fun rbind :: "'a res \<Rightarrow> ('a \<Rightarrow> 'b res) \<Rightarrow> 'b res" where
  "rbind (Ok x) f = f x"
| "rbind (Panic m) f = Panic m"
| "rbind Sleeps f = Sleeps"
| "rbind Undef f = Undef"

named_theorems outcome "unfolding and inversion of outcomes"
named_theorems bytes "access to the fields of a byte array"
named_theorems frame "what an operation leaves unchanged"

lemma rbind_eq_Ok [outcome]: "rbind m f = Ok y \<longleftrightarrow> (\<exists>x. m = Ok x \<and> f x = Ok y)"
  by (cases m) auto

lemma rbind_OkE: "rbind m f = Ok y \<Longrightarrow> (\<And>x. m = Ok x \<Longrightarrow> f x = Ok y \<Longrightarrow> P) \<Longrightarrow> P"
  by (cases m) auto

lemma rbind_Ok_right [simp]: "rbind m Ok = m"
  by (cases m) auto

lemma rbind_assoc [simp]: "rbind (rbind m f) g = rbind m (\<lambda>x. rbind (f x) g)"
  by (cases m) auto

text \<open>A \<^verbatim>\<open>for\<close> loop whose body may fail.\<close>

fun for_each :: "('a \<Rightarrow> 's \<Rightarrow> 's res) \<Rightarrow> 'a list \<Rightarrow> 's \<Rightarrow> 's res" where
  "for_each f [] s = Ok s"
| "for_each f (x # xs) s = rbind (f x s) (for_each f xs)"

lemma for_each_append: "for_each f (xs @ ys) s = rbind (for_each f xs s) (for_each f ys)"
proof (induction xs arbitrary: s)
  case (Cons a xs)
  then show ?case by (cases "f a s") simp_all
qed simp

lemma for_each_frame:
  "for_each f xs s = Ok s' \<Longrightarrow> (\<And>x s s'. f x s = Ok s' \<Longrightarrow> g s' = g s) \<Longrightarrow> g s' = g s"
proof (induction xs arbitrary: s)
  case (Cons x xs)
  then show ?case by (fastforce elim!: rbind_OkE)
qed simp

section \<open>Constants\<close>

type_synonym byte = "8 word"

text \<open>\<^verbatim>\<open>include/param.h\<close>\<close>

definition NPROC :: nat where "NPROC = 64"
definition NOFILE :: nat where "NOFILE = 16"
definition NFILE :: nat where "NFILE = 100"
definition NINODE :: nat where "NINODE = 50"
definition NDEV :: nat where "NDEV = 10"
definition ROOTDEV :: nat where "ROOTDEV = 1"
definition MAXARG :: nat where "MAXARG = 32"
definition MAXOPBLOCKS :: nat where "MAXOPBLOCKS = 10"
definition LOGSIZE :: nat where "LOGSIZE = MAXOPBLOCKS * 3"
definition NBUF :: nat where "NBUF = MAXOPBLOCKS * 3"
definition FSSIZE :: nat where "FSSIZE = 1000"

text \<open>\<^verbatim>\<open>include/fs.h\<close>: the struct sizes are those of the structures declared there.\<close>

definition ROOTINO :: nat where "ROOTINO = 1"
definition BSIZE :: nat where "BSIZE = 512"
definition NDIRECT :: nat where "NDIRECT = 10"
definition NINDIRECT :: nat where "NINDIRECT = BSIZE div 4"
definition MAXFILE :: nat where "MAXFILE = NDIRECT + NINDIRECT"
definition DINODE_SIZE :: nat where "DINODE_SIZE = 6 * 2 + 2 * 4 + (NDIRECT + 1) * 4"
definition IPB :: nat where "IPB = BSIZE div DINODE_SIZE"
definition IBLOCK :: "nat \<Rightarrow> nat" where "IBLOCK i = i div IPB + 2"
definition BPB :: nat where "BPB = BSIZE * 8"
definition BBLOCK :: "nat \<Rightarrow> nat \<Rightarrow> nat" where "BBLOCK b ninodes = b div BPB + ninodes div IPB + 3"
definition DIRSIZ :: nat where "DIRSIZ = 14"
definition DIRENT_SIZE :: nat where "DIRENT_SIZE = 2 + DIRSIZ"

text \<open>\<^verbatim>\<open>include/stat.h\<close>\<close>

definition T_DIR :: int where "T_DIR = 1"
definition T_FILE :: int where "T_FILE = 2"
definition T_DEV :: int where "T_DEV = 3"

lemmas param_defs =
  NPROC_def NOFILE_def NFILE_def NINODE_def NDEV_def ROOTDEV_def MAXARG_def MAXOPBLOCKS_def
  LOGSIZE_def NBUF_def FSSIZE_def ROOTINO_def BSIZE_def NDIRECT_def NINDIRECT_def MAXFILE_def
  DINODE_SIZE_def IPB_def BPB_def DIRSIZ_def DIRENT_SIZE_def T_DIR_def T_FILE_def T_DEV_def

section \<open>Little-endian fields of a byte array\<close>

definition u32 :: "nat \<Rightarrow> nat" where "u32 n = n mod 2 ^ 32"

definition s16 :: "nat \<Rightarrow> int" where
  "s16 n = (if n < 2 ^ 15 then int n else int n - 2 ^ 16)"

definition s32 :: "nat \<Rightarrow> int" where
  "s32 n = (if n < 2 ^ 31 then int n else int n - 2 ^ 32)"

definition get16 :: "byte list \<Rightarrow> nat \<Rightarrow> nat" where
  "get16 d off = unat (d ! off) + 256 * unat (d ! (off + 1))"

definition put16 :: "byte list \<Rightarrow> nat \<Rightarrow> nat \<Rightarrow> byte list" where
  "put16 d off v = d[off := of_nat v, off + 1 := of_nat (v div 256)]"

definition get32 :: "byte list \<Rightarrow> nat \<Rightarrow> nat" where
  "get32 d off = get16 d off + 65536 * get16 d (off + 2)"

definition put32 :: "byte list \<Rightarrow> nat \<Rightarrow> nat \<Rightarrow> byte list" where
  "put32 d off v = put16 (put16 d off v) (off + 2) (v div 65536)"

text \<open>A \<^verbatim>\<open>memmove\<close> of a whole object into an array of bytes.\<close>

definition splice :: "byte list \<Rightarrow> nat \<Rightarrow> byte list \<Rightarrow> byte list" where
  "splice d off src = take off d @ src @ drop (off + length src) d"

lemma length_put [simp]: "length (put16 d off v) = length d" "length (put32 d off v) = length d"
  by (simp_all add: put16_def put32_def)

lemma unat_of_nat_byte: "unat (of_nat n :: byte) = n mod 256"
  by (simp add: unat_of_nat)

lemma get16_less: "get16 d off < 65536"
proof -
  have "unat (d ! off) < 256" "unat (d ! (off + 1)) < 256"
    using unsigned_less [of "d ! off"] unsigned_less [of "d ! (off + 1)"] by simp_all
  then show ?thesis by (simp add: get16_def)
qed

lemma get32_less: "get32 d off < 2 ^ 32"
  using get16_less [of d off] get16_less [of d "off + 2"] by (simp add: get32_def)

lemma mod_256_split: "v mod 256 + 256 * (v div 256 mod 256) = v mod (65536 :: nat)"
  by (simp add: mod_mult2_eq [of v 256 256, simplified])

lemma get16_put16_same [bytes, simp]:
  "off + 2 \<le> length d \<Longrightarrow> get16 (put16 d off v) off = v mod 65536"
  by (simp add: get16_def put16_def unat_of_nat_byte mod_256_split)

lemma get16_put16_diff [bytes, simp]:
  "off + 2 \<le> off' \<or> off' + 2 \<le> off \<Longrightarrow> get16 (put16 d off v) off' = get16 d off'"
  by (auto simp add: get16_def put16_def nth_list_update)

lemma get32_put32_same [bytes, simp]:
  "off + 4 \<le> length d \<Longrightarrow> get32 (put32 d off v) off = u32 v"
proof -
  assume "off + 4 \<le> length d"
  then have "get32 (put32 d off v) off = v mod 65536 + 65536 * (v div 65536 mod 65536)"
    by (simp add: get32_def put32_def)
  also have "\<dots> = v mod (65536 * 65536)"
    by (simp only: mod_mult2_eq add.commute mult.commute)
  finally show ?thesis by (simp add: u32_def)
qed

lemma get32_put32_diff [bytes, simp]:
  "off + 4 \<le> off' \<or> off' + 4 \<le> off \<Longrightarrow> get32 (put32 d off v) off' = get32 d off'"
  by (auto simp add: get32_def put32_def)

lemma get32_put16_diff [bytes, simp]:
  "off + 2 \<le> off' \<or> off' + 4 \<le> off \<Longrightarrow> get32 (put16 d off v) off' = get32 d off'"
  by (auto simp add: get32_def)

lemma get16_put32_diff [bytes, simp]:
  "off + 4 \<le> off' \<or> off' + 2 \<le> off \<Longrightarrow> get16 (put32 d off v) off' = get16 d off'"
  by (auto simp add: put32_def)

lemma u32_id [simp]: "n < 2 ^ 32 \<Longrightarrow> u32 n = n"
  by (simp add: u32_def)

lemma u32_le: "u32 n \<le> n"
  by (simp add: u32_def)

lemma length_splice [simp]:
  "off + length src \<le> length d \<Longrightarrow> length (splice d off src) = length d"
  by (simp add: splice_def)

lemma nth_splice:
  "off + length src \<le> length d \<Longrightarrow> i < length d \<Longrightarrow>
   splice d off src ! i = (if off \<le> i \<and> i < off + length src then src ! (i - off) else d ! i)"
  by (auto simp add: splice_def nth_append min_def)

section \<open>Generic lemmas\<close>

lemma find_None_iff_all: "List.find P xs = None \<longleftrightarrow> (\<forall>x\<in>set xs. \<not> P x)"
  by (induction xs) auto

lemma find_SomeD: "List.find P xs = Some x \<Longrightarrow> x \<in> set xs \<and> P x"
  by (induction xs) (auto split: if_splits)

lemma find_ex: "x \<in> set xs \<Longrightarrow> P x \<Longrightarrow> \<exists>y. List.find P xs = Some y"
  by (induction xs) auto

end
