(* ===== verification/Kstring.thy ===== *)
theory Kstring
  imports Prelude
begin

text \<open>
  \<^verbatim>\<open>kernel/string.c\<close> and the string functions of \<^verbatim>\<open>ulib/ulib.c\<close>.  Memory is a function from addresses to
  bytes; a function that only reads through a pointer takes what it can see from there, a function
  on offsets.  Loops that stop at a NUL byte are partial functions: without one they never return.
\<close>

type_synonym mem = "nat \<Rightarrow> byte"

section \<open>The code\<close>

definition at_ptr :: "mem \<Rightarrow> nat \<Rightarrow> nat \<Rightarrow> byte" where
  "at_ptr m a = (\<lambda>i. m (a + i))"

text \<open>The string instructions of \<^verbatim>\<open>include/x86.h\<close>: \<^verbatim>\<open>n\<close> bytes, \<^verbatim>\<open>n\<close> double words (low byte first).\<close>

fun stosb :: "nat \<Rightarrow> byte \<Rightarrow> nat \<Rightarrow> mem \<Rightarrow> mem" where
  "stosb a c 0 m = m"
| "stosb a c (Suc n) m = stosb (a + 1) c n (m(a := c))"

fun stosl :: "nat \<Rightarrow> nat \<Rightarrow> nat \<Rightarrow> mem \<Rightarrow> mem" where
  "stosl a v 0 m = m"
| "stosl a v (Suc n) m =
     stosl (a + 4) v n (m(a := of_nat v, a + 1 := of_nat (v div 2 ^ 8), a + 2 := of_nat (v div 2 ^ 16),
                          a + 3 := of_nat (v div 2 ^ 24)))"

definition memset :: "nat \<Rightarrow> nat \<Rightarrow> nat \<Rightarrow> mem \<Rightarrow> mem" where
  "memset dst c n m =
     (if dst mod 4 = 0 \<and> n mod 4 = 0 then
        let c = c mod 256
        in stosl dst (c * 2 ^ 24 + c * 2 ^ 16 + c * 2 ^ 8 + c) (n div 4) m
      else stosb dst (of_nat c) n m)"

fun memcmp :: "(nat \<Rightarrow> byte) \<Rightarrow> (nat \<Rightarrow> byte) \<Rightarrow> nat \<Rightarrow> int" where
  "memcmp s1 s2 0 = 0"
| "memcmp s1 s2 (Suc n) =
     (if s1 0 \<noteq> s2 0 then uint (s1 0) - uint (s2 0) else memcmp (at_ptr s1 1) (at_ptr s2 1) n)"

fun copy_up :: "nat \<Rightarrow> nat \<Rightarrow> nat \<Rightarrow> mem \<Rightarrow> mem" where
  "copy_up d s 0 m = m"
| "copy_up d s (Suc n) m = copy_up (d + 1) (s + 1) n (m(d := m s))"

fun copy_down :: "nat \<Rightarrow> nat \<Rightarrow> nat \<Rightarrow> mem \<Rightarrow> mem" where
  "copy_down d s 0 m = m"
| "copy_down d s (Suc n) m = copy_down (d - 1) (s - 1) n (m(d - 1 := m (s - 1)))"

definition memmove :: "nat \<Rightarrow> nat \<Rightarrow> nat \<Rightarrow> mem \<Rightarrow> mem" where
  "memmove dst src n m =
     (if src < dst \<and> src + n > dst then copy_down (dst + n) (src + n) n m else copy_up dst src n m)"

definition memcpy :: "nat \<Rightarrow> nat \<Rightarrow> nat \<Rightarrow> mem \<Rightarrow> mem" where
  "memcpy dst src n m = memmove dst src n m"

fun strncmp :: "(nat \<Rightarrow> byte) \<Rightarrow> (nat \<Rightarrow> byte) \<Rightarrow> nat \<Rightarrow> int" where
  "strncmp p q 0 = 0"
| "strncmp p q (Suc n) =
     (if p 0 \<noteq> 0 \<and> p 0 = q 0 then strncmp (at_ptr p 1) (at_ptr q 1) n else uint (p 0) - uint (q 0))"

text \<open>
  The first loop of \<^verbatim>\<open>strncpy\<close> also counts down \<^verbatim>\<open>n\<close> on the round that copies the NUL, so the second
  one writes the rest of the \<^verbatim>\<open>n\<close> bytes.
\<close>

fun strncpy :: "nat \<Rightarrow> nat \<Rightarrow> nat \<Rightarrow> mem \<Rightarrow> mem" where
  "strncpy s t 0 m = m"
| "strncpy s t (Suc n) m =
     (if m t \<noteq> 0 then strncpy (s + 1) (t + 1) n (m(s := m t)) else stosb (s + 1) 0 n (m(s := 0)))"

text \<open>\<^verbatim>\<open>safestrcpy\<close> with \<^verbatim>\<open>n = k + 1\<close>: at most \<open>k\<close> bytes are copied, then a NUL is written.\<close>

fun safestrcpy_loop :: "nat \<Rightarrow> nat \<Rightarrow> nat \<Rightarrow> mem \<Rightarrow> mem" where
  "safestrcpy_loop s t 0 m = m(s := 0)"
| "safestrcpy_loop s t (Suc k) m =
     (let c = m t; m = m(s := c)
      in if c \<noteq> 0 then safestrcpy_loop (s + 1) (t + 1) k m else m(s + 1 := 0))"

definition safestrcpy :: "nat \<Rightarrow> nat \<Rightarrow> int \<Rightarrow> mem \<Rightarrow> mem" where
  "safestrcpy s t n m = (if n \<le> 0 then m else safestrcpy_loop s t (nat n - 1) m)"

partial_function (option) strlen_from :: "(nat \<Rightarrow> byte) \<Rightarrow> nat \<Rightarrow> nat option" where
  "strlen_from s n = (if s n \<noteq> 0 then strlen_from s (n + 1) else Some n)"

definition strlen :: "(nat \<Rightarrow> byte) \<Rightarrow> nat option" where
  "strlen s = strlen_from s 0"

text \<open>\<^verbatim>\<open>ulib/ulib.c\<close>\<close>

partial_function (option) strcpy :: "nat \<Rightarrow> nat \<Rightarrow> mem \<Rightarrow> mem option" where
  "strcpy s t m =
     (let c = m t; m = m(s := c) in if c \<noteq> 0 then strcpy (s + 1) (t + 1) m else Some m)"

partial_function (option) strcmp :: "(nat \<Rightarrow> byte) \<Rightarrow> (nat \<Rightarrow> byte) \<Rightarrow> int option" where
  "strcmp p q =
     (if p 0 \<noteq> 0 \<and> p 0 = q 0 then strcmp (at_ptr p 1) (at_ptr q 1) else Some (uint (p 0) - uint (q 0)))"

definition umemset :: "nat \<Rightarrow> nat \<Rightarrow> nat \<Rightarrow> mem \<Rightarrow> mem" where
  "umemset dst c n m = stosb dst (of_nat c) n m"

partial_function (option) strchr_from :: "(nat \<Rightarrow> byte) \<Rightarrow> byte \<Rightarrow> nat \<Rightarrow> nat option option" where
  "strchr_from s c i =
     (if s i = 0 then Some None else if s i = c then Some (Some i) else strchr_from s c (i + 1))"

definition strchr :: "(nat \<Rightarrow> byte) \<Rightarrow> byte \<Rightarrow> nat option option" where
  "strchr s c = strchr_from s c 0"

text \<open>\<^verbatim>\<open>gets\<close>: \<open>inp\<close> is what the reads of file 0 return, the end of the list being end of file.\<close>

fun gets_loop :: "nat \<Rightarrow> byte list \<Rightarrow> byte list" where
  "gets_loop 0 inp = []"
| "gets_loop (Suc k) [] = []"
| "gets_loop (Suc k) (c # inp) = (if c = 10 \<or> c = 13 then [c] else c # gets_loop k inp)"

definition gets :: "nat \<Rightarrow> byte list \<Rightarrow> byte list" where
  "gets mx inp = gets_loop (mx - 1) inp @ [0]"

text \<open>
  \<^verbatim>\<open>atoi\<close>; the accumulator is an \<^verbatim>\<open>int\<close>, kept at 32 bits.  C leaves its overflow undefined; the model has the
  wrap-around of the machine's arithmetic.
\<close>

partial_function (option) atoi_from :: "(nat \<Rightarrow> byte) \<Rightarrow> nat \<Rightarrow> 32 word \<Rightarrow> 32 word option" where
  "atoi_from s i n =
     (if 48 \<le> s i \<and> s i \<le> 57 then atoi_from s (i + 1) (n * 10 + ucast (s i) - 48) else Some n)"

definition atoi :: "(nat \<Rightarrow> byte) \<Rightarrow> 32 word option" where
  "atoi s = atoi_from s 0 0"

definition umemmove :: "nat \<Rightarrow> nat \<Rightarrow> int \<Rightarrow> mem \<Rightarrow> mem" where
  "umemmove dst src n m = copy_up dst src (nat n) m"


section \<open>Filling and copying\<close>

lemma stosb_eq: "stosb a c n m = (\<lambda>x. if a \<le> x \<and> x < a + n then c else m x)"
  by (induction n arbitrary: a m) (auto simp: fun_eq_iff)

lemma of_nat_byte_add: "(of_nat (k * 256 + c) :: byte) = of_nat c"
  by (simp only: word_unat_eq_iff unat_of_nat_byte) simp

lemma word_bytes:
  fixes c :: nat
  assumes "c < 256"
  defines "v \<equiv> c * 2 ^ 24 + c * 2 ^ 16 + c * 2 ^ 8 + c"
  shows "(of_nat v :: byte) = of_nat c" "(of_nat (v div 2 ^ 8) :: byte) = of_nat c"
    "(of_nat (v div 2 ^ 16) :: byte) = of_nat c" "(of_nat (v div 2 ^ 24) :: byte) = of_nat c"
proof -
  have "v = (c * 2 ^ 16 + c * 2 ^ 8 + c) * 256 + c" by (simp add: v_def)
  then show "(of_nat v :: byte) = of_nat c" by (simp only: of_nat_byte_add)
  have "v div 2 ^ 8 = (c * 2 ^ 8 + c) * 256 + c" using assms(1) by (simp add: v_def)
  then show "(of_nat (v div 2 ^ 8) :: byte) = of_nat c" by (simp only: of_nat_byte_add)
  have "v div 2 ^ 16 = c * 256 + c" using assms(1) by (simp add: v_def)
  then show "(of_nat (v div 2 ^ 16) :: byte) = of_nat c" by (simp only: of_nat_byte_add)
  have "v div 2 ^ 24 = c" using assms(1) by (simp add: v_def)
  then show "(of_nat (v div 2 ^ 24) :: byte) = of_nat c" by simp
qed

lemma stosl_byte:
  assumes "c < 256"
  shows "stosl a (c * 2 ^ 24 + c * 2 ^ 16 + c * 2 ^ 8 + c) n m = stosb a (of_nat c) (4 * n) m"
proof (induction n arbitrary: a m)
  case (Suc n)
  show ?case
    unfolding stosl.simps word_bytes [OF assms] Suc.IH by (auto simp: stosb_eq fun_eq_iff)
qed simp

lemma memset_eq: "memset dst c n m = stosb dst (of_nat c) n m"
proof (cases "dst mod 4 = 0 \<and> n mod 4 = 0")
  case True
  then have "4 * (n div 4) = n" by auto
  moreover have "(of_nat (c mod 256) :: byte) = of_nat c"
    by (simp add: word_unat_eq_iff unat_of_nat_byte)
  ultimately show ?thesis
    using True stosl_byte [of "c mod 256" dst "n div 4" m] by (simp add: memset_def Let_def)
qed (auto simp: memset_def)

lemma copy_up_eq:
  "d \<le> s \<or> s + n \<le> d \<Longrightarrow>
   copy_up d s n m = (\<lambda>a. if d \<le> a \<and> a < d + n then m (s + (a - d)) else m a)"
proof (induction n arbitrary: d s m)
  case (Suc n)
  have *: "copy_up (d + 1) (s + 1) n (m(d := m s)) =
      (\<lambda>a. if d + 1 \<le> a \<and> a < d + 1 + n then (m(d := m s)) (s + 1 + (a - (d + 1))) else (m(d := m s)) a)"
    using Suc.prems by (intro Suc.IH) auto
  show ?case
  proof
    fix a
    consider "a = d" | "d < a" "a < d + Suc n" | "a < d \<or> d + Suc n \<le> a" by linarith
    then show "copy_up d s (Suc n) m a = (if d \<le> a \<and> a < d + Suc n then m (s + (a - d)) else m a)"
    proof cases
      case 2
      then have "s + 1 + (a - (d + 1)) = s + (a - d)" "s + (a - d) \<noteq> d" using Suc.prems by linarith+
      with 2 * show ?thesis by simp
    qed (use * in auto)
  qed
qed (auto simp: fun_eq_iff)

lemma copy_down_eq:
  "s \<le> d \<Longrightarrow> copy_down (d + n) (s + n) n m = (\<lambda>a. if d \<le> a \<and> a < d + n then m (s + (a - d)) else m a)"
proof (induction n arbitrary: m)
  case (Suc n)
  have "copy_down (d + n) (s + n) n (m(d + n := m (s + n))) =
      (\<lambda>a. if d \<le> a \<and> a < d + n then (m(d + n := m (s + n))) (s + (a - d)) else (m(d + n := m (s + n))) a)"
    using Suc by blast
  moreover have "s + (a - d) \<noteq> d + n" if "d \<le> a" "a < d + n" for a
    using that Suc.prems by linarith
  ultimately show ?case
    by (auto simp: fun_eq_iff less_Suc_eq)
qed (auto simp: fun_eq_iff)

lemma memmove_eq: "memmove dst src n m = (\<lambda>a. if dst \<le> a \<and> a < dst + n then m (src + (a - dst)) else m a)"
  by (auto simp: memmove_def copy_up_eq copy_down_eq fun_eq_iff)


section \<open>Strings\<close>

lemma at_ptr_simps [simp]: "at_ptr p 0 = p" "at_ptr p a i = p (a + i)" "at_ptr (at_ptr p a) b = at_ptr p (a + b)"
  by (simp_all add: at_ptr_def fun_eq_iff add.assoc)

lemma strncmp_eq_0: "strncmp p q n = 0 \<longleftrightarrow> (\<forall>i<n. (\<forall>j<i. p j \<noteq> 0) \<longrightarrow> p i = q i)"
proof (induction n arbitrary: p q)
  case (Suc n)
  have un: "uint (p 0) - uint (q 0) = 0 \<longleftrightarrow> p 0 = q 0" by (simp add: word_uint_eq_iff)
  have split: "(\<forall>i<Suc n. (\<forall>j<i. p j \<noteq> 0) \<longrightarrow> p i = q i) \<longleftrightarrow>
      p 0 = q 0 \<and> (p 0 \<noteq> 0 \<longrightarrow> (\<forall>i<n. (\<forall>j<i. p (Suc j) \<noteq> 0) \<longrightarrow> p (Suc i) = q (Suc i)))"
    by (auto simp: All_less_Suc2)
  show ?case
  proof (cases "p 0 \<noteq> 0 \<and> p 0 = q 0")
    case True
    then show ?thesis using Suc.IH [of "at_ptr p 1" "at_ptr q 1"] split by (simp add: at_ptr_def)
  next
    case False
    then show ?thesis using split un by auto
  qed
qed simp

lemma ex_le_Suc: "(\<exists>j\<le>Suc k. P j) \<longleftrightarrow> P 0 \<or> (\<exists>j\<le>k. P (Suc j))"
  by (simp add: Ex_less_Suc2 flip: less_Suc_eq_le)

text \<open>\<^verbatim>\<open>strncpy\<close> writes the whole field: the string up to its NUL, then zeros.\<close>

lemma strncpy_eq:
  assumes "s + n \<le> t \<or> t + n \<le> s"
  shows "strncpy s t n m =
    (\<lambda>a. if s \<le> a \<and> a < s + n then (if \<exists>j\<le>a - s. m (t + j) = 0 then 0 else m (t + (a - s))) else m a)"
  using assms
proof (induction n arbitrary: s t m)
  case (Suc n)
  show ?case
  proof (cases "m t = 0")
    case True
    then show ?thesis by (auto simp: fun_eq_iff stosb_eq)
  next
    case False
    let ?m = "m(s := m t)"
    have IH: "strncpy (s + 1) (t + 1) n ?m = (\<lambda>a. if s + 1 \<le> a \<and> a < s + 1 + n
        then (if \<exists>j\<le>a - (s + 1). ?m (t + 1 + j) = 0 then 0 else ?m (t + 1 + (a - (s + 1)))) else ?m a)"
      using Suc.prems by (intro Suc.IH) auto
    show ?thesis
    proof
      fix a
      consider "a = s" | "s < a" "a < s + Suc n" | "a < s \<or> s + Suc n \<le> a" by linarith
      then show "strncpy s t (Suc n) m a = (if s \<le> a \<and> a < s + Suc n
          then (if \<exists>j\<le>a - s. m (t + j) = 0 then 0 else m (t + (a - s))) else m a)"
      proof cases
        case 2
        then obtain k where k: "a = s + 1 + k" "k < n"
          by (intro that [of "a - (s + 1)"]) auto
        have ne: "t + 1 + j \<noteq> s" if "j < n" for j using that Suc.prems by linarith
        have "(\<exists>j\<le>Suc k. m (t + j) = 0) \<longleftrightarrow> (\<exists>j\<le>k. m (t + 1 + j) = 0)"
          using False by (simp add: ex_le_Suc)
        moreover have "(\<exists>j\<le>k. ?m (t + 1 + j) = 0) \<longleftrightarrow> (\<exists>j\<le>k. m (t + 1 + j) = 0)"
          using ne k(2) by (auto simp del: fun_upd_apply simp: fun_upd_other)
        ultimately show ?thesis using False IH k ne [OF k(2)] by simp
      qed (use IH False in auto)
    qed
  qed
qed (auto simp: fun_eq_iff)


lemma safestrcpy_loop_frame: "a < s \<or> s + k < a \<Longrightarrow> safestrcpy_loop s t k m a = m a"
  by (induction k arbitrary: s t m) (auto simp: Let_def)

lemma safestrcpy_loop_nul: "\<exists>j\<le>k. safestrcpy_loop s t k m (s + j) = 0"
proof (induction k arbitrary: s t m)
  case (Suc k)
  show ?case
  proof (cases "m t = 0")
    case True
    then show ?thesis by (intro exI [of _ 0]) simp
  next
    case False
    obtain j where "j \<le> k" "safestrcpy_loop (s + 1) (t + 1) k (m(s := m t)) (s + 1 + j) = 0"
      using Suc.IH by blast
    with False show ?thesis by (intro exI [of _ "Suc j"]) simp
  qed
qed simp

lemma strlen_from_nul:
  "s (i + k) = 0 \<Longrightarrow> (\<And>j. j < k \<Longrightarrow> s (i + j) \<noteq> 0) \<Longrightarrow> strlen_from s i = Some (i + k)"
proof (induction k arbitrary: i)
  case 0
  then show ?case by (simp add: strlen_from.simps)
next
  case (Suc k)
  have "strlen_from s (i + 1) = Some (i + 1 + k)"
    using Suc.prems(1) Suc.prems(2) [of "Suc j" for j] by (intro Suc.IH) auto
  then show ?case using Suc.prems(2) [of 0] by (subst strlen_from.simps) simp
qed

text \<open>The decimal digits of a number, as \<^verbatim>\<open>printint\<close> prints it and \<^verbatim>\<open>atoi\<close> reads it.\<close>

definition digit_at :: "(nat \<Rightarrow> byte) \<Rightarrow> nat \<Rightarrow> bool" where
  "digit_at s i \<longleftrightarrow> 48 \<le> s i \<and> s i \<le> 57"

fun dec_value :: "(nat \<Rightarrow> byte) \<Rightarrow> nat \<Rightarrow> nat" where
  "dec_value s 0 = 0"
| "dec_value s (Suc k) = dec_value s k * 10 + (unat (s k) - 48)"

lemma atoi_from_digits:
  assumes "\<not> digit_at s (i + k)" and "\<And>j. j < i + k \<Longrightarrow> digit_at s j"
  shows "atoi_from s i (of_nat (dec_value s i)) = Some (of_nat (dec_value s (i + k)))"
  using assms
proof (induction k arbitrary: i)
  case 0
  then show ?case by (subst atoi_from.simps) (auto simp: digit_at_def)
next
  case (Suc k)
  have d: "digit_at s i" using Suc.prems(2) by simp
  then have u: "48 \<le> unat (s i)" by (simp add: digit_at_def word_le_nat_alt)
  define v where "v = dec_value s i"
  have "(ucast (s i) :: 32 word) = of_nat (unat (s i))" by simp
  then have step: "(of_nat v :: 32 word) * 10 + ucast (s i) - 48 = of_nat (v * 10 + (unat (s i) - 48))"
    using u by (simp only: of_nat_add of_nat_mult of_nat_diff of_nat_numeral add_diff_eq)
  have "atoi_from s i (of_nat v) = atoi_from s (i + 1) (of_nat v * 10 + ucast (s i) - 48)"
    using d by (subst atoi_from.simps) (simp add: digit_at_def)
  then have "atoi_from s i (of_nat v) = atoi_from s (i + 1) (of_nat (dec_value s (Suc i)))"
    unfolding step by (simp only: dec_value.simps v_def)
  moreover have "atoi_from s (Suc i) (of_nat (dec_value s (Suc i))) = Some (of_nat (dec_value s (Suc i + k)))"
    using Suc.prems by (intro Suc.IH) (simp_all del: dec_value.simps)
  ultimately show ?case
    by (simp only: v_def Suc_eq_plus1 [symmetric] add_Suc add_Suc_right)
qed

section \<open>Properties\<close>

text \<open>
  C30: the kernel's \<^verbatim>\<open>memmove\<close> is a simultaneous copy, whatever the overlap of source and destination:
  afterwards the destination holds what the source held before, and no other byte has changed.
\<close>

theorem memmove_overlap_safe:
  "memmove dst src n m = (\<lambda>a. if dst \<le> a \<and> a < dst + n then m (src + (a - dst)) else m a)"
  by (rule memmove_eq)

text \<open>
  \<^verbatim>\<open>memset\<close> fills exactly the given bytes; its path by double words and its path by bytes agree.
\<close>

lemma memset_fills: "memset dst c n m = (\<lambda>a. if dst \<le> a \<and> a < dst + n then of_nat c else m a)"
  by (simp only: memset_eq stosb_eq)

text \<open>
  C31: a name stored with \<^verbatim>\<open>strncpy\<close> in a field of \<open>n\<close> bytes is found again by \<^verbatim>\<open>strncmp\<close>: the field compares equal to
  exactly the strings that agree with the source up to its NUL or, without one, on \<open>n\<close> bytes.  From the
  NUL on the field is zero, and no other byte has changed.
\<close>

theorem strncpy_strncmp:
  assumes "s + n \<le> t \<or> t + n \<le> s"
  shows "(\<forall>q. strncmp (at_ptr (strncpy s t n m) s) q n = 0
        \<longleftrightarrow> (\<forall>i<n. (\<forall>j<i. m (t + j) \<noteq> 0) \<longrightarrow> q i = m (t + i)))
    \<and> (\<forall>i<n. (\<exists>j\<le>i. m (t + j) = 0) \<longrightarrow> strncpy s t n m (s + i) = 0)
    \<and> (\<forall>a. a < s \<or> s + n \<le> a \<longrightarrow> strncpy s t n m a = m a)"
proof (intro conjI)
  have stored: "strncpy s t n m (s + i) = (if \<exists>j\<le>i. m (t + j) = 0 then 0 else m (t + i))" if "i < n" for i
    using that assms by (auto simp: strncpy_eq)
  have run: "(\<forall>j<i. strncpy s t n m (s + j) \<noteq> 0) \<longleftrightarrow> (\<forall>j<i. m (t + j) \<noteq> 0)" if "i < n" for i
    using that by (auto simp: stored)
  have same: "strncpy s t n m (s + i) = m (t + i)" if "i < n" "\<forall>j<i. m (t + j) \<noteq> 0" for i
    using that by (auto simp: stored le_less)
  show "\<forall>q. strncmp (at_ptr (strncpy s t n m) s) q n = 0
        \<longleftrightarrow> (\<forall>i<n. (\<forall>j<i. m (t + j) \<noteq> 0) \<longrightarrow> q i = m (t + i))"
  proof
    fix q
    have "((\<forall>j<i. strncpy s t n m (s + j) \<noteq> 0) \<longrightarrow> strncpy s t n m (s + i) = q i)
        \<longleftrightarrow> ((\<forall>j<i. m (t + j) \<noteq> 0) \<longrightarrow> q i = m (t + i))" if "i < n" for i
      unfolding run [OF that] using same [OF that] by auto
    then show "strncmp (at_ptr (strncpy s t n m) s) q n = 0
        \<longleftrightarrow> (\<forall>i<n. (\<forall>j<i. m (t + j) \<noteq> 0) \<longrightarrow> q i = m (t + i))"
      unfolding strncmp_eq_0 at_ptr_def by blast
  qed
  show "\<forall>i<n. (\<exists>j\<le>i. m (t + j) = 0) \<longrightarrow> strncpy s t n m (s + i) = 0" using stored by simp
  show "\<forall>a. a < s \<or> s + n \<le> a \<longrightarrow> strncpy s t n m a = m a" using assms by (auto simp: strncpy_eq)
qed

definition demo_name :: mem where
  "demo_name a = (if a = 14 then 97 else if a = 15 then 98 else 0)"

theorem strncpy_strncmp_witness:
  "strncmp (at_ptr (strncpy 0 14 14 demo_name) 0) (\<lambda>i. if i = 0 then 97 else if i = 1 then 98 else 0) 14 = 0
   \<and> strncmp (at_ptr (strncpy 0 14 14 demo_name) 0) (\<lambda>i. 97) 14 \<noteq> 0
   \<and> strncpy 0 14 14 demo_name 2 = 0"
proof -
  have h: "0 + 14 \<le> (14 :: nat) \<or> 14 + 14 \<le> (0 :: nat)" by simp
  note t = strncpy_strncmp [OF h, of demo_name]
  have "\<forall>i<14. (\<forall>j<i. demo_name (14 + j) \<noteq> 0) \<longrightarrow> (if i = 0 then 97 else if i = 1 then 98 else 0) = demo_name (14 + i)"
    by (auto simp: demo_name_def)
  moreover have "\<not> (\<forall>i<14. (\<forall>j<i. demo_name (14 + j) \<noteq> 0) \<longrightarrow> (97 :: byte) = demo_name (14 + i))"
    by (auto simp: demo_name_def intro!: exI [of _ "1 :: nat"])
  moreover have "strncpy 0 14 14 demo_name 2 = 0"
  proof -
    have "\<exists>j\<le>2. demo_name (14 + j) = 0" by (rule exI [of _ 2]) (simp add: demo_name_def)
    with conjunct1 [OF conjunct2 [OF t], rule_format, of 2] show ?thesis by (simp only: add_0)
  qed
  ultimately show ?thesis by (simp only: conjunct1 [OF t, THEN spec] simp_thms)
qed

text \<open>
  \<^verbatim>\<open>safestrcpy\<close> with a positive size always leaves a NUL inside the destination's \<open>n\<close> bytes and
  writes nowhere else; with a size of zero or less it writes nothing.
\<close>

lemma safestrcpy_terminates:
  "(0 < n \<longrightarrow> (\<exists>j. int j < n \<and> safestrcpy s t n m (s + j) = 0))
   \<and> (\<forall>a. a < s \<or> int s + n \<le> int a \<longrightarrow> safestrcpy s t n m a = m a)"
proof (intro conjI impI allI)
  assume n: "0 < n"
  obtain j where "j \<le> nat n - 1" "safestrcpy_loop s t (nat n - 1) m (s + j) = 0"
    using safestrcpy_loop_nul by blast
  then show "\<exists>j. int j < n \<and> safestrcpy s t n m (s + j) = 0"
    using n by (intro exI [of _ j]) (auto simp: safestrcpy_def)
next
  fix a assume "a < s \<or> int s + n \<le> int a"
  then show "safestrcpy s t n m a = m a"
    by (auto simp: safestrcpy_def intro!: safestrcpy_loop_frame)
qed

lemma safestrcpy_terminates_witness:
  "\<exists>j. int j < 3 \<and> safestrcpy 0 100 3 (\<lambda>a. 65) (0 + j) = 0"
  using safestrcpy_terminates [of 3 0 100 "\<lambda>a. 65"] by simp

lemma copy_up_last:
  "copy_up d s (Suc n) m = (copy_up d s n m)(d + n := copy_up d s n m (s + n))"
proof (induction n arbitrary: d s m)
  case (Suc n)
  have "copy_up d s (Suc (Suc n)) m = copy_up (d + 1) (s + 1) (Suc n) (m(d := m s))" by (rule copy_up.simps)
  also have "\<dots> = (copy_up (d + 1) (s + 1) n (m(d := m s)))(d + 1 + n := copy_up (d + 1) (s + 1) n (m(d := m s)) (s + 1 + n))"
    by (rule Suc.IH)
  also have "\<dots> = (copy_up d s (Suc n) m)(d + Suc n := copy_up d s (Suc n) m (s + Suc n))"
    unfolding copy_up.simps by simp
  finally show ?case .
qed simp

lemma copy_up_repeats:
  assumes "0 < k"
  shows "copy_up (s + k) s n m = (\<lambda>a. if s + k \<le> a \<and> a < s + k + n then m (s + (a - (s + k)) mod k) else m a)"
proof (induction n)
  case (Suc n)
  have "copy_up (s + k) s n m (s + n) = m (s + n mod k)"
  proof (cases "n < k")
    case False
    then show ?thesis unfolding Suc.IH using assms by (simp add: le_mod_geq)
  qed (simp add: Suc.IH)
  then show ?case unfolding copy_up_last using Suc.IH by (auto simp: fun_eq_iff less_Suc_eq)
qed (auto simp: fun_eq_iff)

text \<open>
  C39: the \<^verbatim>\<open>memmove\<close> of the user library agrees with the kernel's when the destination is not above the source.  Otherwise it
  repeats the bytes between the two addresses over the whole destination: byte \<open>i\<close> of it is byte \<open>i mod (dst - src)\<close> of
  the source.  So it is a move exactly where the two ranges do not overlap from above.
\<close>

theorem user_memmove_repeats:
  "umemmove dst src n m =
     (if dst \<le> src then memmove dst src (nat n) m
      else (\<lambda>a. if dst \<le> a \<and> a < dst + nat n then m (src + (a - dst) mod (dst - src)) else m a))
   \<and> (src + nat n \<le> dst \<longrightarrow> umemmove dst src n m = memmove dst src (nat n) m)
   \<and> (src < dst \<and> dst < src + nat n \<longrightarrow> (\<exists>m'. umemmove dst src n m' \<noteq> memmove dst src (nat n) m'))"
proof (intro conjI impI)
  have up: "umemmove dst src n m' = (\<lambda>a. if dst \<le> a \<and> a < dst + nat n then m' (src + (a - dst) mod (dst - src)) else m' a)"
    if "src < dst" for m'
    using copy_up_repeats [of "dst - src" src "nat n" m'] that unfolding umemmove_def by (simp only: le_add_diff_inverse less_imp_le zero_less_diff)
  show "umemmove dst src n m =
     (if dst \<le> src then memmove dst src (nat n) m
      else (\<lambda>a. if dst \<le> a \<and> a < dst + nat n then m (src + (a - dst) mod (dst - src)) else m a))"
    using up by (simp add: umemmove_def memmove_def)
  show "umemmove dst src n m = memmove dst src (nat n) m" if "src + nat n \<le> dst"
    using that by (simp add: umemmove_def memmove_def)
  assume o: "src < dst \<and> dst < src + nat n"
  then obtain k where k: "dst = src + k" "0 < k" "k < nat n" by (metis add_less_cancel_left less_imp_add_positive)
  let ?m = "\<lambda>a. if a = dst then 1 else 0 :: byte"
  have "umemmove dst src n ?m (dst + k) = 0" unfolding up [OF conjunct1 [OF o]] using k by simp
  moreover have "memmove dst src (nat n) ?m (dst + k) = 1" using k by (simp add: memmove_eq)
  ultimately show "\<exists>m'. umemmove dst src n m' \<noteq> memmove dst src (nat n) m'" by (metis zero_neq_one)
qed

theorem user_memmove_repeats_witness:
  "umemmove 100 0 8 (\<lambda>a. of_nat a) = memmove 100 0 8 (\<lambda>a. of_nat a)
   \<and> (\<exists>m'. umemmove 1 0 3 m' \<noteq> memmove 1 0 3 m')"
proof (intro conjI)
  show "umemmove 100 0 8 (\<lambda>a. of_nat a) = memmove 100 0 8 (\<lambda>a. of_nat a)"
    using conjunct1 [OF conjunct2 [OF user_memmove_repeats [where dst = 100 and src = 0 and n = 8]]] by simp
  show "\<exists>m'. umemmove 1 0 3 m' \<noteq> memmove 1 0 3 m'"
    using conjunct2 [OF conjunct2 [OF user_memmove_repeats [where dst = 1 and src = 0 and n = 3]]] by simp
qed

text \<open>
  C33: \<^verbatim>\<open>atoi\<close> reads the decimal number at the start of a string: \<open>k\<close> digits followed by a byte that is not
  a digit give their value modulo \<open>2 ^ 32\<close>.
\<close>

theorem atoi_decimal:
  assumes "\<not> digit_at s k" and "\<forall>j<k. digit_at s j"
  shows "atoi s = Some (of_nat (dec_value s k))"
  using atoi_from_digits [of s 0 k] assms by (simp add: atoi_def)

theorem atoi_decimal_witness: "atoi (\<lambda>i. if i = 0 then 52 else if i = 1 then 50 else 0) = Some 42"
proof -
  let ?s = "\<lambda>i :: nat. if i = 0 then 52 else if i = 1 then 50 else (0 :: byte)"
  have "\<not> digit_at ?s (Suc (Suc 0))" "\<forall>j<Suc (Suc 0). digit_at ?s j"
    by (auto simp: digit_at_def word_le_nat_alt less_Suc_eq)
  from atoi_decimal [OF this] show ?thesis by simp
qed

end
