(* ===== verification/Kalloc.thy ===== *)
theory Kalloc
  imports Prelude Kstring
begin

text \<open>
  \<^verbatim>\<open>kernel/kalloc.c\<close>: the allocator of physical pages, on a memory that maps kernel virtual addresses to bytes.
  The list of free pages is threaded through the pages themselves.  The first address after the kernel, which the
  linker sets (\<^verbatim>\<open>end\<close>), is an argument.  The critical sections under \<^verbatim>\<open>kmem.lock\<close> are single steps.
\<close>

unbundle bit_operations_syntax

section \<open>Addresses and memory\<close>

definition KERNBASE :: nat where "KERNBASE = 0xFFFFFFFF80000000"
definition PHYSTOP :: nat where "PHYSTOP = 0xE000000"
definition PGSIZE :: nat where "PGSIZE = 4096"

definition v2p :: "nat \<Rightarrow> nat" where "v2p a = (a + 2 ^ 64 - KERNBASE) mod 2 ^ 64"
definition p2v :: "nat \<Rightarrow> nat" where "p2v a = (a + KERNBASE) mod 2 ^ 64"

definition PGROUNDUP :: "nat \<Rightarrow> nat" where
  "PGROUNDUP sz = push_bit 12 (drop_bit 12 ((sz + (PGSIZE - 1)) mod 2 ^ 64))"

definition PGROUNDDOWN :: "nat \<Rightarrow> nat" where
  "PGROUNDDOWN a = push_bit 12 (drop_bit 12 a)"

text \<open>A 64-bit word in memory.\<close>

definition rd64 :: "mem \<Rightarrow> nat \<Rightarrow> nat" where
  "rd64 m a = (\<Sum>i<8. unat (m (a + i)) * 256 ^ i)"

definition wr64 :: "nat \<Rightarrow> nat \<Rightarrow> mem \<Rightarrow> mem" where
  "wr64 a v m = (\<lambda>x. if a \<le> x \<and> x < a + 8 then word_of_nat (v div 256 ^ (x - a)) else m x)"

section \<open>The allocator\<close>

record kmem =
  use_lock :: bool
  freelist :: nat
  pmem :: mem

definition kfree :: "nat \<Rightarrow> nat \<Rightarrow> kmem \<Rightarrow> kmem res" where
  "kfree kend v K =
     (if v mod PGSIZE \<noteq> 0 \<or> v < kend \<or> v2p v \<ge> PHYSTOP then Panic ''kfree''
      else
        let K = K\<lparr>pmem := memset v 1 PGSIZE (pmem K)\<rparr>;
            K = K\<lparr>pmem := wr64 v (freelist K) (pmem K)\<rparr>
        in Ok (K\<lparr>freelist := v\<rparr>))"

definition kalloc :: "kmem \<Rightarrow> nat \<times> kmem" where
  "kalloc K = (let r = freelist K in (r, if r \<noteq> 0 then K\<lparr>freelist := rd64 (pmem K) r\<rparr> else K))"

function freerange_loop :: "nat \<Rightarrow> nat \<Rightarrow> nat \<Rightarrow> kmem \<Rightarrow> kmem res" where
  "freerange_loop kend p vend K =
     (if p + PGSIZE \<le> vend then rbind (kfree kend p K) (freerange_loop kend (p + PGSIZE) vend) else Ok K)"
  by pat_completeness auto
termination
  by (relation "measure (\<lambda>(e, p, vend, K). vend - p)") (auto simp: PGSIZE_def)

declare freerange_loop.simps [simp del]

definition freerange :: "nat \<Rightarrow> nat \<Rightarrow> nat \<Rightarrow> kmem \<Rightarrow> kmem res" where
  "freerange kend vstart vend K = freerange_loop kend (PGROUNDUP vstart) vend K"

definition kinit1 :: "nat \<Rightarrow> nat \<Rightarrow> nat \<Rightarrow> kmem \<Rightarrow> kmem res" where
  "kinit1 kend vstart vend K = freerange kend vstart vend (K\<lparr>use_lock := False\<rparr>)"

definition kinit2 :: "nat \<Rightarrow> nat \<Rightarrow> nat \<Rightarrow> kmem \<Rightarrow> kmem res" where
  "kinit2 kend vstart vend K = rbind (freerange kend vstart vend K) (\<lambda>K. Ok (K\<lparr>use_lock := True\<rparr>))"

section \<open>Words in memory\<close>

lemma digits_sum: "(\<Sum>i<n. v div 256 ^ i mod 256 * 256 ^ i) = v mod 256 ^ n" for v :: nat
proof (induction n)
  case (Suc n)
  have "v mod (256 ^ n * 256) = 256 ^ n * (v div 256 ^ n mod 256) + v mod 256 ^ n"
    by (rule mod_mult2_eq)
  then show ?case using Suc by (simp add: mult.commute)
qed simp

lemma rd64_wr64 [simp]: "v < 2 ^ 64 \<Longrightarrow> rd64 (wr64 a v m) a = v"
proof -
  assume v: "v < 2 ^ 64"
  have "rd64 (wr64 a v m) a = (\<Sum>i<8. v div 256 ^ i mod 256 * 256 ^ i)"
    unfolding rd64_def by (rule sum.cong) (auto simp: wr64_def unat_of_nat)
  also have "\<dots> = v" unfolding digits_sum using v by simp
  finally show ?thesis .
qed

lemma rd64_cong: "(\<And>x. a \<le> x \<Longrightarrow> x < a + 8 \<Longrightarrow> m x = m' x) \<Longrightarrow> rd64 m a = rd64 m' a"
  unfolding rd64_def by (rule sum.cong) auto

lemma rd64_wr64_other: "a + 8 \<le> b \<or> b + 8 \<le> a \<Longrightarrow> rd64 (wr64 b v m) a = rd64 m a"
  by (rule rd64_cong) (auto simp: wr64_def)

lemma wr64_other: "x < a \<or> a + 8 \<le> x \<Longrightarrow> wr64 a v m x = m x"
  by (auto simp: wr64_def)

lemma rd64_bound: "rd64 m a < 2 ^ 64"
proof -
  have "(\<Sum>i<n. unat (m (a + i)) * 256 ^ i) < 256 ^ n" for n
  proof (induction n)
    case (Suc n)
    have "unat (m (a + n)) \<le> 255" using unsigned_less [of "m (a + n)", where ?'a = nat] by simp
    then have "unat (m (a + n)) * 256 ^ n \<le> 255 * 256 ^ n" by (rule mult_right_mono) simp
    with Suc show ?case unfolding sum.lessThan_Suc power_Suc by linarith
  qed simp
  from this [of 8] show ?thesis by (simp add: rd64_def)
qed


lemma shift_12 [simp]: "push_bit 12 (drop_bit 12 a) = a div 4096 * 4096" for a :: nat
  by (simp add: push_bit_eq_mult drop_bit_eq_div)

section \<open>The list of free pages\<close>

definition page_ok :: "nat \<Rightarrow> nat \<Rightarrow> bool" where
  "page_ok kend v \<longleftrightarrow> v mod PGSIZE = 0 \<and> kend \<le> v \<and> 0 < v \<and> v < 2 ^ 64 \<and> v2p v < PHYSTOP"

fun chain :: "mem \<Rightarrow> nat \<Rightarrow> nat list \<Rightarrow> bool" where
  "chain m p [] \<longleftrightarrow> p = 0"
| "chain m p (q # qs) \<longleftrightarrow> p = q \<and> chain m (rd64 m q) qs"

definition kmem_inv :: "nat \<Rightarrow> kmem \<Rightarrow> nat list \<Rightarrow> bool" where
  "kmem_inv kend K ps \<longleftrightarrow> chain (pmem K) (freelist K) ps \<and> distinct ps \<and> (\<forall>p\<in>set ps. page_ok kend p)"

lemma chain_cong: "\<forall>q\<in>set qs. rd64 m q = rd64 m' q \<Longrightarrow> chain m p qs = chain m' p qs"
  by (induction qs arbitrary: p) auto

lemma chain_inj: "chain m p qs \<Longrightarrow> chain m p qs' \<Longrightarrow> 0 \<notin> set qs \<Longrightarrow> 0 \<notin> set qs' \<Longrightarrow> qs = qs'"
proof (induction qs arbitrary: p qs')
  case Nil
  then show ?case by (cases qs') auto
next
  case (Cons q qs)
  then show ?case by (cases qs') auto
qed

lemma chain_freelist: "chain m p qs \<Longrightarrow> \<forall>q\<in>set qs. page_ok kend q \<Longrightarrow> p < 2 ^ 64 \<and> (p = 0 \<longleftrightarrow> qs = [])"
  by (cases qs) (auto simp: page_ok_def)

lemma page_apart: "p mod PGSIZE = 0 \<Longrightarrow> q mod PGSIZE = 0 \<Longrightarrow> p \<noteq> q \<Longrightarrow> p + PGSIZE \<le> q \<or> q + PGSIZE \<le> p"
  by (auto simp: PGSIZE_def mod_eq_0_iff_dvd elim!: dvdE)

lemma kfree_ok:
  assumes K: "kmem_inv kend K ps" and v: "page_ok kend v" "v \<notin> set ps"
  shows "\<exists>K'. kfree kend v K = Ok K' \<and> kmem_inv kend K' (v # ps) \<and> use_lock K' = use_lock K
    \<and> (\<forall>x. x < v \<or> v + PGSIZE \<le> x \<longrightarrow> pmem K' x = pmem K x)"
proof -
  define m where "m = wr64 v (freelist K) (memset v 1 PGSIZE (pmem K))"
  let ?K = "K\<lparr>pmem := m, freelist := v\<rparr>"
  have other: "m x = pmem K x" if "x < v \<or> v + PGSIZE \<le> x" for x
    using that by (auto simp: m_def wr64_def memset_eq stosb_eq PGSIZE_def)
  have "freelist K < 2 ^ 64" using K chain_freelist by (auto simp: kmem_inv_def)
  then have "rd64 m v = freelist K" by (simp add: m_def)
  moreover have "rd64 m q = rd64 (pmem K) q" if "q \<in> set ps" for q
  proof -
    have "q + PGSIZE \<le> v \<or> v + PGSIZE \<le> q"
      using page_apart [of q v] K v that by (auto simp: kmem_inv_def page_ok_def)
    then show ?thesis by (intro rd64_cong other) (auto simp: PGSIZE_def)
  qed
  ultimately have "kmem_inv kend ?K (v # ps)"
    using K v chain_cong [of ps m "pmem K"] by (auto simp: kmem_inv_def)
  moreover have "kfree kend v K = Ok ?K"
    using v(1) by (simp add: kfree_def page_ok_def m_def)
  ultimately show ?thesis using other by (intro exI [of _ ?K]) simp
qed

lemma kalloc_ok:
  assumes "kmem_inv kend K (p # ps)"
  shows "\<exists>K'. kalloc K = (p, K') \<and> kmem_inv kend K' ps \<and> use_lock K' = use_lock K \<and> pmem K' = pmem K"
  using assms by (auto simp: kmem_inv_def kalloc_def Let_def page_ok_def)

lemma kalloc_none: "kmem_inv kend K [] \<Longrightarrow> kalloc K = (0, K)"
  by (auto simp: kmem_inv_def kalloc_def)


text \<open>The pages of a range, as \<^verbatim>\<open>freerange\<close> counts them.\<close>

definition pages :: "nat \<Rightarrow> nat \<Rightarrow> nat list" where
  "pages p vend = map (\<lambda>j. p + j * PGSIZE) [0..<(vend - p) div PGSIZE]"

lemma pages_step:
  assumes "p + PGSIZE \<le> vend"
  shows "pages p vend = p # pages (p + PGSIZE) vend"
proof -
  obtain d where "vend = p + PGSIZE + d" using assms le_Suc_ex by blast
  then have "(vend - p) div PGSIZE = Suc ((vend - (p + PGSIZE)) div PGSIZE)"
    by (simp add: PGSIZE_def)
  moreover have "[0..<Suc n] = 0 # map Suc [0..<n]" for n
    by (simp add: upt_conv_Cons map_Suc_upt del: upt_Suc)
  ultimately show ?thesis by (simp add: pages_def o_def add.assoc)
qed

lemma pages_nil: "\<not> p + PGSIZE \<le> vend \<Longrightarrow> pages p vend = []"
  by (simp add: pages_def PGSIZE_def)

lemma pages_ge: "q \<in> set (pages p vend) \<Longrightarrow> p \<le> q"
  by (auto simp: pages_def)

lemma v2p_above: "KERNBASE \<le> v \<Longrightarrow> v < 2 ^ 64 \<Longrightarrow> v2p v = v - KERNBASE"
proof -
  assume "KERNBASE \<le> v" "v < 2 ^ 64"
  then have "v + 2 ^ 64 - KERNBASE = (v - KERNBASE) + 2 ^ 64" "v - KERNBASE < 2 ^ 64" by auto
  then show ?thesis unfolding v2p_def by (metis mod_add_self2 mod_less)
qed

lemma freerange_loop_ok:
  assumes "kmem_inv kend K ps" and "p mod PGSIZE = 0" "kend \<le> p" "KERNBASE \<le> p" "vend \<le> KERNBASE + PHYSTOP"
    and "\<forall>q\<in>set ps. q < p \<or> vend \<le> q"
  shows "\<exists>K'. freerange_loop kend p vend K = Ok K' \<and> kmem_inv kend K' (rev (pages p vend) @ ps)
    \<and> use_lock K' = use_lock K"
  using assms
proof (induction kend p vend K arbitrary: ps rule: freerange_loop.induct)
  case (1 kend p vend K)
  show ?case
  proof (cases "p + PGSIZE \<le> vend")
    case True
    have "p < 2 ^ 64" using True 1(6) by (simp add: KERNBASE_def PHYSTOP_def)
    then have "page_ok kend p" using v2p_above [OF 1(5)] True 1(3-6)
      by (auto simp: page_ok_def KERNBASE_def PGSIZE_def)
    moreover have "p \<notin> set ps" using 1(7) True by (auto simp: PGSIZE_def)
    ultimately obtain K1 where K1: "kfree kend p K = Ok K1" "kmem_inv kend K1 (p # ps)" "use_lock K1 = use_lock K"
      using kfree_ok [OF 1(2)] by blast
    have "(p + PGSIZE) mod PGSIZE = 0" using 1(3) by (simp add: PGSIZE_def)
    moreover have "\<forall>q\<in>set (p # ps). q < p + PGSIZE \<or> vend \<le> q" using 1(7) by (auto simp: PGSIZE_def)
    ultimately obtain K' where "freerange_loop kend (p + PGSIZE) vend K1 = Ok K'"
        "kmem_inv kend K' (rev (pages (p + PGSIZE) vend) @ p # ps)" "use_lock K' = use_lock K1"
      using 1(1) [OF True K1(2)] 1(4-6) by auto
    then show ?thesis using K1 True pages_step by (subst freerange_loop.simps) auto
  next
    case False
    then show ?thesis using 1(2) pages_nil by (subst freerange_loop.simps) auto
  qed
qed

section \<open>Histories of the allocator\<close>

text \<open>
  The contract clients rely on: \<open>free s\<close> are the pages on the free list, and an allocated page stays off it until
  it is freed.
\<close>

locale page_allocator =
  fixes inv :: "'s \<Rightarrow> nat set \<Rightarrow> bool"
    and page :: "nat \<Rightarrow> bool"
    and alloc :: "'s \<Rightarrow> nat \<times> 's"
    and free :: "nat \<Rightarrow> 's \<Rightarrow> 's res"
  assumes alloc_law: "inv s F \<Longrightarrow>
      (F = {} \<and> alloc s = (0, s)) \<or> (\<exists>p s'. p \<in> F \<and> page p \<and> alloc s = (p, s') \<and> inv s' (F - {p}))"
    and free_law: "inv s F \<Longrightarrow> page p \<Longrightarrow> p \<notin> F \<Longrightarrow> \<exists>s'. free p s = Ok s' \<and> inv s' (insert p F)"
    and null_law: "\<not> page 0" and finite_law: "inv s F \<Longrightarrow> finite F"
    and page_law: "inv s F \<Longrightarrow> p \<in> F \<Longrightarrow> page p"
begin

inductive use :: "'s \<times> nat set \<Rightarrow> 's \<times> nat set \<Rightarrow> bool" where
  use_alloc: "alloc s = (p, s') \<Longrightarrow> p \<noteq> 0 \<Longrightarrow> use (s, U) (s', insert p U)"
| use_fail: "alloc s = (0, s') \<Longrightarrow> use (s, U) (s', U)"
| use_free: "p \<in> U \<Longrightarrow> free p s = Ok s' \<Longrightarrow> use (s, U) (s', U - {p})"

lemma use_inv:
  assumes "use (s, U) (s', U')" and "inv s F" "F \<inter> U = {}" "finite U" "\<forall>p\<in>U. page p"
  shows "\<exists>F'. inv s' F' \<and> F' \<inter> U' = {} \<and> finite U' \<and> F' \<union> U' = F \<union> U \<and> (\<forall>p\<in>U'. page p)"
  using assms(1)
proof cases
  case (use_alloc p)
  with alloc_law [OF assms(2)] have p: "p \<in> F" "page p" "inv s' (F - {p})" by auto
  then show ?thesis using use_alloc assms(3-5) by (intro exI [of _ "F - {p}"]) auto
next
  case use_fail
  with alloc_law [OF assms(2)] null_law have "s' = s" by auto
  then show ?thesis using use_fail assms(2-5) by auto
next
  case (use_free p)
  then have "page p" "p \<notin> F" using assms(3,5) by auto
  from free_law [OF assms(2) this] use_free have "inv s' (insert p F)" by auto
  then show ?thesis using use_free assms(3-5) by (intro exI [of _ "insert p F"]) auto
qed

lemma history:
  assumes "use\<^sup>*\<^sup>* (s, U) (s', U')" and "inv s F" "F \<inter> U = {}" "finite U" "\<forall>p\<in>U. page p"
  shows "\<exists>F'. inv s' F' \<and> F' \<inter> U' = {} \<and> finite U' \<and> F' \<union> U' = F \<union> U \<and> (\<forall>p\<in>U'. page p)"
  using assms(1)
proof (induction rule: rtranclp_induct2)
  case refl
  then show ?case using assms by auto
next
  case (step t V t' V')
  from step.IH obtain F' where F': "inv t F'" "F' \<inter> V = {}" "finite V" "F' \<union> V = F \<union> U" "\<forall>p\<in>V. page p"
    by blast
  from use_inv [OF step.hyps(2) F'(1,2,3,5)] show ?case using F'(4) by simp
qed

lemma no_double_alloc:
  assumes "use\<^sup>*\<^sup>* (s, {}) (s', U)" and "inv s F" and "alloc s' = (p, s'')"
  shows "(p = 0 \<longleftrightarrow> U = F) \<and> (p \<noteq> 0 \<longrightarrow> p \<in> F - U)"
proof -
  obtain F' where F': "inv s' F'" "F' \<inter> U = {}" "F' \<union> U = F"
    using history [OF assms(1,2)] by auto
  have "0 \<notin> F'" using page_law [OF F'(1)] null_law by blast
  then show ?thesis using alloc_law [OF F'(1)] assms(3) F'(2,3) by auto
qed

lemma free_succeeds:
  assumes "use\<^sup>*\<^sup>* (s, {}) (s', U)" and "inv s F" and "p \<in> U"
  shows "\<exists>s''. free p s' = Ok s''"
proof -
  obtain F' where F': "inv s' F'" "F' \<inter> U = {}" "F' \<union> U = F" "\<forall>p\<in>U. page p"
    using history [OF assms(1,2)] by auto
  then show ?thesis using free_law [OF F'(1), of p] assms(3) by auto
qed

end

definition kmem_free :: "nat \<Rightarrow> kmem \<Rightarrow> nat set \<Rightarrow> bool" where
  "kmem_free kend K F \<longleftrightarrow> (\<exists>ps. kmem_inv kend K ps \<and> set ps = F)"

interpretation km: page_allocator "kmem_free kend" "page_ok kend" kalloc "kfree kend" for kend
proof
  fix s F
  assume "kmem_free kend s F"
  then obtain ps where ps: "kmem_inv kend s ps" "set ps = F" by (auto simp: kmem_free_def)
  show "F = {} \<and> kalloc s = (0, s)
      \<or> (\<exists>p s'. p \<in> F \<and> page_ok kend p \<and> kalloc s = (p, s') \<and> kmem_free kend s' (F - {p}))"
  proof (cases ps)
    case Nil
    then show ?thesis using ps kalloc_none by auto
  next
    case (Cons p qs)
    obtain K' where "kalloc s = (p, K')" "kmem_inv kend K' qs" using kalloc_ok ps(1) Cons by blast
    moreover have "set qs = F - {p}" using ps Cons by (auto simp: kmem_inv_def)
    ultimately show ?thesis using ps Cons by (auto simp: kmem_free_def kmem_inv_def)
  qed
next
  fix s F p
  assume "kmem_free kend s F" "page_ok kend p" "p \<notin> F"
  then show "\<exists>s'. kfree kend p s = Ok s' \<and> kmem_free kend s' (insert p F)"
    using kfree_ok [of kend s _ p] by (fastforce simp: kmem_free_def)
qed (auto simp: page_ok_def kmem_free_def kmem_inv_def)


section \<open>Properties\<close>

text \<open>
  The steps of the clients of the allocator: \<open>U\<close> are the pages they have and have not freed.
\<close>

inductive kmem_use :: "nat \<Rightarrow> kmem \<times> nat set \<Rightarrow> kmem \<times> nat set \<Rightarrow> bool" for kend where
  kmem_alloc: "kalloc K = (p, K') \<Longrightarrow> p \<noteq> 0 \<Longrightarrow> kmem_use kend (K, U) (K', insert p U)"
| kmem_fail: "kalloc K = (0, K') \<Longrightarrow> kmem_use kend (K, U) (K', U)"
| kmem_free: "p \<in> U \<Longrightarrow> kfree kend p K = Ok K' \<Longrightarrow> kmem_use kend (K, U) (K', U - {p})"

inductive_cases kmem_useE: "kmem_use kend (K, U) (K', U')"

lemma kmem_use_km: "kmem_use kend a b \<Longrightarrow> km.use kend a b"
  by (induction rule: kmem_use.induct) (auto intro: km.use.intros)

lemma kmem_history: "(kmem_use kend)\<^sup>*\<^sup>* a b \<Longrightarrow> (km.use kend)\<^sup>*\<^sup>* a b"
  using mono_rtranclp [of "kmem_use kend" "km.use kend"] kmem_use_km by blast

lemma PGROUNDUP_aligned: "PGROUNDUP a mod PGSIZE = 0"
  by (simp add: PGROUNDUP_def PGSIZE_def)

lemma kinit1_ok:
  assumes "freelist K = 0" and "kend \<le> PGROUNDUP vstart" "KERNBASE \<le> PGROUNDUP vstart" "vend \<le> KERNBASE + PHYSTOP"
  shows "\<exists>K'. kinit1 kend vstart vend K = Ok K' \<and> kmem_inv kend K' (rev (pages (PGROUNDUP vstart) vend))"
proof -
  have "kmem_inv kend (K\<lparr>use_lock := False\<rparr>) []" using assms(1) by (simp add: kmem_inv_def)
  from freerange_loop_ok [OF this PGROUNDUP_aligned assms(2,3,4)] show ?thesis
    by (auto simp: kinit1_def freerange_def)
qed

text \<open>
  C22: After \<^verbatim>\<open>kinit1\<close> on a range of memory, for every history of calls to \<^verbatim>\<open>kalloc\<close> and \<^verbatim>\<open>kfree\<close> in which only allocated
  pages are freed: \<^verbatim>\<open>kalloc\<close> returns a whole page of the range that nobody has, and null only when every page of the
  range is in use; and \<^verbatim>\<open>kfree\<close> accepts every page in use.
\<close>

theorem kalloc_exclusive:
  assumes "freelist K = 0" and "kend \<le> PGROUNDUP vstart" "KERNBASE \<le> PGROUNDUP vstart" "vend \<le> KERNBASE + PHYSTOP"
  shows "\<exists>K0. kinit1 kend vstart vend K = Ok K0 \<and>
    (\<forall>K1 U. (kmem_use kend)\<^sup>*\<^sup>* (K0, {}) (K1, U) \<longrightarrow>
       (fst (kalloc K1) = 0 \<longleftrightarrow> U = set (pages (PGROUNDUP vstart) vend))
       \<and> (fst (kalloc K1) \<noteq> 0 \<longrightarrow> fst (kalloc K1) \<in> set (pages (PGROUNDUP vstart) vend) - U)
       \<and> (\<forall>p\<in>U. \<exists>K2. kfree kend p K1 = Ok K2))"
proof -
  obtain K0 where K0: "kinit1 kend vstart vend K = Ok K0" "kmem_inv kend K0 (rev (pages (PGROUNDUP vstart) vend))"
    using kinit1_ok [OF assms] by blast
  then have f: "kmem_free kend K0 (set (pages (PGROUNDUP vstart) vend))" by (auto simp: kmem_free_def)
  show ?thesis
  proof (intro exI [of _ K0] conjI allI impI K0(1))
    fix K1 U
    assume "(kmem_use kend)\<^sup>*\<^sup>* (K0, {}) (K1, U)"
    note h = kmem_history [OF this]
    obtain p K2 where "kalloc K1 = (p, K2)" by (cases "kalloc K1")
    note k = km.no_double_alloc [OF h f this]
    show "fst (kalloc K1) = 0 \<longleftrightarrow> U = set (pages (PGROUNDUP vstart) vend)"
      "fst (kalloc K1) \<noteq> 0 \<Longrightarrow> fst (kalloc K1) \<in> set (pages (PGROUNDUP vstart) vend) - U"
      using k \<open>kalloc K1 = (p, K2)\<close> by auto
    show "\<forall>p\<in>U. \<exists>K2. kfree kend p K1 = Ok K2" using km.free_succeeds [OF h f] by blast
  qed
qed

theorem kalloc_exclusive_witness:
  "\<exists>K0 p K1. kinit1 (KERNBASE + 0x100000) (KERNBASE + 0x100010) (KERNBASE + 0x103000)
       \<lparr>use_lock = False, freelist = 0, pmem = \<lambda>_. 0\<rparr> = Ok K0
     \<and> kalloc K0 = (p, K1) \<and> p \<in> {KERNBASE + 0x101000, KERNBASE + 0x102000}
     \<and> fst (kalloc K1) \<in> {KERNBASE + 0x101000, KERNBASE + 0x102000} - {p}
     \<and> (\<exists>K2. kfree (KERNBASE + 0x100000) p K1 = Ok K2)"
proof -
  let ?K = "\<lparr>use_lock = False, freelist = 0, pmem = \<lambda>_. 0\<rparr>" and ?e = "KERNBASE + 0x100000"
  have r: "PGROUNDUP (KERNBASE + 0x100010) = KERNBASE + 0x101000"
    by (simp add: PGROUNDUP_def KERNBASE_def PGSIZE_def)
  then have pg: "set (pages (PGROUNDUP (KERNBASE + 0x100010)) (KERNBASE + 0x103000)) = {KERNBASE + 0x101000, KERNBASE + 0x102000}"
    by (auto simp: pages_def PGSIZE_def upt_rec)
  obtain K0 where K0: "kinit1 ?e (KERNBASE + 0x100010) (KERNBASE + 0x103000) ?K = Ok K0"
      "\<forall>K1 U. (kmem_use ?e)\<^sup>*\<^sup>* (K0, {}) (K1, U) \<longrightarrow>
       (fst (kalloc K1) = 0 \<longleftrightarrow> U = {KERNBASE + 0x101000, KERNBASE + 0x102000})
       \<and> (fst (kalloc K1) \<noteq> 0 \<longrightarrow> fst (kalloc K1) \<in> {KERNBASE + 0x101000, KERNBASE + 0x102000} - U)
       \<and> (\<forall>p\<in>U. \<exists>K2. kfree ?e p K1 = Ok K2)"
    using kalloc_exclusive [of ?K ?e "KERNBASE + 0x100010" "KERNBASE + 0x103000", unfolded pg] r
    by (auto simp: PHYSTOP_def)
  obtain p K1 where p: "kalloc K0 = (p, K1)" by (cases "kalloc K0")
  have pr: "p \<noteq> 0" "p \<in> {KERNBASE + 0x101000, KERNBASE + 0x102000}"
    using K0(2) [rule_format, of K0 "{}"] p by auto
  then have "(kmem_use ?e)\<^sup>*\<^sup>* (K0, {}) (K1, {p})"
    using kmem_use.kmem_alloc [OF p, of ?e "{}"] by auto
  note k = K0(2) [rule_format, OF this]
  moreover have "{p} \<noteq> {KERNBASE + 0x101000, KERNBASE + 0x102000}" by auto
  ultimately have "fst (kalloc K1) \<in> {KERNBASE + 0x101000, KERNBASE + 0x102000} - {p}" by blast
  then show ?thesis using K0(1) p pr k by blast
qed

end
