(* ===== verification/Vm.thy ===== *)
theory Vm
  imports Kalloc
begin

text \<open>
  Virtual memory of the 64-bit kernel: \<^verbatim>\<open>kernel/vm64.c\<close> and the parts of \<^verbatim>\<open>kernel/vm.c\<close> that are compiled with it.
  Page tables are 64-bit words in the pages the allocator hands out.  A dereferenced null pointer is \<^const>\<open>Undef\<close>.
  \<^verbatim>\<open>loaduvm\<close>, which reads a file, is in the theory of \<^verbatim>\<open>exec\<close>.
\<close>

section \<open>Page table entries\<close>

definition PDX :: "nat \<Rightarrow> nat" where "PDX va = (va div 2 ^ 21) mod 512"
definition PTX :: "nat \<Rightarrow> nat" where "PTX va = (va div 2 ^ 12) mod 512"

definition NPDENTRIES :: nat where "NPDENTRIES = 512"
definition NPTENTRIES :: nat where "NPTENTRIES = 512"

definition PTE_P :: nat where "PTE_P = 0x001"
definition PTE_W :: nat where "PTE_W = 0x002"
definition PTE_U :: nat where "PTE_U = 0x004"
definition PTE_PWT :: nat where "PTE_PWT = 0x008"
definition PTE_PCD :: nat where "PTE_PCD = 0x010"
definition PTE_PS :: nat where "PTE_PS = 0x080"

definition PTE_ADDR :: "nat \<Rightarrow> nat" where "PTE_ADDR pte = push_bit 12 (drop_bit 12 pte)"
definition PTE_FLAGS :: "nat \<Rightarrow> nat" where "PTE_FLAGS pte = take_bit 12 pte"

definition DEVSPACE :: nat where "DEVSPACE = 0xFE000000"
definition DEVBASE :: nat where "DEVBASE = 0xFFFFFFFF40000000"

text \<open>Entry \<open>i\<close> of the table at \<open>p\<close>.\<close>

definition ent :: "nat \<Rightarrow> nat \<Rightarrow> kmem \<Rightarrow> nat" where
  "ent p i K = rd64 (pmem K) (p + 8 * i)"

definition set_word :: "nat \<Rightarrow> nat \<Rightarrow> kmem \<Rightarrow> kmem" where
  "set_word a v K = K\<lparr>pmem := wr64 a v (pmem K)\<rparr>"

definition set_ent :: "nat \<Rightarrow> nat \<Rightarrow> nat \<Rightarrow> kmem \<Rightarrow> kmem" where
  "set_ent p i v K = set_word (p + 8 * i) v K"

definition fill :: "nat \<Rightarrow> nat \<Rightarrow> kmem \<Rightarrow> kmem" where
  "fill p c K = K\<lparr>pmem := memset p c PGSIZE (pmem K)\<rparr>"

section \<open>Kernel page tables\<close>

record kvm =
  k_pml4 :: nat
  k_pdpt :: nat
  k_iopgdir :: nat
  k_pgdir0 :: nat
  k_pgdir1 :: nat

definition setupkvm :: "nat \<Rightarrow> kmem \<Rightarrow> (nat \<times> kmem) res" where
  "setupkvm kpdpt K =
     (let (pml4, K) = kalloc K; (pdpt, K) = kalloc K; (pgdir, K) = kalloc K
      in if pml4 = 0 \<or> pdpt = 0 \<or> pgdir = 0 then Undef
         else
           let K = fill pgdir 0 (fill pdpt 0 (fill pml4 0 K));
               K = set_ent pml4 511 (v2p kpdpt OR PTE_P OR PTE_W OR PTE_U) K;
               K = set_ent pml4 0 (v2p pdpt OR PTE_P OR PTE_W OR PTE_U) K;
               K = set_ent pdpt 0 (v2p pgdir OR PTE_P OR PTE_W OR PTE_U) K;
               K = set_ent pgdir 511 (pml4 OR PTE_P) K;
               K = set_ent pgdir 510 (pdpt OR PTE_P) K
           in Ok (pgdir, K))"

definition kvmalloc_big :: "nat \<Rightarrow> nat \<Rightarrow> nat \<Rightarrow> kmem \<Rightarrow> kmem" where
  "kvmalloc_big kpgdir0 kpgdir1 n K =
     set_ent kpgdir1 n ((n + 512) * 2 ^ 21 OR PTE_PS OR PTE_P OR PTE_W)
       (set_ent kpgdir0 n (n * 2 ^ 21 OR PTE_PS OR PTE_P OR PTE_W) K)"

definition kvmalloc_io :: "nat \<Rightarrow> nat \<Rightarrow> kmem \<Rightarrow> kmem" where
  "kvmalloc_io iopgdir n K =
     set_ent iopgdir n ((DEVSPACE + n * 2 ^ 21) OR PTE_PS OR PTE_P OR PTE_W OR PTE_PWT OR PTE_PCD) K"

text \<open>The second component is the value of the page table register that \<^verbatim>\<open>switchkvm\<close> sets at the end.\<close>

definition switchkvm :: "kvm \<Rightarrow> nat" where
  "switchkvm v = v2p (k_pml4 v)"

definition kvmalloc :: "kmem \<Rightarrow> (kvm \<times> nat \<times> kmem) res" where
  "kvmalloc K =
     (let (kpml4, K) = kalloc K; (kpdpt, K) = kalloc K; (kpgdir0, K) = kalloc K; (kpgdir1, K) = kalloc K;
          (iopgdir, K) = kalloc K
      in if kpml4 = 0 \<or> kpdpt = 0 \<or> kpgdir0 = 0 \<or> kpgdir1 = 0 \<or> iopgdir = 0 then Undef
         else
           let K = fill iopgdir 0 (fill kpdpt 0 (fill kpml4 0 K));
               K = set_ent kpml4 511 (v2p kpdpt OR PTE_P OR PTE_W) K;
               K = set_ent kpdpt 511 (v2p kpgdir1 OR PTE_P OR PTE_W) K;
               K = set_ent kpdpt 510 (v2p kpgdir0 OR PTE_P OR PTE_W) K;
               K = set_ent kpdpt 509 (v2p iopgdir OR PTE_P OR PTE_W) K;
               K = fold (kvmalloc_big kpgdir0 kpgdir1) [0..<NPDENTRIES] K;
               K = fold (kvmalloc_io iopgdir) [0..<16] K;
               v = \<lparr>k_pml4 = kpml4, k_pdpt = kpdpt, k_iopgdir = iopgdir, k_pgdir0 = kpgdir0, k_pgdir1 = kpgdir1\<rparr>
           in Ok (v, switchkvm v, K))"

text \<open>
  \<^verbatim>\<open>switchuvm\<close>: the stack pointer of the task state segment (at offset 1024 of the processor's local page) and
  the value for the page table register.
\<close>

definition wr32 :: "nat \<Rightarrow> nat \<Rightarrow> mem \<Rightarrow> mem" where
  "wr32 a v m = (\<lambda>x. if a \<le> x \<and> x < a + 4 then word_of_nat (v div 256 ^ (x - a)) else m x)"

definition tss_set_rsp :: "nat \<Rightarrow> nat \<Rightarrow> nat \<Rightarrow> mem \<Rightarrow> mem" where
  "tss_set_rsp tss n rsp m = wr32 (tss + 4 * (n * 2 + 2)) (rsp div 2 ^ 32) (wr32 (tss + 4 * (n * 2 + 1)) rsp m)"

definition switchuvm :: "nat \<Rightarrow> nat \<Rightarrow> nat \<Rightarrow> kmem \<Rightarrow> (nat \<times> kmem) res" where
  "switchuvm local pgdir kstack K =
     (if pgdir = 0 then Panic ''switchuvm: no pgdir''
      else
        let K = K\<lparr>pmem := tss_set_rsp (local + 1024) 0 (kstack + 4096) (pmem K)\<rparr>;
            pml4 = PTE_ADDR (ent pgdir 511 K)
        in Ok (v2p pml4, K))"

text \<open>An entry of the interrupt table: four 32-bit words.\<close>

definition mkgate :: "nat \<Rightarrow> nat \<Rightarrow> bool \<Rightarrow> nat list" where
  "mkgate addr pl trap =
     [(addr AND 0xFFFF) OR (8 * 2 ^ 16), (addr AND 0xFFFF0000) OR (if trap then 0x8F00 else 0x8E00) OR ((pl AND 3) * 2 ^ 13),
      (addr div 2 ^ 32) mod 2 ^ 32, 0]"

section \<open>User page tables\<close>

definition walkpgdir :: "nat \<Rightarrow> nat \<Rightarrow> bool \<Rightarrow> kmem \<Rightarrow> nat \<times> kmem" where
  "walkpgdir pgdir va alloc K =
     (let pde = ent pgdir (PDX va) K
      in if pde AND PTE_P \<noteq> 0 then (p2v (PTE_ADDR pde) + 8 * PTX va, K)
         else if \<not> alloc then (0, K)
         else
           let (pgtab, K) = kalloc K
           in if pgtab = 0 then (0, K)
              else
                let K = fill pgtab 0 K;
                    K = set_ent pgdir (PDX va) (v2p pgtab OR PTE_P OR PTE_W OR PTE_U) K
                in (pgtab + 8 * PTX va, K))"

text \<open>\<open>n\<close> bounds the number of iterations; the number of pages from \<^verbatim>\<open>a\<close> to \<^verbatim>\<open>last\<close> is enough.\<close>

fun mappages_loop :: "nat \<Rightarrow> nat \<Rightarrow> nat \<Rightarrow> nat \<Rightarrow> nat \<Rightarrow> nat \<Rightarrow> kmem \<Rightarrow> (int \<times> kmem) res" where
  "mappages_loop 0 pgdir a lastp pa perm K = Undef"
| "mappages_loop (Suc n) pgdir a lastp pa perm K =
     (let (pte, K) = walkpgdir pgdir a True K
      in if pte = 0 then Ok (-1, K)
         else if rd64 (pmem K) pte AND PTE_P \<noteq> 0 then Panic ''remap''
         else
           let K = set_word pte (pa OR perm OR PTE_P) K
           in if a = lastp then Ok (0, K)
              else mappages_loop n pgdir ((a + PGSIZE) mod 2 ^ 64) lastp ((pa + PGSIZE) mod 2 ^ 64) perm K)"

definition mappages :: "nat \<Rightarrow> nat \<Rightarrow> nat \<Rightarrow> nat \<Rightarrow> nat \<Rightarrow> kmem \<Rightarrow> (int \<times> kmem) res" where
  "mappages pgdir va sz pa perm K =
     (let a = PGROUNDDOWN va; lastp = PGROUNDDOWN ((va + sz + 2 ^ 64 - 1) mod 2 ^ 64)
      in mappages_loop ((lastp + 2 ^ 64 - a) mod 2 ^ 64 div PGSIZE + 1) pgdir a lastp pa perm K)"

definition inituvm :: "nat \<Rightarrow> byte list \<Rightarrow> kmem \<Rightarrow> kmem res" where
  "inituvm pgdir init K =
     (if length init \<ge> PGSIZE then Panic ''inituvm: more than a page''
      else
        let (m, K) = kalloc K
        in if m = 0 then Undef
           else rbind (mappages pgdir 0 PGSIZE (v2p m) (PTE_W OR PTE_U) (fill m 0 K)) (\<lambda>(_, K).
                Ok (K\<lparr>pmem := \<lambda>x. if m \<le> x \<and> x < m + length init then init ! (x - m) else pmem K x\<rparr>)))"

text \<open>\<^verbatim>\<open>deallocuvm\<close>; the result is an \<^verbatim>\<open>int\<close>, so that only the low 32 bits of the size are returned.\<close>

function deallocuvm_loop :: "nat \<Rightarrow> nat \<Rightarrow> nat \<Rightarrow> nat \<Rightarrow> kmem \<Rightarrow> kmem res" where
  "deallocuvm_loop kend pgdir a oldsz K =
     (if a < oldsz then
        let (pte, K) = walkpgdir pgdir a False K
        in if pte = 0 then deallocuvm_loop kend pgdir (a + (NPTENTRIES - 1) * PGSIZE + PGSIZE) oldsz K
           else if rd64 (pmem K) pte AND PTE_P \<noteq> 0 then
             let pa = PTE_ADDR (rd64 (pmem K) pte)
             in if pa = 0 then Panic ''kfree''
                else rbind (kfree kend (p2v pa) K) (\<lambda>K. deallocuvm_loop kend pgdir (a + PGSIZE) oldsz (set_word pte 0 K))
           else deallocuvm_loop kend pgdir (a + PGSIZE) oldsz K
      else Ok K)"
  by pat_completeness auto
termination
  by (relation "measure (\<lambda>(e, d, a, oldsz, K). oldsz - a)") (auto simp: PGSIZE_def NPTENTRIES_def)

declare deallocuvm_loop.simps [simp del]

definition deallocuvm :: "nat \<Rightarrow> nat \<Rightarrow> nat \<Rightarrow> nat \<Rightarrow> kmem \<Rightarrow> (nat \<times> kmem) res" where
  "deallocuvm kend pgdir oldsz newsz K =
     (if newsz \<ge> oldsz then Ok (u32 oldsz, K)
      else rbind (deallocuvm_loop kend pgdir (PGROUNDUP newsz) oldsz K) (\<lambda>K. Ok (u32 newsz, K)))"

function allocuvm_loop :: "nat \<Rightarrow> nat \<Rightarrow> nat \<Rightarrow> nat \<Rightarrow> nat \<Rightarrow> kmem \<Rightarrow> (nat \<times> kmem) res" where
  "allocuvm_loop kend pgdir a oldsz newsz K =
     (if a < newsz then
        let (m, K) = kalloc K
        in if m = 0 then rbind (deallocuvm kend pgdir newsz oldsz K) (\<lambda>(_, K). Ok (0, K))
           else rbind (mappages pgdir a PGSIZE (v2p m) (PTE_W OR PTE_U) (fill m 0 K)) (\<lambda>(_, K).
                allocuvm_loop kend pgdir (a + PGSIZE) oldsz newsz K)
      else Ok (newsz, K))"
  by pat_completeness auto
termination
  by (relation "measure (\<lambda>(e, d, a, oldsz, newsz, K). newsz - a)") (auto simp: PGSIZE_def)

declare allocuvm_loop.simps [simp del]

text \<open>
  The C function returns an \<^verbatim>\<open>int\<close>.  The models of \<^verbatim>\<open>allocuvm\<close> and \<^verbatim>\<open>deallocuvm\<close> return the number itself; their callers convert it to what they
  keep it in, a \<^verbatim>\<open>uint\<close> in \<^verbatim>\<open>growproc\<close>, a sign-extended \<^verbatim>\<open>uintp\<close> in \<^verbatim>\<open>exec\<close>.
\<close>

definition allocuvm :: "nat \<Rightarrow> nat \<Rightarrow> nat \<Rightarrow> nat \<Rightarrow> kmem \<Rightarrow> (nat \<times> kmem) res" where
  "allocuvm kend pgdir oldsz newsz K =
     (if newsz < oldsz then Ok (oldsz, K) else allocuvm_loop kend pgdir (PGROUNDUP oldsz) oldsz newsz K)"

definition freevm_table :: "nat \<Rightarrow> nat \<Rightarrow> nat \<Rightarrow> kmem \<Rightarrow> kmem res" where
  "freevm_table kend pgdir i K =
     (if ent pgdir i K AND PTE_P \<noteq> 0 then kfree kend (p2v (PTE_ADDR (ent pgdir i K))) K else Ok K)"

definition freevm :: "nat \<Rightarrow> nat \<Rightarrow> kmem \<Rightarrow> kmem res" where
  "freevm kend pgdir K =
     (if pgdir = 0 then Panic ''freevm: no pgdir''
      else rbind (deallocuvm kend pgdir 0x3fa00000 0 K) (\<lambda>(_, K).
           rbind (for_each (freevm_table kend pgdir) [0..<NPDENTRIES - 2] K) (kfree kend pgdir)))"

definition clearpteu :: "nat \<Rightarrow> nat \<Rightarrow> kmem \<Rightarrow> kmem res" where
  "clearpteu pgdir uva K =
     (let (pte, K) = walkpgdir pgdir uva False K
      in if pte = 0 then Panic ''clearpteu''
         else let v = rd64 (pmem K) pte in Ok (set_word pte (v - (v AND PTE_U)) K))"

text \<open>\<^verbatim>\<open>copyuvm\<close>; the loop ends with \<^const>\<open>None\<close> where the code jumps to \<^verbatim>\<open>bad\<close>.\<close>

function copyuvm_loop :: "nat \<Rightarrow> nat \<Rightarrow> nat \<Rightarrow> nat \<Rightarrow> kmem \<Rightarrow> (bool \<times> kmem) res" where
  "copyuvm_loop pgdir d i sz K =
     (if i < sz then
        let (pte, K) = walkpgdir pgdir i False K
        in if pte = 0 then Panic ''copyuvm: pte should exist''
           else if rd64 (pmem K) pte AND PTE_P = 0 then Panic ''copyuvm: page not present''
           else
             let pa = PTE_ADDR (rd64 (pmem K) pte); flags = PTE_FLAGS (rd64 (pmem K) pte); (m, K) = kalloc K
             in if m = 0 then Ok (False, K)
                else rbind (mappages d i PGSIZE (v2p m) flags (K\<lparr>pmem := memmove m (p2v pa) PGSIZE (pmem K)\<rparr>)) (\<lambda>(r, K).
                     if r < 0 then Ok (False, K) else copyuvm_loop pgdir d (i + PGSIZE) sz K)
      else Ok (True, K))"
  by pat_completeness auto
termination
  by (relation "measure (\<lambda>(p, d, i, sz, K). sz - i)") (auto simp: PGSIZE_def)

declare copyuvm_loop.simps [simp del]

definition copyuvm :: "nat \<Rightarrow> nat \<Rightarrow> nat \<Rightarrow> nat \<Rightarrow> kmem \<Rightarrow> (nat \<times> kmem) res" where
  "copyuvm kend kpdpt pgdir sz K =
     rbind (setupkvm kpdpt K) (\<lambda>(d, K).
     if d = 0 then Ok (0, K)
     else rbind (copyuvm_loop pgdir d 0 sz K) (\<lambda>(good, K).
          if good then Ok (d, K) else rbind (freevm kend d K) (\<lambda>K. Ok (0, K))))"

definition uva2ka :: "nat \<Rightarrow> nat \<Rightarrow> kmem \<Rightarrow> nat res" where
  "uva2ka pgdir uva K =
     (let (pte, K) = walkpgdir pgdir uva False K
      in if pte = 0 then Undef
         else
           let v = rd64 (pmem K) pte
           in if v AND PTE_P = 0 then Ok 0
              else if v AND PTE_U = 0 then Ok 0
              else Ok (p2v (PTE_ADDR v)))"

text \<open>\<^verbatim>\<open>va\<close> is an \<^verbatim>\<open>uint\<close>, so that \<^verbatim>\<open>va - va0\<close> is its offset in the page.\<close>

function copyout :: "nat \<Rightarrow> nat \<Rightarrow> byte list \<Rightarrow> kmem \<Rightarrow> (int \<times> kmem) res" where
  "copyout pgdir va buf K =
     (if buf = [] then Ok (0, K)
      else
        let va0 = u32 (PGROUNDDOWN va); off = va mod PGSIZE
        in rbind (uva2ka pgdir va0 K) (\<lambda>pa0.
           if pa0 = 0 then Ok (-1, K)
           else
             let n = min (PGSIZE - off) (length buf); a = pa0 + off;
                 K = K\<lparr>pmem := \<lambda>x. if a \<le> x \<and> x < a + n then buf ! (x - a) else pmem K x\<rparr>
             in copyout pgdir (u32 (va0 + PGSIZE)) (drop n buf) K))"
  by pat_completeness auto
termination
  by (relation "measure (\<lambda>(d, va, buf, K). length buf)") (auto simp: PGSIZE_def)

declare copyout.simps [simp del]


section \<open>Entries\<close>

lemma and_1_iff: "(x :: nat) AND PTE_P \<noteq> 0 \<longleftrightarrow> odd x"
  by (simp add: PTE_P_def and_one_eq mod_2_eq_odd)

lemma or_aligned:
  fixes x f :: nat
  assumes "x mod 2 ^ k = 0" and "f < 2 ^ k"
  shows "x OR f = x + f"
proof -
  have x: "push_bit k (x div 2 ^ k) = x" and f: "take_bit k f = f"
    using assms by (auto simp: push_bit_eq_mult take_bit_eq_mod)
  have "\<not> bit x n \<or> \<not> bit f n" for n
    using bit_push_bit_iff_nat [of k "x div 2 ^ k" n] bit_take_bit_iff [of k f n] unfolding x f by auto
  from disjunctive_add [of x f, OF this] show ?thesis by simp
qed

text \<open>The entry for a page with given flags, and what is read back from it.\<close>

lemma pte_or:
  assumes "x mod 4096 = 0"
  shows "x OR PTE_P OR PTE_W OR PTE_U = x + 7" "x OR PTE_P OR PTE_W = x + 3" "x OR PTE_P = x + 1"
    "x OR (PTE_W OR PTE_U) OR PTE_P = x + 7"
proof -
  have *: "x OR f = x + f" if "f < 4096" for f using or_aligned [of x 12 f] assms that by simp
  show "x OR PTE_P OR PTE_W OR PTE_U = x + 7" using * [of 7] by (simp add: PTE_P_def PTE_W_def PTE_U_def or.assoc)
  show "x OR (PTE_W OR PTE_U) OR PTE_P = x + 7" using * [of 7] by (simp add: PTE_P_def PTE_W_def PTE_U_def or.assoc)
  show "x OR PTE_P OR PTE_W = x + 3" using * [of 3] by (simp add: PTE_P_def PTE_W_def or.assoc)
  show "x OR PTE_P = x + 1" using * [of 1] by (simp add: PTE_P_def)
qed

lemma pte_addr: "x mod 4096 = 0 \<Longrightarrow> f < 4096 \<Longrightarrow> PTE_ADDR (x + f) = x"
  by (auto simp: PTE_ADDR_def)

lemma pte_present: "x mod 4096 = 0 \<Longrightarrow> odd (x + f) \<longleftrightarrow> odd f"
  by (metis dvd_imp_mod_0 even_numeral even_plus_one_iff mod_0_imp_dvd mod_mod_cancel odd_add dvd_trans)

lemma page_phys:
  assumes "page_ok kend v" and "KERNBASE \<le> kend"
  shows "v2p v = v - KERNBASE" "v2p v mod 4096 = 0" "v2p v < PHYSTOP" "p2v (v2p v) = v" "KERNBASE \<le> v"
proof -
  have v: "KERNBASE \<le> v" "v < 2 ^ 64" "v mod 4096 = 0" "v2p v < PHYSTOP" using assms by (auto simp: page_ok_def PGSIZE_def)
  show p: "v2p v = v - KERNBASE" "KERNBASE \<le> v" "v2p v < PHYSTOP" using v2p_above [OF v(1,2)] v by auto
  show "p2v (v2p v) = v" using v p(1) by (simp add: p2v_def)
  have "KERNBASE mod 4096 = 0" by (simp add: KERNBASE_def)
  then show "v2p v mod 4096 = 0" using v p(1) by (metis dvd_diff_nat mod_0_imp_dvd mod_eq_0_iff_dvd)
qed

lemma ent_set_ent:
  assumes "p mod 4096 = 0" "q mod 4096 = 0" "i < 512" "j < 512" "v < 2 ^ 64"
  shows "ent q j (set_ent p i v K) = (if q = p \<and> j = i then v else ent q j K)"
proof (cases "q = p \<and> j = i")
  case True
  then show ?thesis using assms(5) by (simp add: ent_def set_ent_def set_word_def)
next
  case False
  have "q + 8 * j + 8 \<le> p + 8 * i \<or> p + 8 * i + 8 \<le> q + 8 * j"
    using False page_apart [of p q] assms(1-4) by (cases "q = p") (auto simp: PGSIZE_def)
  then show ?thesis using False rd64_wr64_other by (auto simp: ent_def set_ent_def set_word_def)
qed

lemma ent_fill:
  assumes "p mod 4096 = 0" "q mod 4096 = 0" "j < 512"
  shows "ent q j (fill p 0 K) = (if q = p then 0 else ent q j K)"
proof (cases "q = p")
  case True
  have "rd64 (memset p 0 PGSIZE (pmem K)) (p + 8 * j) = (\<Sum>i<8 :: nat. 0)"
    unfolding rd64_def using assms(3) by (intro sum.cong) (auto simp: memset_eq stosb_eq PGSIZE_def)
  then show ?thesis using True by (simp add: ent_def fill_def)
next
  case False
  then have "p + 4096 \<le> q \<or> q + 4096 \<le> p" using page_apart [of p q] assms(1,2) by (auto simp: PGSIZE_def)
  then have "rd64 (memset p 0 PGSIZE (pmem K)) (q + 8 * j) = rd64 (pmem K) (q + 8 * j)"
    using assms(3) by (intro rd64_cong) (auto simp: memset_eq stosb_eq PGSIZE_def)
  then show ?thesis using False by (simp add: ent_def fill_def)
qed

section \<open>The hardware's view\<close>

text \<open>Four-level translation by the processor, with 2 MB pages at the second level.\<close>

definition hw_walk :: "kmem \<Rightarrow> nat \<Rightarrow> nat \<Rightarrow> nat option" where
  "hw_walk K cr3 va =
     (let e4 = ent (p2v cr3) (va div 2 ^ 39 mod 512) K
      in if even e4 then None
         else
           let e3 = ent (p2v (PTE_ADDR e4)) (va div 2 ^ 30 mod 512) K
           in if even e3 then None
              else
                let e2 = ent (p2v (PTE_ADDR e3)) (va div 2 ^ 21 mod 512) K
                in if even e2 then None
                   else if e2 AND PTE_PS \<noteq> 0 then Some (e2 div 2 ^ 21 * 2 ^ 21 + va mod 2 ^ 21)
                   else
                     let e1 = ent (p2v (PTE_ADDR e2)) (va div 2 ^ 12 mod 512) K
                     in if even e1 then None else Some (PTE_ADDR e1 + va mod 2 ^ 12))"


text \<open>An entry for a 2 MB page.\<close>

lemma big_entry:
  assumes "f < 4096" and "bit f 7" "odd f"
  shows "n * 2 ^ 21 OR f = n * 2 ^ 21 + f" "odd (n * 2 ^ 21 + f)" "(n * 2 ^ 21 + f) AND PTE_PS \<noteq> 0"
    "(n * 2 ^ 21 + f) div 2 ^ 21 = n"
proof -
  show o: "n * 2 ^ 21 OR f = n * 2 ^ 21 + f" using assms(1) by (intro or_aligned [of _ 21]) auto
  show "odd (n * 2 ^ 21 + f)" using assms(3) by simp
  have "bit (n * 2 ^ 21 OR f) 7" using assms(2) by (simp add: bit_or_iff)
  then show "(n * 2 ^ 21 + f) AND PTE_PS \<noteq> 0"
    using and_exp_eq_0_iff_not_bit [of "n * 2 ^ 21 + f" 7] unfolding o PTE_PS_def by simp
  show "(n * 2 ^ 21 + f) div 2 ^ 21 = n" using assms(1) by simp
qed

lemma flags_0x83: "x OR PTE_PS OR PTE_P OR PTE_W = x OR 0x83" "x OR PTE_PS OR PTE_P OR PTE_W OR PTE_PWT OR PTE_PCD = x OR 0x9b"
  by (simp_all add: PTE_PS_def PTE_P_def PTE_W_def PTE_PWT_def PTE_PCD_def or.assoc)

lemma bit_flags: "bit (0x83 :: nat) 7" "bit (0x9b :: nat) 7"
  by (simp_all add: bit_iff_odd)

lemma fold_big:
  assumes "p mod 4096 = 0" "p' mod 4096 = 0" "q mod 4096 = 0" "p \<noteq> p'" "j < 512" "m \<le> 512"
  shows "ent q j (fold (kvmalloc_big p p') [0..<m] K)
    = (if q = p' \<and> j < m then (j + 512) * 2 ^ 21 + 0x83 else if q = p \<and> j < m then j * 2 ^ 21 + 0x83 else ent q j K)"
  using assms(6)
proof (induction m)
  case (Suc m)
  have v: "k * 2 ^ 21 OR PTE_PS OR PTE_P OR PTE_W = k * 2 ^ 21 + 0x83" for k
    unfolding flags_0x83 using big_entry(1) [OF _ bit_flags(1)] by simp
  have m: "m < 512" "m * 2 ^ 21 + 0x83 < 2 ^ 64" "(m + 512) * 2 ^ 21 + 0x83 < 2 ^ 64" using Suc.prems by auto
  have "ent q j (fold (kvmalloc_big p p') [0..<Suc m] K)
      = (if q = p' \<and> j = m then (m + 512) * 2 ^ 21 + 0x83 else if q = p \<and> j = m then m * 2 ^ 21 + 0x83
         else ent q j (fold (kvmalloc_big p p') [0..<m] K))"
    using ent_set_ent assms(1-3,5) m by (simp only: upt_Suc_append fold_append fold_simps o_apply id_apply kvmalloc_big_def v)
  then show ?case using Suc assms(4) by auto
qed simp

lemma fold_io:
  assumes "p mod 4096 = 0" "q mod 4096 = 0" "j < 512" "m \<le> 16"
  shows "ent q j (fold (kvmalloc_io p) [0..<m] K) = (if q = p \<and> j < m then (2032 + j) * 2 ^ 21 + 0x9b else ent q j K)"
  using assms(4)
proof (induction m)
  case (Suc m)
  have d: "DEVSPACE + k * 2 ^ 21 = (2032 + k) * 2 ^ 21" for k by (simp add: DEVSPACE_def)
  have v: "(DEVSPACE + k * 2 ^ 21) OR PTE_PS OR PTE_P OR PTE_W OR PTE_PWT OR PTE_PCD = (2032 + k) * 2 ^ 21 + 0x9b" for k
    unfolding flags_0x83 d by (rule big_entry(1) [OF _ bit_flags(2)]) simp_all
  have m: "m < 512" "(2032 + m) * 2 ^ 21 + 0x9b < 2 ^ 64" using Suc.prems by auto
  have "ent q j (fold (kvmalloc_io p) [0..<Suc m] K)
      = (if q = p \<and> j = m then (2032 + m) * 2 ^ 21 + 0x9b else ent q j (fold (kvmalloc_io p) [0..<m] K))"
    using ent_set_ent assms(1-3) m by (simp only: upt_Suc_append fold_append fold_simps o_apply id_apply kvmalloc_io_def v)
  then show ?case using Suc by auto
qed simp

text \<open>A walk that ends in a 2 MB page.\<close>

lemma hw_walk_big:
  assumes "ent (p2v cr3) (va div 2 ^ 39 mod 512) K = v2p t3 + g" "v2p t3 mod 4096 = 0" "p2v (v2p t3) = t3"
    and "ent t3 (va div 2 ^ 30 mod 512) K = v2p t2 + 3" "v2p t2 mod 4096 = 0" "p2v (v2p t2) = t2"
    and "ent t2 (va div 2 ^ 21 mod 512) K = n * 2 ^ 21 + f" "f < 4096" "bit f 7" "odd f" "g < 4096" "odd g"
  shows "hw_walk K cr3 va = Some (n * 2 ^ 21 + va mod 2 ^ 21)"
proof -
  have o: "odd (v2p t3 + g)" "odd (v2p t2 + 3)" and p: "PTE_ADDR (v2p t3 + g) = v2p t3" "PTE_ADDR (v2p t2 + 3) = v2p t2"
    using pte_present [OF assms(2), of g] pte_present [OF assms(5), of 3] pte_addr [OF assms(2), of g]
      pte_addr [OF assms(5), of 3] assms(11,12) by simp_all
  note b = big_entry(2-4) [OF assms(8-10), of n]
  show ?thesis
    by (simp only: hw_walk_def Let_def assms(1,3,4,6,7) o p b if_False if_True not_False_eq_True)
qed


text \<open>Taking pages off the free list.\<close>

lemma kalloc_first: "kmem_inv kend K (p # ps) \<Longrightarrow> kalloc K = (p, K\<lparr>freelist := rd64 (pmem K) p\<rparr>)
    \<and> kmem_inv kend (K\<lparr>freelist := rd64 (pmem K) p\<rparr>) ps"
  by (auto simp: kmem_inv_def kalloc_def Let_def page_ok_def)

text \<open>A store into a page that is not free.\<close>

lemma kmem_inv_store:
  assumes "kmem_inv kend K ps" and "p mod 4096 = 0" "p \<notin> set ps"
    and "\<And>x. x < p \<or> p + 4096 \<le> x \<Longrightarrow> m x = pmem K x"
  shows "kmem_inv kend (K\<lparr>pmem := m\<rparr>) ps"
proof -
  have "rd64 m q = rd64 (pmem K) q" if "q \<in> set ps" for q
  proof -
    have "q + 4096 \<le> p \<or> p + 4096 \<le> q"
      using page_apart [of q p] assms(1,2,3) that by (auto simp: kmem_inv_def page_ok_def PGSIZE_def)
    then show ?thesis by (intro rd64_cong assms(4)) auto
  qed
  then show ?thesis using assms(1) chain_cong [of ps m "pmem K"] by (auto simp: kmem_inv_def)
qed

lemma kmem_inv_set_ent:
  assumes "kmem_inv kend K ps" and "p mod 4096 = 0" "p \<notin> set ps" "i < 512"
  shows "kmem_inv kend (set_ent p i v K) ps"
  unfolding set_ent_def set_word_def using assms by (intro kmem_inv_store) (auto simp: wr64_def)

lemma kmem_inv_fill:
  assumes "kmem_inv kend K ps" and "p mod 4096 = 0" "p \<notin> set ps"
  shows "kmem_inv kend (fill p c K) ps"
  unfolding fill_def using assms by (intro kmem_inv_store) (auto simp: memset_eq stosb_eq PGSIZE_def)

lemma kmem_inv_fold:
  assumes "kmem_inv kend K ps" and "\<And>n K. n \<in> set ns \<Longrightarrow> kmem_inv kend K ps \<Longrightarrow> kmem_inv kend (f n K) ps"
  shows "kmem_inv kend (fold f ns K) ps"
  using assms by (induction ns arbitrary: K) auto

text \<open>The kernel's tables as \<^verbatim>\<open>kvmalloc\<close> fills them.\<close>

definition kvm_tables :: "kvm \<Rightarrow> kmem \<Rightarrow> bool" where
  "kvm_tables v K \<longleftrightarrow> ent (k_pml4 v) 511 K = v2p (k_pdpt v) + 3
     \<and> ent (k_pdpt v) 511 K = v2p (k_pgdir1 v) + 3 \<and> ent (k_pdpt v) 510 K = v2p (k_pgdir0 v) + 3
     \<and> ent (k_pdpt v) 509 K = v2p (k_iopgdir v) + 3
     \<and> (\<forall>n < 512. ent (k_pgdir0 v) n K = n * 2 ^ 21 + 0x83 \<and> ent (k_pgdir1 v) n K = (n + 512) * 2 ^ 21 + 0x83)
     \<and> (\<forall>n < 16. ent (k_iopgdir v) n K = (2032 + n) * 2 ^ 21 + 0x9b)"

lemma kvmalloc_tables:
  assumes K: "kmem_inv kend K (p1 # p2 # p3 # p4 # p5 # ps)" and kend: "KERNBASE \<le> kend"
  defines "v \<equiv> \<lparr>k_pml4 = p1, k_pdpt = p2, k_iopgdir = p5, k_pgdir0 = p3, k_pgdir1 = p4\<rparr>"
  shows "\<exists>K'. kvmalloc K = Ok (v, v2p p1, K') \<and> kvm_tables v K' \<and> kmem_inv kend K' ps"
proof -
  note a1 = kalloc_first [OF K]
  note a2 = kalloc_first [OF conjunct2 [OF a1]]
  note a3 = kalloc_first [OF conjunct2 [OF a2]]
  note a4 = kalloc_first [OF conjunct2 [OF a3]]
  note a5 = kalloc_first [OF conjunct2 [OF a4]]
  define K5 where "K5 = K\<lparr>freelist := rd64 (pmem K) p5\<rparr>"
  have ok: "page_ok kend p1" "page_ok kend p2" "page_ok kend p3" "page_ok kend p4" "page_ok kend p5"
    and ne: "distinct [p1, p2, p3, p4, p5]" using K by (auto simp: kmem_inv_def)
  then have nz: "p1 \<noteq> 0" "p2 \<noteq> 0" "p3 \<noteq> 0" "p4 \<noteq> 0" "p5 \<noteq> 0" by (auto simp: page_ok_def)
  have al: "p1 mod 4096 = 0" "p2 mod 4096 = 0" "p3 mod 4096 = 0" "p4 mod 4096 = 0" "p5 mod 4096 = 0"
    using ok by (auto simp: page_ok_def PGSIZE_def)
  note e = pte_or(2) [OF page_phys(2) [OF _ kend]]
  have b: "v2p p + 3 < 2 ^ 64" if "page_ok kend p" for p using page_phys(3) [OF that kend] by (simp add: PHYSTOP_def)
  define K' where "K' = fold (kvmalloc_io p5) [0..<16] (fold (kvmalloc_big p3 p4) [0..<512]
     (set_ent p2 509 (v2p p5 + 3) (set_ent p2 510 (v2p p3 + 3) (set_ent p2 511 (v2p p4 + 3) (set_ent p1 511 (v2p p2 + 3)
       (fill p5 0 (fill p2 0 (fill p1 0 K5))))))))"
  have "kvmalloc K = Ok (v, v2p p1, K')"
    unfolding kvmalloc_def using a1 a2 a3 a4 a5 nz
    by (simp add: e ok K'_def K5_def v_def switchkvm_def NPDENTRIES_def)
  moreover have "kvm_tables v K'"
    unfolding kvm_tables_def K'_def using ne al b [OF ok(2)] b [OF ok(3)] b [OF ok(4)] b [OF ok(5)]
    by (simp add: v_def fold_io fold_big ent_set_ent ent_fill)
  moreover have "kmem_inv kend K5 ps" "\<forall>p \<in> {p1, p2, p3, p4, p5}. p \<notin> set ps"
    using a5 K by (auto simp: K5_def kmem_inv_def)
  then have "kmem_inv kend K' ps"
    unfolding K'_def kvmalloc_big_def kvmalloc_io_def using al by (intro kmem_inv_fold kmem_inv_set_ent kmem_inv_fill) auto
  ultimately show ?thesis by blast
qed

lemma shift_index:
  fixes a c :: nat
  shows "(2 ^ 21 * (512 * c) + a) div 2 ^ 21 mod 512 = a div 2 ^ 21 mod 512" "(2 ^ 21 * (512 * c) + a) mod 2 ^ 21 = a mod 2 ^ 21"
proof -
  have "(2 ^ 21 * (512 * c) + a) div 2 ^ 21 = 512 * c + a div 2 ^ 21" by (rule div_mult_self4) simp
  then show "(2 ^ 21 * (512 * c) + a) div 2 ^ 21 mod 512 = a div 2 ^ 21 mod 512" by (simp only: mod_mult_self4)
  show "(2 ^ 21 * (512 * c) + a) mod 2 ^ 21 = a mod 2 ^ 21" by (rule mod_mult_self4)
qed

lemma kern_index:
  assumes "a < 2 ^ 31"
  shows "(KERNBASE + a) div 2 ^ 39 mod 512 = 511" "(KERNBASE + a) div 2 ^ 30 mod 512 = (if a < 2 ^ 30 then 510 else 511)"
    "(KERNBASE + a) div 2 ^ 21 mod 512 = a div 2 ^ 21 mod 512" "(KERNBASE + a) mod 2 ^ 21 = a mod 2 ^ 21"
proof -
  have "(KERNBASE + a) div 2 ^ 39 = 2 ^ 25 - 1" using assms by (intro div_nat_eqI) (auto simp: KERNBASE_def)
  then show "(KERNBASE + a) div 2 ^ 39 mod 512 = 511" by simp
  have "(KERNBASE + a) div 2 ^ 30 = (if a < 2 ^ 30 then 2 ^ 34 - 2 else 2 ^ 34 - 1)"
    using assms by (intro div_nat_eqI) (auto simp: KERNBASE_def)
  then show "(KERNBASE + a) div 2 ^ 30 mod 512 = (if a < 2 ^ 30 then 510 else 511)" by auto
  have k: "KERNBASE + a = 2 ^ 21 * (512 * (2 ^ 34 - 2)) + a" by (simp add: KERNBASE_def)
  show "(KERNBASE + a) div 2 ^ 21 mod 512 = a div 2 ^ 21 mod 512" "(KERNBASE + a) mod 2 ^ 21 = a mod 2 ^ 21"
    unfolding k by (rule shift_index)+
qed

lemma dev_index:
  assumes "a < 2 ^ 25"
  shows "(DEVBASE + a) div 2 ^ 39 mod 512 = 511" "(DEVBASE + a) div 2 ^ 30 mod 512 = 509"
    "(DEVBASE + a) div 2 ^ 21 mod 512 = a div 2 ^ 21" "(DEVBASE + a) mod 2 ^ 21 = a mod 2 ^ 21"
proof -
  have "(DEVBASE + a) div 2 ^ 39 = 2 ^ 25 - 1" "(DEVBASE + a) div 2 ^ 30 = 2 ^ 34 - 3"
    using assms by (intro div_nat_eqI; auto simp: DEVBASE_def)+
  then show "(DEVBASE + a) div 2 ^ 39 mod 512 = 511" "(DEVBASE + a) div 2 ^ 30 mod 512 = 509" by simp_all
  have k: "DEVBASE + a = 2 ^ 21 * (512 * (2 ^ 34 - 3)) + a" by (simp add: DEVBASE_def)
  have "a div 2 ^ 21 < 16" using assms by (simp add: less_mult_imp_div_less)
  then show "(DEVBASE + a) div 2 ^ 21 mod 512 = a div 2 ^ 21" "(DEVBASE + a) mod 2 ^ 21 = a mod 2 ^ 21"
    unfolding k shift_index by simp_all
qed


lemma kvm_translates:
  assumes t: "kvm_tables v K"
    and ok: "\<forall>p \<in> {k_pdpt v, k_pgdir0 v, k_pgdir1 v, k_iopgdir v}. v2p p mod 4096 = 0 \<and> p2v (v2p p) = p"
    and top: "ent (p2v cr3) 511 K = v2p (k_pdpt v) + g" "g < 4096" "odd g"
  shows "a < 2 ^ 31 \<Longrightarrow> hw_walk K cr3 (KERNBASE + a) = Some a"
    "a < 2 ^ 25 \<Longrightarrow> hw_walk K cr3 (DEVBASE + a) = Some (DEVSPACE + a)"
proof -
  have o: "v2p p mod 4096 = 0 \<and> p2v (v2p p) = p" if "p \<in> {k_pdpt v, k_pgdir0 v, k_pgdir1 v, k_iopgdir v}" for p
    using that by (rule bspec [OF ok])
  {
    assume a: "a < 2 ^ 31"
    let ?t = "if a < 2 ^ 30 then k_pgdir0 v else k_pgdir1 v"
    have "a div 2 ^ 21 mod 512 = (if a < 2 ^ 30 then a div 2 ^ 21 else a div 2 ^ 21 - 512)" "a div 2 ^ 21 < 1024"
      "\<not> a < 2 ^ 30 \<Longrightarrow> 512 \<le> a div 2 ^ 21"
    proof -
      show "a div 2 ^ 21 < 1024" using a by (simp add: less_mult_imp_div_less)
      show g: "512 \<le> a div 2 ^ 21" if "\<not> a < 2 ^ 30" using that div_le_mono [of "2 ^ 30" a "2 ^ 21"] by simp
      show "a div 2 ^ 21 mod 512 = (if a < 2 ^ 30 then a div 2 ^ 21 else a div 2 ^ 21 - 512)"
        using a g le_mod_geq [of 512 "a div 2 ^ 21"] by (auto simp: less_mult_imp_div_less mod_less)
    qed
    then have "ent ?t ((KERNBASE + a) div 2 ^ 21 mod 512) K = a div 2 ^ 21 * 2 ^ 21 + 0x83"
      unfolding kern_index(3) [OF a] using t by (auto simp: kvm_tables_def)
    note e2 = this
    have e4: "ent (p2v cr3) ((KERNBASE + a) div 2 ^ 39 mod 512) K = v2p (k_pdpt v) + g"
      and e3: "ent (k_pdpt v) ((KERNBASE + a) div 2 ^ 30 mod 512) K = v2p ?t + 3"
      unfolding kern_index(1,2) [OF a] using t top(1) by (auto simp: kvm_tables_def)
    have p: "v2p (k_pdpt v) mod 4096 = 0" "p2v (v2p (k_pdpt v)) = k_pdpt v" "v2p ?t mod 4096 = 0" "p2v (v2p ?t) = ?t"
      using o [of "k_pdpt v"] o [of "k_pgdir0 v"] o [of "k_pgdir1 v"] by auto
    have "hw_walk K cr3 (KERNBASE + a) = Some (a div 2 ^ 21 * 2 ^ 21 + (KERNBASE + a) mod 2 ^ 21)"
      by (rule hw_walk_big [OF e4 p(1,2) e3 p(3,4) e2 _ bit_flags(1) _ top(2,3)]) simp_all
    then show "hw_walk K cr3 (KERNBASE + a) = Some a" unfolding kern_index(4) [OF a] by simp
  next
    assume a: "a < 2 ^ 25"
    have "a div 2 ^ 21 < 16" using a by (simp add: less_mult_imp_div_less)
    then have "ent (k_iopgdir v) ((DEVBASE + a) div 2 ^ 21 mod 512) K = (2032 + a div 2 ^ 21) * 2 ^ 21 + 0x9b"
      unfolding dev_index(3) [OF a] using t by (auto simp: kvm_tables_def)
    note e2 = this
    have e4: "ent (p2v cr3) ((DEVBASE + a) div 2 ^ 39 mod 512) K = v2p (k_pdpt v) + g"
      and e3: "ent (k_pdpt v) ((DEVBASE + a) div 2 ^ 30 mod 512) K = v2p (k_iopgdir v) + 3"
      unfolding dev_index(1,2) [OF a] using t top(1) by (auto simp: kvm_tables_def)
    have p: "v2p (k_pdpt v) mod 4096 = 0" "p2v (v2p (k_pdpt v)) = k_pdpt v"
        "v2p (k_iopgdir v) mod 4096 = 0" "p2v (v2p (k_iopgdir v)) = k_iopgdir v"
      using o [of "k_pdpt v"] o [of "k_iopgdir v"] by auto
    have "hw_walk K cr3 (DEVBASE + a) = Some ((2032 + a div 2 ^ 21) * 2 ^ 21 + (DEVBASE + a) mod 2 ^ 21)"
      by (rule hw_walk_big [OF e4 p(1,2) e3 p(3,4) e2 _ bit_flags(2) _ top(2,3)]) simp_all
    then show "hw_walk K cr3 (DEVBASE + a) = Some (DEVSPACE + a)"
      unfolding dev_index(4) [OF a] by (simp add: DEVSPACE_def algebra_simps)
  }
qed


section \<open>The translation a page directory describes\<close>

text \<open>The page table entry for a user address, 0 if its table is missing.\<close>

definition pte_of :: "kmem \<Rightarrow> nat \<Rightarrow> nat \<Rightarrow> nat" where
  "pte_of K pgdir va =
     (let pde = ent pgdir (PDX va) K in if odd pde then ent (p2v (PTE_ADDR pde)) (PTX va) K else 0)"

text \<open>
  A page directory of \<^verbatim>\<open>setupkvm\<close> and the free list: the tables it refers to (all but the two back pointers at the
  top) are pages of the allocator that are not free, not the directory itself, and not shared.
\<close>

definition table :: "kmem \<Rightarrow> nat \<Rightarrow> nat \<Rightarrow> nat" where
  "table K pgdir i = p2v (PTE_ADDR (ent pgdir i K))"

definition pt_ok :: "nat \<Rightarrow> nat list \<Rightarrow> nat \<Rightarrow> kmem \<Rightarrow> bool" where
  "pt_ok kend ps pgdir K \<longleftrightarrow> KERNBASE \<le> kend \<and> kmem_inv kend K ps \<and> page_ok kend pgdir \<and> pgdir \<notin> set ps
     \<and> (\<forall>i < 510. odd (ent pgdir i K) \<longrightarrow>
          page_ok kend (table K pgdir i) \<and> table K pgdir i \<notin> set ps \<and> table K pgdir i \<noteq> pgdir)
     \<and> (\<forall>i < 510. \<forall>j < 510. odd (ent pgdir i K) \<and> odd (ent pgdir j K) \<and> table K pgdir i = table K pgdir j \<longrightarrow> i = j)"

lemma pt_okD:
  assumes "pt_ok kend ps pgdir K"
  shows "KERNBASE \<le> kend" "kmem_inv kend K ps" "page_ok kend pgdir" "pgdir \<notin> set ps" "pgdir mod 4096 = 0"
    "i < 510 \<Longrightarrow> odd (ent pgdir i K) \<Longrightarrow> page_ok kend (table K pgdir i) \<and> table K pgdir i \<notin> set ps
       \<and> table K pgdir i \<noteq> pgdir \<and> table K pgdir i mod 4096 = 0"
    "i < 510 \<Longrightarrow> j < 510 \<Longrightarrow> odd (ent pgdir i K) \<Longrightarrow> odd (ent pgdir j K) \<Longrightarrow>
       table K pgdir i = table K pgdir j \<Longrightarrow> i = j"
  using assms unfolding pt_ok_def page_ok_def PGSIZE_def by blast+

text \<open>The frame of these operations: the memory of other pages.\<close>

lemma pmem_set_ent: "i < 512 \<Longrightarrow> x < p \<or> p + 4096 \<le> x \<Longrightarrow> pmem (set_ent p i v K) x = pmem K x"
  by (auto simp: set_ent_def set_word_def wr64_def)

lemma pmem_fill: "x < p \<or> p + 4096 \<le> x \<Longrightarrow> pmem (fill p c K) x = pmem K x"
  by (auto simp: fill_def memset_eq stosb_eq PGSIZE_def)

lemma idx_bound [simp]: "PDX va < 512" "PTX va < 512"
  by (simp_all add: PDX_def PTX_def)

lemma freelist_ent [simp]: "ent p i (K\<lparr>freelist := f\<rparr>) = ent p i K"
  by (simp add: ent_def)


definition tabs :: "kmem \<Rightarrow> nat \<Rightarrow> nat set" where
  "tabs K pgdir = {table K pgdir i |i. i < 510 \<and> odd (ent pgdir i K)}"

definition keeps :: "nat set \<Rightarrow> kmem \<Rightarrow> kmem \<Rightarrow> bool" where
  "keeps S K K' \<longleftrightarrow> (\<forall>q x. q mod 4096 = 0 \<and> q \<notin> S \<and> q \<le> x \<and> x < q + 4096 \<longrightarrow> pmem K' x = pmem K x)"

lemma keeps_trans: "keeps S K K' \<Longrightarrow> keeps S' K' K'' \<Longrightarrow> S' \<subseteq> S \<Longrightarrow> keeps S K K''"
  unfolding keeps_def by (metis subsetD)

lemma keepsD: "keeps S K K' \<Longrightarrow> q mod 4096 = 0 \<Longrightarrow> q \<notin> S \<Longrightarrow> q \<le> x \<Longrightarrow> x < q + 4096 \<Longrightarrow> pmem K' x = pmem K x"
  by (simp add: keeps_def)

lemma keeps_mono: "keeps S K K' \<Longrightarrow> S \<subseteq> S' \<Longrightarrow> keeps S' K K'"
  unfolding keeps_def by (metis subsetD)

lemma keeps_store:
  assumes "p \<in> S" "p mod 4096 = 0" and "\<And>x. x < p \<or> p + 4096 \<le> x \<Longrightarrow> pmem K' x = pmem K x"
  shows "keeps S K K'"
  unfolding keeps_def
proof (intro allI impI, elim conjE)
  fix q x assume "q mod 4096 = 0" "q \<notin> S" "q \<le> x" "x < q + 4096"
  moreover from this have "q \<noteq> p" using assms(1) by auto
  ultimately show "pmem K' x = pmem K x"
    using page_apart [of q p] assms(2) by (intro assms(3)) (auto simp: PGSIZE_def)
qed

text \<open>
  Walking with allocation: afterwards the table exists, taken from the free list if necessary, and no translation
  has changed.
\<close>

lemma walk_new:
  assumes pt: "pt_ok kend (t # ps) pgdir K" and va: "PDX va < 510" and e: "even (ent pgdir (PDX va) K)"
  defines "K1 \<equiv> set_ent pgdir (PDX va) (v2p t + 7) (fill t 0 (K\<lparr>freelist := rd64 (pmem K) t\<rparr>))"
  shows "walkpgdir pgdir va True K = (t + 8 * PTX va, K1)"
    "ent pgdir i K1 = (if i = PDX va \<and> i < 512 then v2p t + 7 else ent pgdir i K) \<or> 512 \<le> i" "p2v (PTE_ADDR (v2p t + 7)) = t" "odd (v2p t + 7)"
    "kmem_inv kend K1 ps" "page_ok kend t" "t \<notin> set ps" "t \<noteq> pgdir" "t mod 4096 = 0"
    "\<And>q j. q mod 4096 = 0 \<Longrightarrow> q \<noteq> pgdir \<Longrightarrow> j < 512 \<Longrightarrow> ent q j K1 = (if q = t then 0 else ent q j K)"
    "keeps {pgdir, t} K K1"
proof -
  note d = pt_okD [OF pt]
  note k = kalloc_first [OF d(2)]
  show t: "page_ok kend t" "t \<notin> set ps" "t \<noteq> pgdir" "t mod 4096 = 0"
    using d(2,4) by (auto simp: kmem_inv_def page_ok_def PGSIZE_def)
  note ph = page_phys [OF t(1) d(1)]
  show a: "p2v (PTE_ADDR (v2p t + 7)) = t" "odd (v2p t + 7)"
    using pte_addr [OF ph(2), of 7] pte_present [OF ph(2), of 7] ph(4) by simp_all
  have b: "v2p t + 7 < 2 ^ 64" using ph(3) by (simp add: PHYSTOP_def)
  show "walkpgdir pgdir va True K = (t + 8 * PTX va, K1)"
    using e k t(1) and_1_iff by (auto simp: walkpgdir_def K1_def Let_def pte_or(1) [OF ph(2)] page_ok_def)
  show "ent pgdir i K1 = (if i = PDX va \<and> i < 512 then v2p t + 7 else ent pgdir i K) \<or> 512 \<le> i"
    using d(5) t(3,4) b by (cases "i < 512") (auto simp: K1_def ent_set_ent ent_fill)
  show "kmem_inv kend K1 ps"
    unfolding K1_def using k t d(4,5) by (intro kmem_inv_set_ent kmem_inv_fill) auto
  show "\<And>q j. q mod 4096 = 0 \<Longrightarrow> q \<noteq> pgdir \<Longrightarrow> j < 512 \<Longrightarrow> ent q j K1 = (if q = t then 0 else ent q j K)"
    using d(5) t(4) b by (simp add: K1_def ent_set_ent ent_fill)
  have "keeps {pgdir, t} K (fill t 0 (K\<lparr>freelist := rd64 (pmem K) t\<rparr>))"
    using t(4) by (intro keeps_store [of t]) (auto simp: pmem_fill)
  moreover have "keeps {pgdir, t} (fill t 0 (K\<lparr>freelist := rd64 (pmem K) t\<rparr>)) K1"
    unfolding K1_def using d(5) by (intro keeps_store [of pgdir]) (auto simp: pmem_set_ent)
  ultimately show "keeps {pgdir, t} K K1" by (rule keeps_trans) simp
qed

lemma walk_alloc:
  assumes pt: "pt_ok kend ps pgdir K" and va: "PDX va < 510" and room: "odd (ent pgdir (PDX va) K) \<or> ps \<noteq> []"
  shows "\<exists>K' ps'. walkpgdir pgdir va True K = (table K' pgdir (PDX va) + 8 * PTX va, K') \<and> pt_ok kend ps' pgdir K'
    \<and> odd (ent pgdir (PDX va) K') \<and> (ps' = ps \<or> (\<exists>t. ps = t # ps')) \<and> tabs K' pgdir \<subseteq> tabs K pgdir \<union> (set ps - set ps')
    \<and> (\<forall>b. PDX b < 510 \<longrightarrow> pte_of K' pgdir b = pte_of K pgdir b)
    \<and> keeps (insert pgdir (set ps - set ps')) K K'"
proof (cases "odd (ent pgdir (PDX va) K)")
  case True
  then have "walkpgdir pgdir va True K = (table K pgdir (PDX va) + 8 * PTX va, K)"
    using and_1_iff by (simp add: walkpgdir_def table_def Let_def)
  then show ?thesis using pt True by (intro exI [of _ K] exI [of _ ps]) (simp add: keeps_def)
next
  case False
  then obtain t ps' where ps: "ps = t # ps'" using room by (cases ps) auto
  have ev: "even (ent pgdir (PDX va) K)" using False by simp
  note w = walk_new [OF pt [unfolded ps] va ev]
  define K1 where "K1 = set_ent pgdir (PDX va) (v2p t + 7) (fill t 0 (K\<lparr>freelist := rd64 (pmem K) t\<rparr>))"
  note w = w [folded K1_def] and d = pt_okD [OF pt]
  have e: "ent pgdir i K1 = (if i = PDX va then v2p t + 7 else ent pgdir i K)" if "i < 510" for i
    using w(2) [of i] that by auto
  have tab: "table K1 pgdir i = (if i = PDX va then t else table K pgdir i)" if "i < 510" for i
    using e [OF that] w(3) by (simp add: table_def)
  have old: "table K pgdir i \<noteq> t" if "i < 510" "odd (ent pgdir i K)" for i
    using d(6) [OF that] ps by auto
  have "pt_ok kend ps' pgdir K1"
    unfolding pt_ok_def using d(1,3,4) w(5-9) d(6,7) False ps old
    by (auto simp: e tab split: if_split_asm)
  moreover have "pte_of K1 pgdir b = pte_of K pgdir b" if "PDX b < 510" for b
  proof (cases "PDX b = PDX va")
    case True
    then show ?thesis using False w(3,4,9) w(8) w(10) [of t "PTX b"] e [OF that] by (simp add: pte_of_def Let_def)
  next
    case ne: False
    show ?thesis
    proof (cases "odd (ent pgdir (PDX b) K)")
      case True
      then show ?thesis using ne e [OF that] d(6) [OF that True] old [OF that True] w(10) [of "table K pgdir (PDX b)" "PTX b"]
        by (simp add: pte_of_def Let_def table_def)
    qed (use ne e [OF that] in \<open>simp add: pte_of_def Let_def\<close>)
  qed
  moreover have "tabs K1 pgdir \<subseteq> tabs K pgdir \<union> (set ps - set ps')"
    using w(7) ps by (auto simp: tabs_def tab e split: if_split_asm)
  moreover have "keeps (insert pgdir (set ps - set ps')) K K1"
  proof -
    have "insert pgdir (set ps - set ps') = {pgdir, t}" using w(7) ps by auto
    then show ?thesis using w(11) by simp
  qed
  ultimately show ?thesis
    using w(1,4) va e [OF va] tab [OF va] ps by (intro exI [of _ K1] exI [of _ ps']) simp
qed


text \<open>Mapping one page.\<close>

definition same_slot :: "nat \<Rightarrow> nat \<Rightarrow> bool" where
  "same_slot a b \<longleftrightarrow> PDX a = PDX b \<and> PTX a = PTX b"

lemma mappages_one:
  assumes "va mod 4096 = 0" and "va + 4096 < 2 ^ 64"
  shows "mappages pgdir va PGSIZE pa perm K =
    (let (pte, K) = walkpgdir pgdir va True K
     in if pte = 0 then Ok (-1, K) else if odd (rd64 (pmem K) pte) then Panic ''remap''
        else Ok (0, set_word pte (pa OR perm OR PTE_P) K))"
proof -
  have "va + PGSIZE + 2 ^ 64 - 1 = (va + 4095) + 2 ^ 64" "va + 4095 < 2 ^ 64" using assms(2) by (simp_all add: PGSIZE_def)
  then have "(va + PGSIZE + 2 ^ 64 - 1) mod 2 ^ 64 = va + 4095" by (metis mod_add_self2 mod_less)
  then have "PGROUNDDOWN ((va + PGSIZE + 2 ^ 64 - 1) mod 2 ^ 64) = va" "PGROUNDDOWN va = va"
    using assms(1) by (auto simp: PGROUNDDOWN_def)
  then show ?thesis using and_1_iff by (simp add: mappages_def Let_def split: prod.split)
qed

lemma map_page:
  assumes pt: "pt_ok kend ps pgdir K" and va: "PDX va < 510" "va mod 4096 = 0" "va + 4096 < 2 ^ 64"
    and room: "odd (ent pgdir (PDX va) K) \<or> ps \<noteq> []" and new: "even (pte_of K pgdir va)"
    and v: "pa OR perm OR PTE_P < 2 ^ 64"
  shows "\<exists>K' ps'. mappages pgdir va PGSIZE pa perm K = Ok (0, K') \<and> pt_ok kend ps' pgdir K'
    \<and> (ps' = ps \<or> (\<exists>t. ps = t # ps')) \<and> tabs K' pgdir \<subseteq> tabs K pgdir \<union> (set ps - set ps')
    \<and> (\<forall>b. PDX b < 510 \<longrightarrow> pte_of K' pgdir b = (if same_slot b va then pa OR perm OR PTE_P else pte_of K pgdir b))
    \<and> keeps (insert pgdir (tabs K pgdir \<union> (set ps - set ps'))) K K'"
proof -
  obtain K1 ps' where w: "walkpgdir pgdir va True K = (table K1 pgdir (PDX va) + 8 * PTX va, K1)" "pt_ok kend ps' pgdir K1"
      "odd (ent pgdir (PDX va) K1)" "ps' = ps \<or> (\<exists>t. ps = t # ps')" "tabs K1 pgdir \<subseteq> tabs K pgdir \<union> (set ps - set ps')"
      "\<forall>b. PDX b < 510 \<longrightarrow> pte_of K1 pgdir b = pte_of K pgdir b" "keeps (insert pgdir (set ps - set ps')) K K1"
    using walk_alloc [OF pt va(1) room] by blast
  let ?t = "table K1 pgdir (PDX va)" and ?v = "pa OR perm OR PTE_P"
  define K2 where "K2 = set_ent ?t (PTX va) ?v K1"
  note d = pt_okD [OF w(2)]
  have t: "page_ok kend ?t" "?t \<notin> set ps'" "?t \<noteq> pgdir" "?t mod 4096 = 0" using d(6) [OF va(1) w(3)] by auto
  have e: "ent q j K2 = (if q = ?t \<and> j = PTX va then ?v else ent q j K1)" if "q mod 4096 = 0" "j < 512" for q j
    unfolding K2_def using t(4) that v by (intro ent_set_ent) auto
  have ep: "ent pgdir j K2 = ent pgdir j K1" if "j < 510" for j using e [OF d(5), of j] t(3) that by simp
  have tb: "table K2 pgdir i = table K1 pgdir i" if "i < 510" for i using ep [OF that] by (simp add: table_def)
  have "ent ?t (PTX va) K1 = pte_of K pgdir va" using w(3,6) va(1) by (auto simp: pte_of_def Let_def table_def)
  then have "even (rd64 (pmem K1) (?t + 8 * PTX va))" using new by (simp add: ent_def)
  moreover have "?t + 8 * PTX va \<noteq> 0" using t(1) by (simp add: page_ok_def)
  ultimately have code: "mappages pgdir va PGSIZE pa perm K = Ok (0, K2)"
    using w(1) by (simp add: mappages_one [OF va(2,3)] K2_def set_ent_def)
  have "kmem_inv kend K2 ps'" unfolding K2_def using d(2) t by (intro kmem_inv_set_ent) auto
  then have "pt_ok kend ps' pgdir K2"
    using d(1,3,4) d(6,7) unfolding pt_ok_def by (auto simp: ep tb)
  moreover have "tabs K2 pgdir = tabs K1 pgdir" by (auto simp: tabs_def ep tb; metis ep tb)
  moreover have "pte_of K2 pgdir b = (if same_slot b va then ?v else pte_of K pgdir b)" if "PDX b < 510" for b
  proof (cases "odd (ent pgdir (PDX b) K1)")
    case True
    have "table K1 pgdir (PDX b) = ?t \<longleftrightarrow> PDX b = PDX va" using d(7) [OF that va(1) True w(3)] by auto
    moreover have "pte_of K2 pgdir b = ent (table K1 pgdir (PDX b)) (PTX b) K2"
      using True ep [OF that] by (simp add: pte_of_def Let_def table_def)
    ultimately show ?thesis
      using True e [of "table K1 pgdir (PDX b)" "PTX b"] d(6) [OF that True] w(6) that
      by (auto simp: same_slot_def pte_of_def Let_def table_def)
  next
    case False
    then show ?thesis using w(3,6) ep [OF that] that by (auto simp: same_slot_def pte_of_def Let_def)
  qed
  moreover
  have "?t \<in> tabs K1 pgdir" using va(1) w(3) by (auto simp: tabs_def)
  then have k2: "keeps (insert pgdir (tabs K pgdir \<union> (set ps - set ps'))) K1 K2"
    unfolding K2_def using t(4) w(5) by (intro keeps_store [of ?t]) (auto simp: pmem_set_ent)
  have "keeps (insert pgdir (tabs K pgdir \<union> (set ps - set ps'))) K K1"
    by (rule keeps_mono [OF w(7)]) auto
  from keeps_trans [OF this k2 subset_refl]
  have "keeps (insert pgdir (tabs K pgdir \<union> (set ps - set ps'))) K K2" .
  ultimately show ?thesis using code w(4,5) by (intro exI [of _ K2] exI [of _ ps']) simp
qed

end
