(* ===== verification/Vm_Alloc.thy ===== *)
theory Vm_Alloc
  imports Vm
begin

text \<open>
  Growing and copying the memory of a process: what \<^verbatim>\<open>allocuvm\<close> (\<^verbatim>\<open>kernel/vm.c\<close>) leaves in the page tables.
\<close>

section \<open>Growing a process\<close>

text \<open>Pages below the two slots of the directory that hold the back pointers.\<close>

definition USERTOP :: nat where "USERTOP = 0x3fc00000"

lemma user_slot:
  assumes "a mod 4096 = 0" "b mod 4096 = 0" "a < USERTOP" "b < USERTOP"
  shows "PDX a < 510" "same_slot b a \<longleftrightarrow> b = a"
proof -
  have d: "x div 2 ^ 21 < 510" if "x < USERTOP" for x using that by (simp add: USERTOP_def less_mult_imp_div_less)
  then have pdx: "PDX x = x div 2 ^ 21" if "x < USERTOP" for x using that [THEN d] by (simp add: PDX_def)
  show "PDX a < 510" using d [OF assms(3)] pdx [OF assms(3)] by simp
  have split: "x = 2 ^ 21 * (x div 2 ^ 21) + 2 ^ 12 * (x div 2 ^ 12 mod 512)" if "x mod 4096 = 0" for x :: nat
  proof -
    have "x = 4096 * (x div 4096)" using that by auto
    moreover have "x div 4096 = 512 * (x div 4096 div 512) + x div 4096 mod 512" by simp
    moreover have "x div 4096 div 512 = x div 2 ^ 21" by (simp add: div_mult2_eq [symmetric])
    ultimately show ?thesis by simp
  qed
  show "same_slot b a \<longleftrightarrow> b = a"
    using split [OF assms(1)] split [OF assms(2)] pdx assms(3,4) by (auto simp: same_slot_def PTX_def)
qed

text \<open>Taking a page off the free list and zeroing it.\<close>

lemma pt_ok_take:
  assumes pt: "pt_ok kend (m # ps) pgdir K"
  defines "K1 \<equiv> fill m 0 (K\<lparr>freelist := rd64 (pmem K) m\<rparr>)"
  shows "pt_ok kend ps pgdir K1" "PDX b < 510 \<Longrightarrow> pte_of K1 pgdir b = pte_of K pgdir b" "tabs K1 pgdir = tabs K pgdir"
    "m \<notin> tabs K pgdir" "m \<notin> set ps" "m \<noteq> pgdir" "page_ok kend m" "keeps {m} K K1"
    "m \<le> x \<Longrightarrow> x < m + 4096 \<Longrightarrow> pmem K1 x = 0"
proof -
  note d = pt_okD [OF pt]
  note k = kalloc_first [OF d(2)]
  show m: "m \<notin> tabs K pgdir" "m \<notin> set ps" "m \<noteq> pgdir" "page_ok kend m"
  proof -
    have "x \<notin> set (m # ps)" if "x \<in> tabs K pgdir" for x using that d(6) by (auto simp: tabs_def)
    then show "m \<notin> tabs K pgdir" by force
  qed (use d(2,4) in \<open>auto simp: kmem_inv_def\<close>)
  have al: "m mod 4096 = 0" using m(4) by (simp add: page_ok_def PGSIZE_def)
  have e: "ent q j K1 = ent q j K" if "q mod 4096 = 0" "q \<noteq> m" "j < 512" for q j
    unfolding K1_def using ent_fill [OF al that(1,3)] that(2) by simp
  have ep: "ent pgdir j K1 = ent pgdir j K" if "j < 510" for j using e [OF d(5)] m(3) that by simp
  have tb: "table K1 pgdir i = table K pgdir i" if "i < 510" for i using ep [OF that] by (simp add: table_def)
  have "kmem_inv kend K1 ps" unfolding K1_def using k m(2) al by (intro kmem_inv_fill) auto
  then show "pt_ok kend ps pgdir K1" using d(1,3,4,6,7) unfolding pt_ok_def by (auto simp: ep tb)
  show "tabs K1 pgdir = tabs K pgdir" by (auto simp: tabs_def ep tb; metis ep tb)
  show "pte_of K1 pgdir b = pte_of K pgdir b" if "PDX b < 510"
    using ep [OF that] e [of "table K pgdir (PDX b)" "PTX b"] d(6) [OF that] by (auto simp: pte_of_def Let_def table_def)
  show "keeps {m} K K1" unfolding K1_def using al by (intro keeps_store [of m]) (auto simp: pmem_fill)
  show "m \<le> x \<Longrightarrow> x < m + 4096 \<Longrightarrow> pmem K1 x = 0"
    by (simp add: K1_def fill_def memset_eq stosb_eq PGSIZE_def)
qed

text \<open>A fresh zeroed page, mapped for the user.\<close>

definition fresh_page :: "kmem \<Rightarrow> nat set \<Rightarrow> nat \<Rightarrow> bool" where
  "fresh_page K F pte \<longleftrightarrow> (\<exists>m \<in> F. pte = v2p m + 7 \<and> (\<forall>x. m \<le> x \<and> x < m + 4096 \<longrightarrow> pmem K x = 0))"

text \<open>One iteration of the loop of \<^verbatim>\<open>allocuvm\<close>.\<close>

lemma alloc_page:
  assumes pt: "pt_ok kend (m # ps) pgdir K" and a: "a mod 4096 = 0" "a < USERTOP"
    and room: "ps \<noteq> []" and new: "even (pte_of K pgdir a)"
  defines "K1 \<equiv> K\<lparr>freelist := rd64 (pmem K) m\<rparr>"
  shows "\<exists>K' ps'. kalloc K = (m, K1) \<and> m \<noteq> 0
    \<and> mappages pgdir a PGSIZE (v2p m) (PTE_W OR PTE_U) (fill m 0 K1) = Ok (0, K') \<and> pt_ok kend ps' pgdir K'
    \<and> (ps' = ps \<or> (\<exists>t. ps = t # ps')) \<and> tabs K' pgdir \<subseteq> tabs K pgdir \<union> (set ps - set ps') \<and> m \<notin> tabs K' pgdir
    \<and> (\<forall>b. PDX b < 510 \<longrightarrow> pte_of K' pgdir b = (if same_slot b a then v2p m + 7 else pte_of K pgdir b))
    \<and> (\<forall>x. m \<le> x \<and> x < m + 4096 \<longrightarrow> pmem K' x = 0) \<and> keeps (insert pgdir (tabs K pgdir \<union> set (m # ps))) K K'"
proof -
  note d = pt_okD [OF pt]
  note t = pt_ok_take [OF pt, folded K1_def]
  note ph = page_phys [OF t(7) d(1)]
  have al: "m mod 4096 = 0" using t(7) by (simp add: page_ok_def PGSIZE_def)
  have v: "v2p m OR (PTE_W OR PTE_U) OR PTE_P = v2p m + 7" by (rule pte_or(4) [OF ph(2)])
  have b: "v2p m OR (PTE_W OR PTE_U) OR PTE_P < 2 ^ 64" unfolding v using ph(3) by (simp add: PHYSTOP_def)
  have pdx: "PDX a < 510" using user_slot(1) [OF a(1) a(1) a(2) a(2)] .
  have "a + 4096 < 2 ^ 64" using a(2) by (simp add: USERTOP_def)
  moreover have "even (pte_of (fill m 0 K1) pgdir a)" using new t(2) [OF pdx] by simp
  ultimately obtain K' ps' where K': "mappages pgdir a PGSIZE (v2p m) (PTE_W OR PTE_U) (fill m 0 K1) = Ok (0, K')"
      "pt_ok kend ps' pgdir K'" "ps' = ps \<or> (\<exists>t. ps = t # ps')"
      "tabs K' pgdir \<subseteq> tabs (fill m 0 K1) pgdir \<union> (set ps - set ps')"
      "\<forall>b. PDX b < 510 \<longrightarrow> pte_of K' pgdir b
         = (if same_slot b a then v2p m OR (PTE_W OR PTE_U) OR PTE_P else pte_of (fill m 0 K1) pgdir b)"
      "keeps (insert pgdir (tabs (fill m 0 K1) pgdir \<union> (set ps - set ps'))) (fill m 0 K1) K'"
    using map_page [OF t(1) pdx a(1) _ _ _ b] room by blast
  have "m \<notin> insert pgdir (tabs (fill m 0 K1) pgdir \<union> (set ps - set ps'))" using t(3-6) by auto
  then have "pmem K' x = pmem (fill m 0 K1) x" if "m \<le> x" "x < m + 4096" for x
    using that by (rule keepsD [OF K'(6) al])
  then have "\<forall>x. m \<le> x \<and> x < m + 4096 \<longrightarrow> pmem K' x = 0" using t(9) by simp
  moreover have "keeps (insert pgdir (tabs K pgdir \<union> set (m # ps))) K K'"
  proof (rule keeps_trans [OF keeps_mono [OF t(8)] K'(6)])
    show "insert pgdir (tabs (fill m 0 K1) pgdir \<union> (set ps - set ps')) \<subseteq> insert pgdir (tabs K pgdir \<union> set (m # ps))"
      unfolding t(3) by auto
  qed simp
  moreover have "kalloc K = (m, K1)" "m \<noteq> 0" using kalloc_first [OF d(2)] t(7) by (auto simp: K1_def page_ok_def)
  moreover have "m \<notin> tabs K' pgdir" using K'(4) t(3-5) by auto
  ultimately show ?thesis using K'(1-5) t(2,3) v by (intro exI [of _ K'] exI [of _ ps']) simp
qed


text \<open>
  What the loop of \<^verbatim>\<open>allocuvm\<close> has done from \<open>a\<close> on: every page up to \<open>newsz\<close> is mapped to a page of its own, taken from
  the free list and zeroed, and every other translation is as before.
\<close>

definition grown :: "nat \<Rightarrow> nat \<Rightarrow> nat \<Rightarrow> nat set \<Rightarrow> kmem \<Rightarrow> kmem \<Rightarrow> bool" where
  "grown pgdir a newsz F K K' \<longleftrightarrow>
     (\<forall>b. b mod 4096 = 0 \<and> b < USERTOP \<longrightarrow>
        (if a \<le> b \<and> b < newsz then fresh_page K' F (pte_of K' pgdir b) else pte_of K' pgdir b = pte_of K pgdir b))
     \<and> inj_on (pte_of K' pgdir) {b. b mod 4096 = 0 \<and> a \<le> b \<and> b < newsz}"

lemma allocuvm_step:
  assumes K': "pt_ok kend ps' pgdir K'" "m \<notin> set ps'" "m \<notin> tabs K' pgdir" "m \<noteq> pgdir" "page_ok kend m" "set ps' \<subseteq> F" "m \<in> F"
      "\<forall>x. m \<le> x \<and> x < m + 4096 \<longrightarrow> pmem K' x = 0"
      "\<forall>b. PDX b < 510 \<longrightarrow> pte_of K' pgdir b = (if same_slot b a then v2p m + 7 else pte_of K pgdir b)"
    and K'': "set ps'' \<subseteq> set ps'" "grown pgdir (a + 4096) newsz (set ps' - set ps'') K' K''"
      "keeps (insert pgdir (tabs K' pgdir \<union> set ps')) K' K''"
    and a: "a mod 4096 = 0" "a < newsz" "newsz \<le> USERTOP"
  shows "grown pgdir a newsz (F - set ps'') K K''"
proof -
  note ph = page_phys [OF K'(5) pt_okD(1) [OF K'(1)]]
  have al: "m mod 4096 = 0" using K'(5) by (simp add: page_ok_def PGSIZE_def)
  have ua: "a < USERTOP" using a by simp
  have g: "fresh_page K'' (set ps' - set ps'') (pte_of K'' pgdir b)" if "b mod 4096 = 0" "a + 4096 \<le> b" "b < newsz" for b
    using K''(2) that a(3) by (auto simp: grown_def)
  have u: "pte_of K'' pgdir b = pte_of K' pgdir b" if "b mod 4096 = 0" "b < USERTOP" "b < a + 4096 \<or> newsz \<le> b" for b
    using K''(2) that by (auto simp: grown_def)
  have pa: "pte_of K'' pgdir a = v2p m + 7"
    using u [OF a(1) ua] K'(9) user_slot [OF a(1) a(1) ua ua] by auto
  have zero: "\<forall>x. m \<le> x \<and> x < m + 4096 \<longrightarrow> pmem K'' x = 0"
    using keepsD [OF K''(3) al] K'(2-4,8) by auto
  have step: "b = a \<or> a + 4096 \<le> b" if "b mod 4096 = 0" "a \<le> b" for b
    using page_apart [of a b] a(1) that by (auto simp: PGSIZE_def)
  have fr: "fresh_page K'' (F - set ps'') (pte_of K'' pgdir b)" if b: "b mod 4096 = 0" "a \<le> b" "b < newsz" for b
  proof (cases "b = a")
    case True
    then show ?thesis using pa zero K'(2,7) K''(1) by (auto simp: fresh_page_def)
  next
    case False
    then have "fresh_page K'' (set ps' - set ps'') (pte_of K'' pgdir b)"
      using g [OF b(1) _ b(3)] step [OF b(1,2)] by auto
    then show ?thesis using K'(6) by (auto simp: fresh_page_def)
  qed
  have ne: "pte_of K'' pgdir b \<noteq> pte_of K'' pgdir a" if b: "b mod 4096 = 0" "a + 4096 \<le> b" "b < newsz" for b
  proof
    assume "pte_of K'' pgdir b = pte_of K'' pgdir a"
    then obtain m' where m': "m' \<in> set ps'" "v2p m' = v2p m" using g [OF b] pa by (auto simp: fresh_page_def)
    have "page_ok kend m'" using pt_okD(2) [OF K'(1)] m'(1) by (simp add: kmem_inv_def)
    from page_phys(4) [OF this pt_okD(1) [OF K'(1)]] have "m' = m" unfolding m'(2) ph(4) by simp
    then show False using m'(1) K'(2) by simp
  qed
  have "inj_on (pte_of K'' pgdir) {b. b mod 4096 = 0 \<and> a + 4096 \<le> b \<and> b < newsz}" using K''(2) by (simp add: grown_def)
  moreover have "{b. b mod 4096 = 0 \<and> a \<le> b \<and> b < newsz} = insert a {b. b mod 4096 = 0 \<and> a + 4096 \<le> b \<and> b < newsz}"
  proof (rule set_eqI)
    fix b
    show "b \<in> {b. b mod 4096 = 0 \<and> a \<le> b \<and> b < newsz} \<longleftrightarrow> b \<in> insert a {b. b mod 4096 = 0 \<and> a + 4096 \<le> b \<and> b < newsz}"
      using step [of b] a by auto
  qed
  moreover have "pte_of K'' pgdir a \<notin> pte_of K'' pgdir ` {b. b mod 4096 = 0 \<and> a + 4096 \<le> b \<and> b < newsz}"
    using ne by force
  ultimately have "inj_on (pte_of K'' pgdir) {b. b mod 4096 = 0 \<and> a \<le> b \<and> b < newsz}" by simp
  moreover have "pte_of K'' pgdir b = pte_of K pgdir b" if b: "b mod 4096 = 0" "b < USERTOP" "\<not> (a \<le> b \<and> b < newsz)" for b
  proof -
    have "pte_of K'' pgdir b = pte_of K' pgdir b" using u [OF b(1,2)] b(3) by linarith
    moreover have "b \<noteq> a" using b(3) a(2) by auto
    ultimately show ?thesis
      using K'(9) user_slot(1) [OF b(1) a(1) b(2) ua] user_slot(2) [OF a(1) b(1) ua b(2)] by simp
  qed
  ultimately show ?thesis unfolding grown_def using fr by simp
qed

lemma allocuvm_loop_ok:
  assumes "pt_ok kend ps pgdir K" "a mod 4096 = 0" "newsz \<le> USERTOP"
    and "\<forall>b. b mod 4096 = 0 \<and> a \<le> b \<and> b < newsz \<longrightarrow> even (pte_of K pgdir b)"
    and "2 * ((newsz - a + 4095) div 4096) \<le> length ps"
  shows "\<exists>K' ps'. allocuvm_loop kend pgdir a oldsz newsz K = Ok (newsz, K') \<and> pt_ok kend ps' pgdir K'
    \<and> set ps' \<subseteq> set ps \<and> grown pgdir a newsz (set ps - set ps') K K'
    \<and> keeps (insert pgdir (tabs K pgdir \<union> set ps)) K K'"
  using assms
proof (induction "newsz - a" arbitrary: a K ps rule: less_induct)
  case less
  note pt = less(2) and a = less(3) and top = less(4) and new = less(5) and len = less(6)
  show ?case
  proof (cases "a < newsz")
    case True
    obtain dd where dd: "newsz = a + Suc dd" using less_imp_Suc_add [OF True] by auto
    have n: "(newsz - a + 4095) div 4096 = Suc ((newsz - (a + 4096) + 4095) div 4096)"
    proof (cases "a + 4096 \<le> newsz")
      case True
      then obtain e where "newsz = a + 4096 + e" using le_Suc_ex by blast
      then show ?thesis by simp
    next
      case False
      then have "newsz - (a + 4096) = 0" "newsz - a + 4095 = 4096 + dd" "dd < 4096" using dd by auto
      then show ?thesis by simp
    qed
    have "2 \<le> length ps" using len unfolding n by simp
    then obtain m q qs where ps: "ps = m # q # qs" by (auto simp: numeral_2_eq_2 Suc_le_length_iff)
    define K1 where "K1 = K\<lparr>freelist := rd64 (pmem K) m\<rparr>"
    have ua: "a < USERTOP" using True top by simp
    have ev: "even (pte_of K pgdir a)" using new a True by simp
    note take = pt_ok_take(4-7) [OF pt [unfolded ps]]
    obtain K2 ps' where k: "kalloc K = (m, K1)" "m \<noteq> 0"
        "mappages pgdir a PGSIZE (v2p m) (PTE_W OR PTE_U) (fill m 0 K1) = Ok (0, K2)" "pt_ok kend ps' pgdir K2"
        "ps' = q # qs \<or> (\<exists>t. q # qs = t # ps')" "tabs K2 pgdir \<subseteq> tabs K pgdir \<union> (set (q # qs) - set ps')"
        "m \<notin> tabs K2 pgdir"
        "\<forall>b. PDX b < 510 \<longrightarrow> pte_of K2 pgdir b = (if same_slot b a then v2p m + 7 else pte_of K pgdir b)"
        "\<forall>x. m \<le> x \<and> x < m + 4096 \<longrightarrow> pmem K2 x = 0" "keeps (insert pgdir (tabs K pgdir \<union> set ps)) K K2"
      using alloc_page [OF pt [unfolded ps] a ua _ ev, folded K1_def] unfolding ps by blast
    have sub: "set ps' \<subseteq> set (q # qs)" "length (q # qs) \<le> Suc (length ps')" using k(5) by auto
    have ev2: "\<forall>b. b mod 4096 = 0 \<and> a + 4096 \<le> b \<and> b < newsz \<longrightarrow> even (pte_of K2 pgdir b)"
    proof (intro allI impI, elim conjE)
      fix b assume b: "b mod 4096 = 0" "a + 4096 \<le> b" "b < newsz"
      then have "b < USERTOP" "b \<noteq> a" using top by auto
      then show "even (pte_of K2 pgdir b)"
        using k(8) new b user_slot(1) [OF b(1) a _ ua] user_slot(2) [OF a b(1) ua] by simp
    qed
    have len2: "2 * ((newsz - (a + 4096) + 4095) div 4096) \<le> length ps'"
      using len sub(2) ps unfolding n by simp
    have "newsz - (a + 4096) < newsz - a" "(a + 4096) mod 4096 = 0" using True a by simp_all
    from less(1) [OF this(1) k(4) this(2) top ev2 len2] obtain K' ps'' where IH: "allocuvm_loop kend pgdir (a + 4096) oldsz newsz K2 = Ok (newsz, K')"
        "pt_ok kend ps'' pgdir K'" "set ps'' \<subseteq> set ps'" "grown pgdir (a + 4096) newsz (set ps' - set ps'') K2 K'"
        "keeps (insert pgdir (tabs K2 pgdir \<union> set ps')) K2 K'"
      by blast
    have "grown pgdir a newsz (set ps - set ps'') K K'"
    proof (rule allocuvm_step [OF k(4) _ k(7) take(3,4) _ _ k(9,8) IH(3,4,5) a True top])
      show "m \<notin> set ps'" "set ps' \<subseteq> set ps" "m \<in> set ps" using sub(1) take(2) ps by auto
    qed
    moreover have "allocuvm_loop kend pgdir a oldsz newsz K = Ok (newsz, K')"
      using True k(1-3) IH(1) by (subst allocuvm_loop.simps) (simp add: PGSIZE_def)
    moreover have "keeps (insert pgdir (tabs K pgdir \<union> set ps)) K K'"
    proof (rule keeps_trans [OF k(10) IH(5)])
      show "insert pgdir (tabs K2 pgdir \<union> set ps') \<subseteq> insert pgdir (tabs K pgdir \<union> set ps)"
        using k(6) sub(1) ps by auto
    qed
    ultimately show ?thesis using IH(2,3) sub(1) ps by (intro exI [of _ K'] exI [of _ ps'']) auto
  next
    case False
    then have "grown pgdir a newsz (set ps - set ps) K K" "allocuvm_loop kend pgdir a oldsz newsz K = Ok (newsz, K)"
      by (auto simp: grown_def inj_on_def allocuvm_loop.simps)
    moreover have "keeps (insert pgdir (tabs K pgdir \<union> set ps)) K K" by (simp add: keeps_def)
    ultimately show ?thesis using pt by blast
  qed
qed


section \<open>A new address space\<close>

lemma page_bound: "page_ok kend p \<Longrightarrow> p + 1 < 2 ^ 64"
proof -
  assume "page_ok kend p"
  then have "p mod 4096 = 0" "p < 2 ^ 64" by (auto simp: page_ok_def PGSIZE_def)
  then have "p \<noteq> 2 ^ 64 - 1" by auto
  then show ?thesis using \<open>p < 2 ^ 64\<close> by auto
qed

definition new_space :: "nat \<Rightarrow> nat \<Rightarrow> nat \<Rightarrow> nat \<Rightarrow> kmem \<Rightarrow> kmem" where
  "new_space kpdpt p1 p2 p3 K = set_ent p3 510 (p2 + 1) (set_ent p3 511 (p1 + 1) (set_ent p2 0 (v2p p3 + 7)
     (set_ent p1 0 (v2p p2 + 7) (set_ent p1 511 (v2p kpdpt + 7) (fill p3 0 (fill p2 0 (fill p1 0 K)))))))"

lemma setupkvm_ok:
  assumes K: "kmem_inv kend K (p1 # p2 # p3 # ps)" and kend: "KERNBASE \<le> kend" and kp: "page_ok kend kpdpt"
    and nk: "kpdpt \<notin> set (p1 # p2 # p3 # ps)"
  shows "\<exists>K'. setupkvm kpdpt K = Ok (p3, K') \<and> pt_ok kend ps p3 K' \<and> (\<forall>va. PDX va < 510 \<longrightarrow> pte_of K' p3 va = 0)
    \<and> ent p3 511 K' = p1 + 1 \<and> ent p1 511 K' = v2p kpdpt + 7 \<and> ent p1 0 K' = v2p p2 + 7 \<and> ent p2 0 K' = v2p p3 + 7
    \<and> keeps {p1, p2, p3} K K' \<and> (\<forall>i < 510. ent p3 i K' = 0)
    \<and> (\<forall>i. 0 < i \<and> i < 511 \<longrightarrow> ent p1 i K' = 0) \<and> (\<forall>i. 0 < i \<and> i < 512 \<longrightarrow> ent p2 i K' = 0)"
proof -
  note a1 = kalloc_first [OF K]
  note a2 = kalloc_first [OF conjunct2 [OF a1]]
  note a3 = kalloc_first [OF conjunct2 [OF a2]]
  define K3 where "K3 = K\<lparr>freelist := rd64 (pmem K) p3\<rparr>"
  have inv: "kmem_inv kend K3 ps" using a3 by (simp add: K3_def)
  have ok: "page_ok kend p1" "page_ok kend p2" "page_ok kend p3" and ne: "distinct (p1 # p2 # p3 # ps)"
    using K by (auto simp: kmem_inv_def)
  then have nz: "p1 \<noteq> 0" "p2 \<noteq> 0" "p3 \<noteq> 0" by (auto simp: page_ok_def)
  have al: "p1 mod 4096 = 0" "p2 mod 4096 = 0" "p3 mod 4096 = 0" using ok by (auto simp: page_ok_def PGSIZE_def)
  note e = pte_or(1) [OF page_phys(2) [OF _ kend]] pte_or(3)
  have b: "v2p p + 7 < 2 ^ 64" if "page_ok kend p" for p using page_phys(3) [OF that kend] by (simp add: PHYSTOP_def)
  let ?K = "new_space kpdpt p1 p2 p3 K3"
  have code: "setupkvm kpdpt K = Ok (p3, ?K)"
    unfolding setupkvm_def new_space_def using a1 a2 a3 nz by (simp add: e ok kp al K3_def)
  have ents: "ent p3 i ?K = (if i = 510 then p2 + 1 else if i = 511 then p1 + 1 else 0)" if "i < 512" for i
    unfolding new_space_def using that ne al b [OF ok(2)] b [OF ok(3)] b [OF kp] page_bound [OF ok(1)] page_bound [OF ok(2)]
    by (simp add: ent_set_ent ent_fill)
  have "ent p1 511 ?K = v2p kpdpt + 7" "ent p1 0 ?K = v2p p2 + 7" "ent p2 0 ?K = v2p p3 + 7"
    "\<forall>i. 0 < i \<and> i < 511 \<longrightarrow> ent p1 i ?K = 0" "\<forall>i. 0 < i \<and> i < 512 \<longrightarrow> ent p2 i ?K = 0"
    unfolding new_space_def using ne al b [OF ok(2)] b [OF ok(3)] b [OF kp] page_bound [OF ok(1)] page_bound [OF ok(2)]
    by (simp_all add: ent_set_ent ent_fill)
  moreover have "kmem_inv kend ?K ps"
    unfolding new_space_def using inv ne al by (intro kmem_inv_set_ent kmem_inv_fill) auto
  then have "pt_ok kend ps p3 ?K" using kend ok(3) ne ents by (simp add: pt_ok_def)
  moreover have "\<forall>va. PDX va < 510 \<longrightarrow> pte_of ?K p3 va = 0" using ents by (simp add: pte_of_def)
  moreover have "keeps {p1, p2, p3} K ?K"
  proof (unfold keeps_def, intro allI impI, elim conjE)
    fix q x assume q: "q mod 4096 = 0" "q \<notin> {p1, p2, p3}" "q \<le> x" "x < q + 4096"
    have "x < p \<or> p + 4096 \<le> x" if "p mod 4096 = 0" "p \<noteq> q" for p
      using page_apart [of q p] that q by (auto simp: PGSIZE_def)
    then have "x < p1 \<or> p1 + 4096 \<le> x" "x < p2 \<or> p2 + 4096 \<le> x" "x < p3 \<or> p3 + 4096 \<le> x" using al q(2) by auto
    then show "pmem ?K x = pmem K x" by (simp add: new_space_def pmem_set_ent pmem_fill K3_def)
  qed
  ultimately show ?thesis using code ents by (intro exI [of _ ?K]) simp
qed


lemma keeps_ent:
  assumes "keeps S K K'" and "q mod 4096 = 0" "q \<notin> S" "j < 512"
  shows "ent q j K' = ent q j K"
  unfolding ent_def using keepsD [OF assms(1-3)] assms(4) by (intro rd64_cong) auto

definition kvm_pages :: "kvm \<Rightarrow> nat set" where
  "kvm_pages v = {k_pml4 v, k_pdpt v, k_pgdir0 v, k_pgdir1 v, k_iopgdir v}"

lemma kvm_tables_keeps:
  assumes "keeps S K K'" and "kvm_tables v K" and "\<forall>p \<in> kvm_pages v. p mod 4096 = 0 \<and> p \<notin> S"
  shows "kvm_tables v K'"
  using assms(2,3) keeps_ent [OF assms(1)] by (simp add: kvm_tables_def kvm_pages_def)

text \<open>Addresses that no table maps.\<close>

lemma hw_walk_absent:
  assumes "ent (p2v cr3) 0 K = v2p p2 + 7" "v2p p2 mod 4096 = 0" "p2v (v2p p2) = p2"
    and "\<forall>i. 0 < i \<and> i < 511 \<longrightarrow> ent (p2v cr3) i K = 0" and "\<forall>i. 0 < i \<and> i < 512 \<longrightarrow> ent p2 i K = 0"
    and "2 ^ 30 \<le> va" "va < 511 * 2 ^ 39"
  shows "hw_walk K cr3 va = None"
proof (cases "va div 2 ^ 39 = 0")
  case True
  then have "0 < va div 2 ^ 30 mod 512" "va div 2 ^ 39 mod 512 = 0" using assms(6) by (auto simp: div_eq_0_iff)
  moreover have "PTE_ADDR (v2p p2 + 7) = v2p p2" using pte_addr assms(2) by simp
  ultimately show ?thesis unfolding hw_walk_def Let_def using assms(1,3,5) by simp
next
  case False
  moreover have "va div 2 ^ 39 < 511" using assms(7) by (simp add: less_mult_imp_div_less)
  ultimately show ?thesis unfolding hw_walk_def Let_def using assms(4) by simp
qed

lemma hw_walk_unmapped:
  assumes "va < USERTOP" and "ent (p2v cr3) 0 K = v2p p2 + 7" "v2p p2 mod 4096 = 0" "p2v (v2p p2) = p2"
    and "ent p2 0 K = v2p p3 + 7" "v2p p3 mod 4096 = 0" "p2v (v2p p3) = p3" and "ent p3 (PDX va) K = 0"
  shows "hw_walk K cr3 va = None"
proof -
  have i: "va div 2 ^ 39 mod 512 = 0" "va div 2 ^ 30 mod 512 = 0" using assms(1) by (simp_all add: USERTOP_def)
  have "PTE_ADDR (v2p p2 + 7) = v2p p2" "PTE_ADDR (v2p p3 + 7) = v2p p3" using pte_addr assms(3,6) by simp_all
  then show ?thesis unfolding hw_walk_def Let_def i using assms by (simp add: PDX_def)
qed

lemma keeps_tss: "p mod 4096 = 0 \<Longrightarrow> keeps {p} K (K\<lparr>pmem := tss_set_rsp (p + 1024) 0 rsp (pmem K)\<rparr>)"
  by (rule keeps_store [of p]) (auto simp: tss_set_rsp_def wr32_def)

lemma kvm_phys:
  assumes "\<forall>p \<in> kvm_pages v. page_ok kend p" and "KERNBASE \<le> kend"
  shows "\<forall>p \<in> {k_pdpt v, k_pgdir0 v, k_pgdir1 v, k_iopgdir v}. v2p p mod 4096 = 0 \<and> p2v (v2p p) = p"
  using assms page_phys(2,4) by (auto simp: kvm_pages_def)

section \<open>Properties\<close>

lemma kvmalloc_lemma:
  assumes "kmem_inv kend K ps" and "5 \<le> length ps" and "KERNBASE \<le> kend"
  shows "\<exists>v cr3 K'. kvmalloc K = Ok (v, cr3, K') \<and> kvm_tables v K' \<and> cr3 = v2p (k_pml4 v) \<and> (\<forall>p \<in> kvm_pages v. page_ok kend p)
    \<and> (\<forall>a < 2 ^ 31. hw_walk K' cr3 (KERNBASE + a) = Some a)
    \<and> (\<forall>a < 2 ^ 25. hw_walk K' cr3 (DEVBASE + a) = Some (DEVSPACE + a))"
proof -
  obtain p1 p2 p3 p4 p5 qs where ps: "ps = p1 # p2 # p3 # p4 # p5 # qs"
    using assms(2) by (auto simp: numeral_eq_Suc Suc_le_length_iff)
  let ?v = "\<lparr>k_pml4 = p1, k_pdpt = p2, k_iopgdir = p5, k_pgdir0 = p3, k_pgdir1 = p4\<rparr>"
  obtain K' where K': "kvmalloc K = Ok (?v, v2p p1, K')" "kvm_tables ?v K'"
    using kvmalloc_tables [OF assms(1) [unfolded ps] assms(3)] by blast
  have ok: "\<forall>p \<in> kvm_pages ?v. page_ok kend p" using assms(1) ps by (auto simp: kmem_inv_def kvm_pages_def)
  have top: "ent (p2v (v2p p1)) 511 K' = v2p (k_pdpt ?v) + 3"
    using K'(2) page_phys(4) [of kend p1] ok assms(3) by (simp add: kvm_tables_def kvm_pages_def)
  note tr = kvm_translates [OF K'(2) kvm_phys [OF ok assms(3)] top]
  show ?thesis using K' ok tr by (intro exI [of _ ?v] exI [of _ "v2p p1"] exI [of _ K']) simp
qed

text \<open>
  C23: With five free pages \<^verbatim>\<open>kvmalloc\<close> builds page tables under which the processor translates the 2 GB from
  \<^verbatim>\<open>KERNBASE\<close> on to the physical addresses from 0 on, and the 32 MB from \<^verbatim>\<open>DEVBASE\<close> on to those from \<^verbatim>\<open>DEVSPACE\<close> on.
\<close>

theorem kvmalloc_linear_map:
  assumes "kmem_inv kend K ps" and "5 \<le> length ps" and "KERNBASE \<le> kend"
  shows "\<exists>v cr3 K'. kvmalloc K = Ok (v, cr3, K')
    \<and> (\<forall>a < 2 ^ 31. hw_walk K' cr3 (KERNBASE + a) = Some a)
    \<and> (\<forall>a < 2 ^ 25. hw_walk K' cr3 (DEVBASE + a) = Some (DEVSPACE + a))"
  using kvmalloc_lemma [OF assms] by blast

definition demo_mem :: kmem where
  "demo_mem = \<lparr>use_lock = False, freelist = 0, pmem = \<lambda>_. 0\<rparr>"

lemma demo_free:
  assumes "n \<le> 256"
  shows "\<exists>K ps. kmem_inv (KERNBASE + 0x100000) K ps \<and> length ps = n \<and> page_ok (KERNBASE + 0x100000) (KERNBASE + 0x200000)
     \<and> KERNBASE + 0x200000 \<notin> set ps"
proof -
  let ?v = "KERNBASE + 0x100000 + n * 4096"
  have r: "PGROUNDUP (KERNBASE + 0x100000) = KERNBASE + 0x100000"
    by (simp add: PGROUNDUP_def KERNBASE_def PGSIZE_def)
  have "?v \<le> KERNBASE + PHYSTOP" using assms by (simp add: PHYSTOP_def)
  then obtain K where "kmem_inv (KERNBASE + 0x100000) K (rev (pages (KERNBASE + 0x100000) ?v))"
    using kinit1_ok [of demo_mem "KERNBASE + 0x100000" "KERNBASE + 0x100000" ?v] r by (auto simp: demo_mem_def)
  moreover have "length (pages (KERNBASE + 0x100000) ?v) = n"
    by (simp add: pages_def PGSIZE_def)
  moreover have "KERNBASE + 0x200000 \<notin> set (pages (KERNBASE + 0x100000) ?v)"
    using assms by (auto simp: pages_def PGSIZE_def)
  moreover have "page_ok (KERNBASE + 0x100000) (KERNBASE + 0x200000)"
    by (simp add: page_ok_def PGSIZE_def KERNBASE_def v2p_def PHYSTOP_def)
  ultimately show ?thesis by (metis length_rev set_rev)
qed

theorem kvmalloc_linear_map_witness:
  "\<exists>K ps v cr3 K'. kmem_inv (KERNBASE + 0x100000) K ps \<and> length ps = 16 \<and> kvmalloc K = Ok (v, cr3, K')
     \<and> hw_walk K' cr3 (KERNBASE + 0x100000) = Some 0x100000"
proof -
  obtain K ps where K: "kmem_inv (KERNBASE + 0x100000) K ps" "length ps = 16" using demo_free [of 16] by auto
  then obtain v cr3 K' where "kvmalloc K = Ok (v, cr3, K')" "\<forall>a < 2 ^ 31. hw_walk K' cr3 (KERNBASE + a) = Some a"
    using kvmalloc_linear_map [OF K(1)] by auto
  then show ?thesis using K by (intro exI [of _ K] exI [of _ ps] exI [of _ v] exI [of _ cr3] exI [of _ K']) simp
qed


text \<open>
  C24: \<^verbatim>\<open>setupkvm\<close> followed by \<^verbatim>\<open>switchuvm\<close> gives an address space in which the kernel's 2 GB are translated as in the
  kernel's own tables, and in which no other address below the topmost 512 GB is mapped, whatever the pages contained before.  The
  4 MB from \<open>USERTOP\<close> to 1 GB are left out: their two entries of the page directory hold the pointers back to the upper
  tables, which the code marks present.
\<close>

theorem setupkvm_address_space:
  assumes "kmem_inv kend K ps" and "3 \<le> length ps" and "KERNBASE \<le> kend"
    and "kvm_tables v K" and "\<forall>p \<in> kvm_pages v. page_ok kend p \<and> p \<notin> set ps"
    and "page_ok kend loc" and "loc \<notin> set ps" and "loc \<notin> kvm_pages v"
  shows "\<exists>pgdir K' cr3 K''. setupkvm (k_pdpt v) K = Ok (pgdir, K') \<and> switchuvm loc pgdir kstack K' = Ok (cr3, K'')
    \<and> (\<forall>a < 2 ^ 31. hw_walk K'' cr3 (KERNBASE + a) = Some a) 
    \<and> (\<forall>va < 511 * 2 ^ 39. va < USERTOP \<or> 2 ^ 30 \<le> va \<longrightarrow> hw_walk K'' cr3 va = None)"
proof -
  obtain p1 p2 p3 qs where ps: "ps = p1 # p2 # p3 # qs" using assms(2) by (auto simp: numeral_eq_Suc Suc_le_length_iff)
  have kp: "page_ok kend (k_pdpt v)" "k_pdpt v \<notin> set ps" using assms(5) by (auto simp: kvm_pages_def)
  obtain K' where K': "setupkvm (k_pdpt v) K = Ok (p3, K')" "pt_ok kend qs p3 K'" "\<forall>va. PDX va < 510 \<longrightarrow> pte_of K' p3 va = 0"
      "ent p3 511 K' = p1 + 1" "ent p1 511 K' = v2p (k_pdpt v) + 7" "ent p1 0 K' = v2p p2 + 7" "ent p2 0 K' = v2p p3 + 7"
      "keeps {p1, p2, p3} K K'" "\<forall>i < 510. ent p3 i K' = 0"
      "\<forall>i. 0 < i \<and> i < 511 \<longrightarrow> ent p1 i K' = 0" "\<forall>i. 0 < i \<and> i < 512 \<longrightarrow> ent p2 i K' = 0"
    using setupkvm_ok [OF assms(1) [unfolded ps] assms(3) kp(1) kp(2) [unfolded ps]] by blast
  have ok: "page_ok kend p1" "page_ok kend p2" "page_ok kend p3" using assms(1) ps by (auto simp: kmem_inv_def)
  have al: "p mod 4096 = 0" if "page_ok kend p" for p using that by (simp add: page_ok_def PGSIZE_def)
  have nl: "loc \<notin> {p1, p2, p3}" using assms(7) ps by auto
  define K'' where "K'' = K'\<lparr>pmem := tss_set_rsp (loc + 1024) 0 (kstack + 4096) (pmem K')\<rparr>"
  have k: "keeps {loc} K' K''" unfolding K''_def using keeps_tss [OF al [OF assms(6)]] .
  have e: "ent p i K'' = ent p i K'" if "p \<in> {p1, p2, p3}" "i < 512" for p i
    using keeps_ent [OF k] that nl al ok by auto
  note ph = page_phys [OF _ assms(3)]
  have "PTE_ADDR (p1 + 1) = p1" using pte_addr [OF al [OF ok(1)], of 1] by simp
  then have code: "switchuvm loc p3 kstack K' = Ok (v2p p1, K'')"
    using e [of p3 511] K'(4) ok(3) by (simp add: switchuvm_def K''_def Let_def page_ok_def)
  have "kvm_tables v K'" using kvm_tables_keeps [OF K'(8) assms(4)] assms(5) al ps by auto
  then have "kvm_tables v K''" using kvm_tables_keeps [OF k] assms(5,8) al by auto
  moreover have "\<forall>p \<in> kvm_pages v. page_ok kend p" using assms(5) by blast
  note phys = kvm_phys [OF this assms(3)]
  ultimately have kern: "hw_walk K'' (v2p p1) (KERNBASE + a) = Some a" if "a < 2 ^ 31" for a
    using kvm_translates(1) [of v K'' "v2p p1" 7 a] that e [of p1 511] K'(5) ph(4) [OF ok(1)] by simp
  have "hw_walk K'' (v2p p1) va = None" if "va < USERTOP" for va
  proof (rule hw_walk_unmapped [OF that _ ph(2,4) [OF ok(2)] _ ph(2,4) [OF ok(3)]])
    have "va div 2 ^ 21 < 510" using that by (simp add: USERTOP_def less_mult_imp_div_less)
    then have "PDX va < 510" by (simp add: PDX_def)
    then show "ent p3 (PDX va) K'' = 0" using e [of p3 "PDX va"] K'(9) by simp
  qed (use e [of p1 0] e [of p2 0] K'(6,7) ph(4) [OF ok(1)] in simp_all)
  moreover have "hw_walk K'' (v2p p1) va = None" if "2 ^ 30 \<le> va" "va < 511 * 2 ^ 39" for va
    by (rule hw_walk_absent [OF _ ph(2,4) [OF ok(2)] _ _ that]) (use e K'(6,10,11) ph(4) [OF ok(1)] in simp_all)
  ultimately have "hw_walk K'' (v2p p1) va = None" if "va < 511 * 2 ^ 39" "va < USERTOP \<or> 2 ^ 30 \<le> va" for va
    using that by blast
  with kern code K'(1) show ?thesis by blast
qed

theorem setupkvm_address_space_witness:
  "\<exists>v K pgdir K' cr3 K''. kvm_tables v K \<and> setupkvm (k_pdpt v) K = Ok (pgdir, K')
     \<and> switchuvm (KERNBASE + 0x200000) pgdir 0 K' = Ok (cr3, K'')
     \<and> hw_walk K'' cr3 (KERNBASE + 7) = Some 7 \<and> hw_walk K'' cr3 0 = None
     \<and> hw_walk K'' cr3 0x40000000 = None"
proof -
  let ?e = "KERNBASE + 0x100000"
  obtain K0 ps where K0: "kmem_inv ?e K0 ps" "length ps = 16" "page_ok ?e (KERNBASE + 0x200000)" "KERNBASE + 0x200000 \<notin> set ps"
    using demo_free [of 16] by auto
  have "5 \<le> length ps" using K0(2) by simp
  then obtain p1 p2 p3 p4 p5 qs where ps: "ps = p1 # p2 # p3 # p4 # p5 # qs"
    by (auto simp: numeral_eq_Suc Suc_le_length_iff)
  let ?v = "\<lparr>k_pml4 = p1, k_pdpt = p2, k_iopgdir = p5, k_pgdir0 = p3, k_pgdir1 = p4\<rparr>"
  obtain K where K: "kvm_tables ?v K" "kmem_inv ?e K qs"
    using kvmalloc_tables [OF K0(1) [unfolded ps]] by auto
  have pg: "\<forall>p \<in> kvm_pages ?v. page_ok ?e p \<and> p \<notin> set qs" "KERNBASE + 0x200000 \<notin> kvm_pages ?v" "KERNBASE + 0x200000 \<notin> set qs"
    using K0(1,4) ps by (auto simp: kmem_inv_def kvm_pages_def)
  have "3 \<le> length qs" "KERNBASE \<le> ?e" using K0(2) ps by simp_all
  from setupkvm_address_space [OF K(2) this K(1) pg(1) K0(3) pg(3,2), of 0]
  obtain pgdir K' cr3 K'' where "setupkvm (k_pdpt ?v) K = Ok (pgdir, K')" "switchuvm (KERNBASE + 0x200000) pgdir 0 K' = Ok (cr3, K'')"
      "\<forall>a < 2 ^ 31. hw_walk K'' cr3 (KERNBASE + a) = Some a"
      "\<forall>va < 511 * 2 ^ 39. va < USERTOP \<or> 2 ^ 30 \<le> va \<longrightarrow> hw_walk K'' cr3 va = None"
    by blast
  moreover from this have "hw_walk K'' cr3 (KERNBASE + 7) = Some 7" "hw_walk K'' cr3 0 = None" "hw_walk K'' cr3 0x40000000 = None"
    by (simp_all add: USERTOP_def)
  ultimately show ?thesis using K(1) by blast
qed


text \<open>
  C25: With two free pages for every page to be added, \<^verbatim>\<open>allocuvm\<close> returns the new size, and the page directory then maps
  every page from the old size (rounded up) to the new one, present, writable and for the user, to a page of its own
  that was free and is all zeroes; every other translation of a user address is as before.
\<close>

theorem allocuvm_grows:
  assumes "pt_ok kend ps pgdir K" and "oldsz \<le> newsz" "newsz \<le> USERTOP"
    and "\<forall>b. b mod 4096 = 0 \<and> PGROUNDUP oldsz \<le> b \<and> b < newsz \<longrightarrow> even (pte_of K pgdir b)"
    and "2 * ((newsz - PGROUNDUP oldsz + 4095) div 4096) \<le> length ps"
  shows "\<exists>K' ps'. allocuvm kend pgdir oldsz newsz K = Ok (newsz, K') \<and> pt_ok kend ps' pgdir K' \<and> set ps' \<subseteq> set ps
    \<and> inj_on (pte_of K' pgdir) {b. b mod 4096 = 0 \<and> PGROUNDUP oldsz \<le> b \<and> b < newsz}
    \<and> (\<forall>b. b mod 4096 = 0 \<and> b < USERTOP \<longrightarrow>
        (if PGROUNDUP oldsz \<le> b \<and> b < newsz then fresh_page K' (set ps - set ps') (pte_of K' pgdir b)
         else pte_of K' pgdir b = pte_of K pgdir b))"
proof -
  have "PGROUNDUP oldsz mod 4096 = 0" using PGROUNDUP_aligned by (simp add: PGSIZE_def)
  from allocuvm_loop_ok [OF assms(1) this assms(3-5), of oldsz]
  obtain K' ps' where "allocuvm_loop kend pgdir (PGROUNDUP oldsz) oldsz newsz K = Ok (newsz, K')" "pt_ok kend ps' pgdir K'"
      "set ps' \<subseteq> set ps" "grown pgdir (PGROUNDUP oldsz) newsz (set ps - set ps') K K'"
    by blast
  moreover have "allocuvm kend pgdir oldsz newsz K = allocuvm_loop kend pgdir (PGROUNDUP oldsz) oldsz newsz K"
    using assms(2) by (simp add: allocuvm_def)
  ultimately show ?thesis unfolding grown_def by (intro exI [of _ K'] exI [of _ ps']) simp
qed

lemma demo_space:
  assumes "n \<le> 200"
  shows "\<exists>K ps pgdir. pt_ok (KERNBASE + 0x100000) ps pgdir K \<and> length ps = n \<and> (\<forall>va. PDX va < 510 \<longrightarrow> pte_of K pgdir va = 0)
     \<and> (\<forall>i < 510. ent pgdir i K = 0)"
proof -
  let ?e = "KERNBASE + 0x100000"
  obtain K0 ps where K0: "kmem_inv ?e K0 ps" "length ps = n + 3" "page_ok ?e (KERNBASE + 0x200000)" "KERNBASE + 0x200000 \<notin> set ps"
    using demo_free [of "n + 3"] assms by auto
  have "3 \<le> length ps" using K0(2) by simp
  then obtain p1 p2 p3 qs where ps: "ps = p1 # p2 # p3 # qs" by (auto simp: numeral_eq_Suc Suc_le_length_iff)
  have "length qs = n" using K0(2) ps by simp
  then show ?thesis using setupkvm_ok [OF K0(1) [unfolded ps] _ K0(3) K0(4) [unfolded ps]] by auto
qed

theorem allocuvm_grows_witness:
  "\<exists>K ps pgdir K' ps'. pt_ok (KERNBASE + 0x100000) ps pgdir K \<and> allocuvm (KERNBASE + 0x100000) pgdir 0 5000 K = Ok (5000, K')
     \<and> fresh_page K' (set ps - set ps') (pte_of K' pgdir 0) \<and> fresh_page K' (set ps - set ps') (pte_of K' pgdir 4096)
     \<and> pte_of K' pgdir 8192 = 0"
proof -
  obtain K ps pgdir where K: "pt_ok (KERNBASE + 0x100000) ps pgdir K" "length ps = 13" "\<forall>va. PDX va < 510 \<longrightarrow> pte_of K pgdir va = 0"
    using demo_space [of 13] by auto
  have r: "PGROUNDUP 0 = 0" by (simp add: PGROUNDUP_def PGSIZE_def)
  have "even (pte_of K pgdir b)" if "b < 5000" for b
  proof -
    have "PDX b < 510" using that by (simp add: PDX_def)
    then show ?thesis using K(3) by simp
  qed
  then obtain K' ps' where "allocuvm (KERNBASE + 0x100000) pgdir 0 5000 K = Ok (5000, K')"
      "\<forall>b. b mod 4096 = 0 \<and> b < USERTOP \<longrightarrow> (if 0 \<le> b \<and> b < 5000 then fresh_page K' (set ps - set ps') (pte_of K' pgdir b)
         else pte_of K' pgdir b = pte_of K pgdir b)"
    using allocuvm_grows [OF K(1), of 0 5000] K(2) r by (auto simp: USERTOP_def)
  moreover from this(2) [rule_format, of 0] this(2) [rule_format, of 4096] this(2) [rule_format, of 8192]
  have "fresh_page K' (set ps - set ps') (pte_of K' pgdir 0)" "fresh_page K' (set ps - set ps') (pte_of K' pgdir 4096)"
    "pte_of K' pgdir 8192 = 0" using K(3) by (simp_all add: USERTOP_def PDX_def)
  ultimately show ?thesis using K(1) by blast
qed

text \<open>
  C38: \<^verbatim>\<open>allocuvm\<close> ignores the result of \<^verbatim>\<open>mappages\<close>: when the last free page is taken for the memory and none is left for a
  missing page table, it reports success although the address is not mapped.
\<close>

theorem allocuvm_unmapped_success:
  assumes "pt_ok kend [m] pgdir K" and "even (ent pgdir 0 K)"
  shows "\<exists>K'. allocuvm kend pgdir 0 PGSIZE K = Ok (PGSIZE, K') \<and> freelist K' = 0 \<and> pte_of K' pgdir 0 = 0"
proof -
  note d = pt_okD [OF assms(1)]
  let ?K = "K\<lparr>freelist := rd64 (pmem K) m\<rparr>"
  have k: "kalloc K = (m, ?K)" "m \<noteq> 0" "freelist ?K = 0"
    using kalloc_first [OF d(2)] d(2) by (auto simp: kmem_inv_def page_ok_def)
  note t = pt_ok_take [OF assms(1)]
  have "pte_of K pgdir 0 = 0" using assms(2) by (simp add: pte_of_def PDX_def)
  then have z: "pte_of (fill m 0 ?K) pgdir 0 = 0" using t(2) [of 0] by (simp add: PDX_def)
  have "m mod 4096 = 0" using t(7) by (simp add: page_ok_def PGSIZE_def)
  then have e: "even (ent pgdir 0 (fill m 0 ?K))" using ent_fill [of m pgdir 0 ?K] d(5) t(6) assms(2) by simp
  have f: "freelist (fill m 0 ?K) = 0" using k(3) by (simp add: fill_def)
  then have "walkpgdir pgdir 0 True (fill m 0 ?K) = (0, fill m 0 ?K)"
    using e and_1_iff by (simp add: walkpgdir_def Let_def PDX_def kalloc_def)
  then have "mappages pgdir 0 PGSIZE (v2p m) (PTE_W OR PTE_U) (fill m 0 ?K) = Ok (-1, fill m 0 ?K)"
    by (simp add: mappages_one)
  then have "allocuvm kend pgdir 0 PGSIZE K = Ok (PGSIZE, fill m 0 ?K)"
    using k(1,2) by (simp add: allocuvm_def PGROUNDUP_def allocuvm_loop.simps [of kend pgdir 0]
        allocuvm_loop.simps [of kend pgdir 4096] PGSIZE_def)
  then show ?thesis using f z by blast
qed


theorem allocuvm_unmapped_success_witness:
  "\<exists>K m pgdir K'. pt_ok (KERNBASE + 0x100000) [m] pgdir K
     \<and> allocuvm (KERNBASE + 0x100000) pgdir 0 PGSIZE K = Ok (PGSIZE, K') \<and> pte_of K' pgdir 0 = 0"
proof -
  obtain K ps pgdir where K: "pt_ok (KERNBASE + 0x100000) ps pgdir K" "length ps = 1" "\<forall>i < 510. ent pgdir i K = 0"
    using demo_space [of 1] by auto
  then obtain m where "ps = [m]" by (auto simp: length_Suc_conv)
  with allocuvm_unmapped_success [of "KERNBASE + 0x100000" m pgdir K] K show ?thesis by auto
qed

end
