(* ===== verification/Spinlock.thy ===== *)
theory Spinlock
  imports Kalloc
begin

text \<open>
  \<^verbatim>\<open>kernel/spinlock.c\<close>: spin locks and the nesting of \<^verbatim>\<open>cli\<close>/\<^verbatim>\<open>sti\<close>.  One lock is modelled with all the processors that
  use it; \<^verbatim>\<open>acquire\<close> and \<^verbatim>\<open>release\<close> are the steps between their accesses to shared memory, so that the steps of
  different processors interleave.
\<close>

section \<open>Interrupts\<close>

text \<open>Of \<^verbatim>\<open>struct cpu\<close> the nesting depth and the saved flag; \<open>c_if\<close> is \<^verbatim>\<open>FL_IF\<close> of the processor itself.\<close>

record cpu =
  ncli :: int
  intena :: bool
  c_if :: bool

definition pushcli :: "cpu \<Rightarrow> cpu" where
  "pushcli c =
     (let eflags = c_if c; c = c\<lparr>c_if := False\<rparr>; n = ncli c; c = c\<lparr>ncli := n + 1\<rparr>
      in if n = 0 then c\<lparr>intena := eflags\<rparr> else c)"

definition popcli :: "cpu \<Rightarrow> cpu res" where
  "popcli c =
     (if c_if c then Panic ''popcli - interruptible''
      else
        let c = c\<lparr>ncli := ncli c - 1\<rparr>
        in if ncli c < 0 then Panic ''popcli''
           else Ok (if ncli c = 0 \<and> intena c then c\<lparr>c_if := True\<rparr> else c))"

section \<open>The lock\<close>

record spinlock =
  locked :: nat
  lk_name :: string
  lk_cpu :: "nat option"
  lk_pcs :: "nat list"

definition initlock :: "string \<Rightarrow> spinlock \<Rightarrow> spinlock" where
  "initlock name lk = lk\<lparr>lk_name := name, locked := 0, lk_cpu := None\<rparr>"

text \<open>Whether processor \<open>c\<close> holds the lock.\<close>

definition holding :: "nat \<Rightarrow> spinlock \<Rightarrow> bool" where
  "holding c lk \<longleftrightarrow> locked lk \<noteq> 0 \<and> lk_cpu lk = Some c"

text \<open>The saved program counters on the frames that start at \<^verbatim>\<open>ebp\<close>.\<close>

fun stackpcs :: "mem \<Rightarrow> nat \<Rightarrow> nat \<Rightarrow> nat list" where
  "stackpcs m 0 ebp = []"
| "stackpcs m (Suc n) ebp =
     (if ebp = 0 \<or> ebp < KERNBASE \<or> ebp = 0xffffffff then []
      else rd64 m (ebp + 8) # stackpcs m n (rd64 m ebp))"

definition getstackpcs :: "mem \<Rightarrow> nat \<Rightarrow> nat list" where
  "getstackpcs m ebp = (let l = stackpcs m 10 ebp in l @ replicate (10 - length l) 0)"

text \<open>
  Where a processor is: outside; in \<^verbatim>\<open>acquire\<close> before the check, before the \<^verbatim>\<open>xchg\<close>, before the record; in the critical
  section; in \<^verbatim>\<open>release\<close> before the two stores, before the \<^verbatim>\<open>xchg\<close>, before \<^verbatim>\<open>popcli\<close>.
\<close>

datatype lpc = Outside | Acq_check | Acq_xchg | Acq_record | Inside | Rel_clear | Rel_xchg | Rel_pop | Stopped

record lsys =
  lk :: spinlock
  cpus :: "nat \<Rightarrow> cpu"
  pc :: "nat \<Rightarrow> lpc"

definition set_pc :: "nat \<Rightarrow> lpc \<Rightarrow> lsys \<Rightarrow> lsys" where
  "set_pc c p S = S\<lparr>pc := (pc S)(c := p)\<rparr>"

definition set_cpu :: "nat \<Rightarrow> cpu \<Rightarrow> lsys \<Rightarrow> lsys" where
  "set_cpu c x S = S\<lparr>cpus := (cpus S)(c := x)\<rparr>"

text \<open>\<^verbatim>\<open>acquire\<close>, from its call on processor \<open>c\<close> to its return, one step at a time; \<open>pcs\<close> is what \<^verbatim>\<open>getcallerpcs\<close> stores.\<close>

definition acquire_step :: "nat \<Rightarrow> nat list \<Rightarrow> lsys \<Rightarrow> lsys" where
  "acquire_step c pcs S =
     (case pc S c of
        Outside \<Rightarrow> set_pc c Acq_check (set_cpu c (pushcli (cpus S c)) S)
      | Acq_check \<Rightarrow> if holding c (lk S) then set_pc c Stopped S else set_pc c Acq_xchg S
      | Acq_xchg \<Rightarrow>
          let old = locked (lk S); S = S\<lparr>lk := (lk S)\<lparr>locked := 1\<rparr>\<rparr>
          in if old \<noteq> 0 then S else set_pc c Acq_record S
      | Acq_record \<Rightarrow> set_pc c Inside (S\<lparr>lk := (lk S)\<lparr>lk_cpu := Some c, lk_pcs := pcs\<rparr>\<rparr>)
      | _ \<Rightarrow> S)"

definition release_step :: "nat \<Rightarrow> lsys \<Rightarrow> lsys" where
  "release_step c S =
     (case pc S c of
        Inside \<Rightarrow> if \<not> holding c (lk S) then set_pc c Stopped S else set_pc c Rel_clear S
      | Rel_clear \<Rightarrow> set_pc c Rel_xchg (S\<lparr>lk := (lk S)\<lparr>lk_pcs := (lk_pcs (lk S))[0 := 0], lk_cpu := None\<rparr>\<rparr>)
      | Rel_xchg \<Rightarrow> set_pc c Rel_pop (S\<lparr>lk := (lk S)\<lparr>locked := 0\<rparr>\<rparr>)
      | Rel_pop \<Rightarrow>
          (case popcli (cpus S c) of Ok x \<Rightarrow> set_pc c Outside (set_cpu c x S) | _ \<Rightarrow> set_pc c Stopped S)
      | _ \<Rightarrow> S)"

text \<open>
  The processors together.  A processor outside may run with interrupts on or off.
\<close>

inductive lock_step :: "lsys \<Rightarrow> lsys \<Rightarrow> bool" where
  ls_acquire: "lock_step S (acquire_step c pcs S)"
| ls_release: "lock_step S (release_step c S)"
| ls_outside: "pc S c = Outside \<Longrightarrow> lock_step S (set_cpu c ((cpus S c)\<lparr>c_if := b\<rparr>) S)"

definition lock_init :: "string \<Rightarrow> spinlock \<Rightarrow> lsys \<Rightarrow> bool" where
  "lock_init name l S \<longleftrightarrow> lk S = initlock name l \<and> (\<forall>c. pc S c = Outside \<and> ncli (cpus S c) = 0)"

section \<open>The invariant\<close>

definition owns :: "lpc \<Rightarrow> bool" where
  "owns p \<longleftrightarrow> p \<in> {Acq_record, Inside, Rel_clear, Rel_xchg}"

lemmas lock_defs = set_pc_def set_cpu_def holding_def

text \<open>The lock together with the processor that has it, if any.\<close>

definition lock_inv :: "nat option \<Rightarrow> lsys \<Rightarrow> bool" where
  "lock_inv ow S \<longleftrightarrow>
     (\<forall>c. owns (pc S c) \<longleftrightarrow> ow = Some c) \<and> (locked (lk S) \<noteq> 0 \<longleftrightarrow> ow \<noteq> None)
     \<and> (\<forall>c. lk_cpu (lk S) = Some c \<longleftrightarrow> pc S c = Inside \<or> pc S c = Rel_clear)
     \<and> (\<forall>c. pc S c \<noteq> Stopped \<and> ncli (cpus S c) = (if pc S c = Outside then 0 else 1)
          \<and> (pc S c \<noteq> Outside \<longrightarrow> \<not> c_if (cpus S c)))"

lemma lock_invD:
  assumes "lock_inv ow S"
  shows "owns (pc S c) \<longleftrightarrow> ow = Some c" "locked (lk S) \<noteq> 0 \<longleftrightarrow> ow \<noteq> None"
    "lk_cpu (lk S) = Some c \<longleftrightarrow> pc S c = Inside \<or> pc S c = Rel_clear" "pc S c \<noteq> Stopped"
    "ncli (cpus S c) = (if pc S c = Outside then 0 else 1)" "pc S c \<noteq> Outside \<Longrightarrow> \<not> c_if (cpus S c)"
  using assms by (auto simp: lock_inv_def)

lemma lock_init_inv: "lock_init name l S \<Longrightarrow> lock_inv None S"
  by (simp add: lock_init_def lock_inv_def initlock_def owns_def)

lemma owns_simps [simp]:
  "\<not> owns Outside" "\<not> owns Acq_check" "\<not> owns Acq_xchg" "owns Acq_record" "owns Inside" "owns Rel_clear"
  "owns Rel_xchg" "\<not> owns Rel_pop" "\<not> owns Stopped"
  by (simp_all add: owns_def)

text \<open>A step of one processor, given by what it does to its own program counter, flags and the lock.\<close>

lemma lock_inv_upd:
  assumes "lock_inv ow S" and "\<And>d. d \<noteq> c \<Longrightarrow> pc S' d = pc S d \<and> cpus S' d = cpus S d"
    and "\<And>d. d \<noteq> c \<Longrightarrow> owns (pc S d) \<longleftrightarrow> ow' = Some d" and "owns (pc S' c) \<longleftrightarrow> ow' = Some c"
    and "locked (lk S') \<noteq> 0 \<longleftrightarrow> ow' \<noteq> None"
    and "\<And>d. d \<noteq> c \<Longrightarrow> lk_cpu (lk S') = Some d \<longleftrightarrow> pc S d = Inside \<or> pc S d = Rel_clear"
    and "lk_cpu (lk S') = Some c \<longleftrightarrow> pc S' c = Inside \<or> pc S' c = Rel_clear" and "pc S' c \<noteq> Stopped"
    and "ncli (cpus S' c) = (if pc S' c = Outside then 0 else 1)" "pc S' c \<noteq> Outside \<Longrightarrow> \<not> c_if (cpus S' c)"
  shows "lock_inv ow' S'"
  unfolding lock_inv_def
proof (intro conjI allI)
  fix d
  show "owns (pc S' d) = (ow' = Some d)" using assms(2-4) by (cases "d = c") auto
  show "(lk_cpu (lk S') = Some d) = (pc S' d = Inside \<or> pc S' d = Rel_clear)"
    using assms(2,6,7) by (cases "d = c") auto
  show "pc S' d \<noteq> Stopped" "ncli (cpus S' d) = (if pc S' d = Outside then 0 else 1)"
    "pc S' d \<noteq> Outside \<longrightarrow> \<not> c_if (cpus S' d)"
    using assms(2,8-10) lock_invD(4-6) [OF assms(1), of d] by (cases "d = c"; simp)+
qed (rule assms(5))

lemma acquire_inv:
  assumes "lock_inv ow S"
  shows "\<exists>ow'. lock_inv ow' (acquire_step c pcs S)"
proof -
  let ?o = "if pc S c = Acq_xchg \<and> locked (lk S) = 0 then Some c else ow"
  note d = lock_invD [OF assms]
  have "lock_inv ?o (acquire_step c pcs S)"
  proof (rule lock_inv_upd [OF assms, where c = c])
    fix e assume "e \<noteq> c"
    then show "pc (acquire_step c pcs S) e = pc S e \<and> cpus (acquire_step c pcs S) e = cpus S e"
      by (auto simp: acquire_step_def lock_defs Let_def split: lpc.split)
    show "owns (pc S e) \<longleftrightarrow> ?o = Some e" using d(1) [of e] d(2) \<open>e \<noteq> c\<close> by auto
    show "lk_cpu (lk (acquire_step c pcs S)) = Some e \<longleftrightarrow> pc S e = Inside \<or> pc S e = Rel_clear"
      using d(3) [of e] d(1) [of e] d(1) [of c] \<open>e \<noteq> c\<close>
      by (cases "pc S c") (auto simp: acquire_step_def lock_defs Let_def)
  qed (use d(1,3-6) [of c] d(2) in \<open>(cases "pc S c"; force simp: acquire_step_def set_pc_def set_cpu_def holding_def Let_def pushcli_def)+\<close>)
  then show ?thesis by blast
qed

lemma release_inv:
  assumes "lock_inv ow S"
  shows "\<exists>ow'. lock_inv ow' (release_step c S)"
proof -
  let ?o = "if pc S c = Rel_xchg then None else ow"
  note d = lock_invD [OF assms]
  have "lock_inv ?o (release_step c S)"
  proof (rule lock_inv_upd [OF assms, where c = c])
    fix e assume "e \<noteq> c"
    then show "pc (release_step c S) e = pc S e \<and> cpus (release_step c S) e = cpus S e"
      by (auto simp: release_step_def lock_defs Let_def split: lpc.split res.split)
    show "owns (pc S e) \<longleftrightarrow> ?o = Some e" using d(1) [of e] d(1) [of c] \<open>e \<noteq> c\<close> by auto
    show "lk_cpu (lk (release_step c S)) = Some e \<longleftrightarrow> pc S e = Inside \<or> pc S e = Rel_clear"
      using d(3) [of e] d(1) [of e] d(1) [of c] \<open>e \<noteq> c\<close>
      by (cases "pc S c") (auto simp: release_step_def lock_defs Let_def split: res.split)
  qed (use d(1,3-6) [of c] d(2) in \<open>(cases "pc S c"; force simp: release_step_def set_pc_def set_cpu_def holding_def Let_def popcli_def)+\<close>)
  then show ?thesis by blast
qed

lemma lock_step_inv: "lock_step S S' \<Longrightarrow> lock_inv ow S \<Longrightarrow> \<exists>ow'. lock_inv ow' S'"
proof (induction rule: lock_step.induct)
  case (ls_outside S c b)
  then have "lock_inv ow (set_cpu c ((cpus S c)\<lparr>c_if := b\<rparr>) S)"
    by (auto simp: lock_inv_def set_cpu_def)
  then show ?case by blast
qed (simp_all add: acquire_inv release_inv)

lemma lock_reachable_inv: "lock_step\<^sup>*\<^sup>* S S' \<Longrightarrow> lock_inv ow S \<Longrightarrow> \<exists>ow'. lock_inv ow' S'"
  by (induction rule: rtranclp_induct) (auto dest: lock_step_inv)


section \<open>Properties\<close>

text \<open>
  C20: From an initialised lock, whatever the interleaving of the processors: no \<^verbatim>\<open>acquire\<close> or \<^verbatim>\<open>release\<close> of a processor
  that calls them in turn panics, at most one processor is in the critical section, and that one holds the lock and
  runs with interrupts off.
\<close>

theorem spinlock_mutual_exclusion:
  assumes "lock_init name l S" and "lock_step\<^sup>*\<^sup>* S S'"
  shows "(\<forall>c. pc S' c \<noteq> Stopped) \<and> (\<forall>c d. pc S' c = Inside \<and> pc S' d = Inside \<longrightarrow> c = d)
    \<and> (\<forall>c. pc S' c = Inside \<longrightarrow> holding c (lk S') \<and> \<not> c_if (cpus S' c))"
proof -
  obtain ow where "lock_inv ow S'" using lock_reachable_inv [OF assms(2) lock_init_inv [OF assms(1)]] by blast
  note d = lock_invD [OF this]
  have o: "pc S' c = Inside \<Longrightarrow> ow = Some c" for c using d(1) [of c] by simp
  show ?thesis
    using o d(4) d(3,6) d(2) by (auto simp: holding_def)
qed

lemma acquire_reach: "lock_step\<^sup>*\<^sup>* S T \<Longrightarrow> lock_step\<^sup>*\<^sup>* S (acquire_step c pcs T)"
  by (erule rtranclp.rtrancl_into_rtrancl) (rule ls_acquire)

definition demo_lock :: lsys where
  "demo_lock = \<lparr>lk = \<lparr>locked = 0, lk_name = ''kmem'', lk_cpu = None, lk_pcs = []\<rparr>,
     cpus = \<lambda>_. \<lparr>ncli = 0, intena = False, c_if = True\<rparr>, pc = \<lambda>_. Outside\<rparr>"

theorem spinlock_mutual_exclusion_witness:
  "\<exists>S'. lock_init ''kmem'' (lk demo_lock) demo_lock \<and> lock_step\<^sup>*\<^sup>* demo_lock S' \<and> pc S' 0 = Inside
     \<and> pc S' 1 = Acq_xchg \<and> pc S' 2 = Outside \<and> holding 0 (lk S') \<and> \<not> c_if (cpus S' 0) \<and> c_if (cpus S' 2)"
proof -
  let ?S = "acquire_step 1 [] (acquire_step 1 [] (acquire_step 1 [] (acquire_step 0 [] (acquire_step 0 []
    (acquire_step 0 [] (acquire_step 0 [] demo_lock))))))"
  have i: "lock_init ''kmem'' (lk demo_lock) demo_lock"
    by (simp add: lock_init_def demo_lock_def initlock_def)
  have s: "lock_step\<^sup>*\<^sup>* demo_lock ?S"
    by (intro acquire_reach rtranclp.rtrancl_refl)
  have "pc ?S 0 = Inside" "pc ?S 1 = Acq_xchg" "pc ?S 2 = Outside" "c_if (cpus ?S 2)"
    by (simp_all add: demo_lock_def acquire_step_def lock_defs pushcli_def)
  then show ?thesis using spinlock_mutual_exclusion [OF i s] i s by blast
qed

lemma pushcli_iter:
  assumes "ncli c = 0"
  shows "ncli ((pushcli ^^ n) c) = int n" "0 < n \<Longrightarrow> \<not> c_if ((pushcli ^^ n) c) \<and> intena ((pushcli ^^ n) c) = c_if c"
proof -
  have *: "ncli ((pushcli ^^ n) c) = int n
      \<and> (0 < n \<longrightarrow> \<not> c_if ((pushcli ^^ n) c) \<and> intena ((pushcli ^^ n) c) = c_if c)"
    by (induction n) (auto simp: pushcli_def Let_def assms)
  then show "ncli ((pushcli ^^ n) c) = int n" "0 < n \<Longrightarrow> \<not> c_if ((pushcli ^^ n) c) \<and> intena ((pushcli ^^ n) c) = c_if c"
    by auto
qed

lemma popcli_iter:
  assumes "\<not> c_if c" and "0 < ncli c" "int k \<le> ncli c"
  shows "for_each (\<lambda>_. popcli) [0..<k] c
    = Ok (c\<lparr>ncli := ncli c - int k, c_if := (int k = ncli c \<and> intena c)\<rparr>)"
  using assms
proof (induction k)
  case (Suc k)
  then have "for_each (\<lambda>_. popcli) [0..<k] c = Ok (c\<lparr>ncli := ncli c - int k, c_if := False\<rparr>)" by simp
  moreover have "popcli (c\<lparr>ncli := ncli c - int k, c_if := False\<rparr>)
      = Ok (c\<lparr>ncli := ncli c - int (Suc k), c_if := (int (Suc k) = ncli c \<and> intena c)\<rparr>)"
    using Suc.prems by (cases c) (auto simp: popcli_def Let_def)
  ultimately show ?case by (simp add: for_each_append)
qed simp

text \<open>
  C21: \<^verbatim>\<open>pushcli\<close> and \<^verbatim>\<open>popcli\<close> nest: after \<open>n\<close> pushes and fewer pops interrupts are off, and the \<open>n\<close>-th pop restores the
  interrupt flag the processor had before, without a panic.
\<close>

theorem cli_nesting:
  assumes "ncli c = 0" and "k \<le> n" and "0 < n"
  shows "\<exists>c'. for_each (\<lambda>_. popcli) [0..<k] ((pushcli ^^ n) c) = Ok c' \<and> ncli c' = int (n - k)
    \<and> c_if c' = (if k = n then c_if c else False)"
  using popcli_iter [of "(pushcli ^^ n) c" k] pushcli_iter [OF assms(1)] assms by auto

theorem cli_nesting_witness:
  "\<exists>c'. for_each (\<lambda>_. popcli) [0..<3] ((pushcli ^^ 3) \<lparr>ncli = 0, intena = False, c_if = True\<rparr>) = Ok c' \<and> c_if c'"
  using cli_nesting [of "\<lparr>ncli = 0, intena = False, c_if = True\<rparr>" 3 3] by auto

end
