(* ===== verification/Ide.thy ===== *)
theory Ide
  imports Prelude
begin

text \<open>
  The disk driver \<^verbatim>\<open>kernel/ide.c\<close>, with the part of the state the block layer shares: the array of buffers, the driver's request queue and the drives.

  The flag bits \<^verbatim>\<open>B_BUSY\<close>, \<^verbatim>\<open>B_VALID\<close>, \<^verbatim>\<open>B_DIRTY\<close> of \<^verbatim>\<open>struct buf\<close> are three booleans, a pointer to a
  buffer is its index in \<^verbatim>\<open>bcache.buf[]\<close> (the list head \<^verbatim>\<open>bcache.head\<close> is index \<^term>\<open>NBUF\<close>), and the
  chain \<^verbatim>\<open>idequeue\<close>, \<^verbatim>\<open>qnext\<close> is the list of the queued buffers.  A drive keeps the contents of its
  blocks; \<open>dtrace\<close> is the sequence of block writes the drives have carried out, in their order, and
  \<open>badsect\<close> says which sectors the drive reports an error for.
\<close>

record buf =
  b_busy :: bool
  b_valid :: bool
  b_dirty :: bool
  b_dev :: nat
  b_blockno :: nat
  b_prev :: nat
  b_next :: nat
  b_data :: "byte list"

record bstate =
  bufs :: "nat \<Rightarrow> buf"
  idequeue :: "nat list"
  havedisk1 :: bool
  disk :: "nat \<Rightarrow> nat \<Rightarrow> byte list"
  badsect :: "nat \<Rightarrow> nat \<Rightarrow> bool"
  dtrace :: "(nat \<times> nat \<times> byte list) list"

definition setbuf :: "nat \<Rightarrow> buf \<Rightarrow> 'z bstate_scheme \<Rightarrow> 'z bstate_scheme" where
  "setbuf i b s = s\<lparr>bufs := (bufs s)(i := b)\<rparr>"

definition disk_write :: "nat \<Rightarrow> nat \<Rightarrow> byte list \<Rightarrow> 'z bstate_scheme \<Rightarrow> 'z bstate_scheme" where
  "disk_write u b d s =
     s\<lparr>disk := (disk s)(u := (disk s u)(b := d)), dtrace := dtrace s @ [(u, b, d)]\<rparr>"

section \<open>The IDE driver\<close>

text \<open>
  \<^verbatim>\<open>idestart\<close> splits the sector number over the registers \<^verbatim>\<open>0x1f3\<close> to \<^verbatim>\<open>0x1f6\<close>; the drive puts the
  28 bits together again.  The unit is bit 0 of the device number.  The data of a write is handed
  over at once (\<^verbatim>\<open>outsl\<close>), that of a read when the interrupt comes.
\<close>

definition ide_lba :: "nat \<Rightarrow> nat" where
  "ide_lba sector =
     sector mod 256 + 256 * (sector div 256 mod 256) + 65536 * (sector div 65536 mod 256)
     + 16777216 * (sector div 16777216 mod 16)"

definition SECTOR_SIZE :: nat where "SECTOR_SIZE = 512"

text \<open>
  \<^verbatim>\<open>ideinit\<close> selects drive 1 and reads the status port up to 1000 times; \<open>status\<close> is what those reads
  return.
\<close>

definition ideinit :: "(nat \<Rightarrow> nat) \<Rightarrow> 'z bstate_scheme \<Rightarrow> 'z bstate_scheme" where
  "ideinit status s =
     (case List.find (\<lambda>i. status i \<noteq> 0) [0..<1000] of Some i \<Rightarrow> s\<lparr>havedisk1 := True\<rparr> | None \<Rightarrow> s)"

definition idestart :: "nat \<Rightarrow> 'z bstate_scheme \<Rightarrow> 'z bstate_scheme res" where
  "idestart b s =
     (let bf = bufs s b; sector_per_block = BSIZE div SECTOR_SIZE
      in if FSSIZE \<le> b_blockno bf then Panic ''incorrect blockno''
         else if 7 < sector_per_block then Panic ''idestart''
         else if b_dirty bf
           then Ok (disk_write (b_dev bf mod 2) (ide_lba (b_blockno bf * sector_per_block)) (b_data bf) s)
         else Ok s)"

definition ideintr :: "'z bstate_scheme \<Rightarrow> 'z bstate_scheme res" where
  "ideintr s =
     (case idequeue s of
        [] \<Rightarrow> Ok s
      | b # q \<Rightarrow>
          let bf = bufs s b; u = b_dev bf mod 2; sec = ide_lba (b_blockno bf * (BSIZE div SECTOR_SIZE));
              bf1 = (if \<not> b_dirty bf \<and> \<not> badsect s u sec then bf\<lparr>b_data := disk s u sec\<rparr> else bf);
              s1 = setbuf b (bf1\<lparr>b_valid := True, b_dirty := False\<rparr>) (s\<lparr>idequeue := q\<rparr>)
          in (case q of [] \<Rightarrow> Ok s1 | b' # _ \<Rightarrow> idestart b' s1))"

text \<open>
  \<open>iderw_submit\<close> is \<^verbatim>\<open>iderw\<close> up to its waiting loop: the checks, the append to the queue and the
  start of the drive when it is idle.
\<close>

definition iderw_submit :: "nat \<Rightarrow> 'z bstate_scheme \<Rightarrow> 'z bstate_scheme res" where
  "iderw_submit b s =
     (let bf = bufs s b
      in if \<not> b_busy bf then Panic ''iderw: buf not busy''
         else if b_valid bf \<and> \<not> b_dirty bf then Panic ''iderw: nothing to do''
         else if b_dev bf \<noteq> 0 \<and> \<not> havedisk1 s then Panic ''iderw: ide disk 1 not present''
         else
           let q = idequeue s @ [b]; s1 = s\<lparr>idequeue := q\<rparr>
           in if hd q = b then idestart b s1 else Ok s1)"

text \<open>
  The loop \<^verbatim>\<open>while((b->flags & (B_VALID|B_DIRTY)) != B_VALID) sleep(b, &idelock)\<close>.  The sleep gives
  up \<^verbatim>\<open>idelock\<close>, so that other processes may submit requests of their own between two interrupts;
  \<open>ide_run\<close> below has all these interleavings.  \<open>iderw_wait\<close> is the one of them in which only the
  drive acts while the process sleeps, each time round until the next interrupt has been handled; the
  block layer, whose other operations run one at a time, is built on it.
\<close>

fun iderw_wait :: "nat \<Rightarrow> nat \<Rightarrow> 'z bstate_scheme \<Rightarrow> 'z bstate_scheme res" where
  "iderw_wait n b s =
     (if b_valid (bufs s b) \<and> \<not> b_dirty (bufs s b) then Ok s
      else case n of 0 \<Rightarrow> Sleeps | Suc m \<Rightarrow> rbind (ideintr s) (iderw_wait m b))"

declare iderw_wait.simps [simp del]

definition iderw :: "nat \<Rightarrow> 'z bstate_scheme \<Rightarrow> 'z bstate_scheme res" where
  "iderw b s =
     rbind (iderw_submit b s) (\<lambda>s2. iderw_wait (Suc (length (idequeue s))) b s2)"

text \<open>
  The driver among several processes.  \<open>ide_run k s s'\<close> holds when the state goes from \<open>s\<close> to \<open>s'\<close>
  while \<open>k\<close> interrupts are handled, with any number of other steps between them: a process submits a
  request for a buffer it holds (for a block of the file system), and the processes use the buffers
  that are not in the queue as they like.  Nobody but the driver writes to a queued buffer: its owner
  holds \<^verbatim>\<open>B_BUSY\<close> and sleeps in \<^verbatim>\<open>iderw\<close>.
\<close>

inductive ide_run :: "nat \<Rightarrow> 'z bstate_scheme \<Rightarrow> 'z bstate_scheme \<Rightarrow> bool" where
  ide_start: "ide_run 0 s s"
| ide_interrupt: "ide_run k s s1 \<Longrightarrow> ideintr s1 = Ok s2 \<Longrightarrow> ide_run (Suc k) s s2"
| ide_submit: "ide_run k s s1 \<Longrightarrow> c \<notin> set (idequeue s1) \<Longrightarrow> b_blockno (bufs s1 c) < FSSIZE
    \<Longrightarrow> iderw_submit c s1 = Ok s2 \<Longrightarrow> ide_run k s s2"
| ide_use: "ide_run k s s1 \<Longrightarrow> c \<notin> set (idequeue s1) \<Longrightarrow> ide_run k s (setbuf c bf s1)"

section \<open>Lemmas\<close>

lemma setbuf_sel [simp]:
  "bufs (setbuf i b s) = (bufs s)(i := b)" "idequeue (setbuf i b s) = idequeue s"
  "havedisk1 (setbuf i b s) = havedisk1 s" "disk (setbuf i b s) = disk s"
  "badsect (setbuf i b s) = badsect s" "dtrace (setbuf i b s) = dtrace s"
  "bstate.more (setbuf i b s) = bstate.more s"
  by (simp_all add: setbuf_def)

lemma disk_write_sel [simp]:
  "bufs (disk_write u b d s) = bufs s" "idequeue (disk_write u b d s) = idequeue s"
  "havedisk1 (disk_write u b d s) = havedisk1 s"
  "disk (disk_write u b d s) = (disk s)(u := (disk s u)(b := d))"
  "badsect (disk_write u b d s) = badsect s" "dtrace (disk_write u b d s) = dtrace s @ [(u, b, d)]"
  "bstate.more (disk_write u b d s) = bstate.more s"
  by (simp_all add: disk_write_def)

lemma setbuf_setbuf [simp]: "setbuf i a (setbuf i b s) = setbuf i a s"
  by (simp add: setbuf_def)

lemma fun_upd_cong: "x = y \<Longrightarrow> f(a := x) = f(a := y)"
  by simp

lemma setbuf_same [simp]: "setbuf i (bufs s i) s = s"
  by (simp add: setbuf_def)

text \<open>The registers carry every sector below \<open>2 ^ 28\<close> unchanged.\<close>

lemma ide_lba_id [simp]: "sector < 2 ^ 28 \<Longrightarrow> ide_lba sector = sector"
proof -
  assume "sector < 2 ^ 28"
  then have "sector div 16777216 mod 16 = sector div 16777216" by simp
  moreover have "sector mod 256 + 256 * (sector div 256 mod 256) = sector mod 65536"
    by (rule mod_256_split)
  moreover have "sector mod 65536 + 65536 * (sector div 65536 mod 256) = sector mod 16777216"
    by (simp add: mod_mult2_eq [of sector 65536 256, simplified])
  ultimately show ?thesis
    by (simp add: ide_lba_def)
qed

lemma blocks_per_sector [simp]: "BSIZE div SECTOR_SIZE = 1"
  by (simp add: BSIZE_def SECTOR_SIZE_def)

lemma idestart_eq:
  "b_blockno (bufs s b) < FSSIZE \<Longrightarrow>
   idestart b s =
     Ok (if b_dirty (bufs s b)
         then disk_write (b_dev (bufs s b) mod 2) (b_blockno (bufs s b)) (b_data (bufs s b)) s else s)"
  by (simp add: idestart_def Let_def FSSIZE_def)

text \<open>What serving one request does, on the drive and on the buffer.\<close>

definition served :: "nat \<Rightarrow> 'z bstate_scheme \<Rightarrow> 'z bstate_scheme" where
  "served b s =
     (let bf = bufs s b
      in if b_dirty bf
         then setbuf b (bf\<lparr>b_valid := True, b_dirty := False\<rparr>)
                (disk_write (b_dev bf mod 2) (b_blockno bf) (b_data bf) s)
         else setbuf b (bf\<lparr>b_data := disk s (b_dev bf mod 2) (b_blockno bf), b_valid := True,
                          b_dirty := False\<rparr>) s)"

lemma idequeue_upd_same: "idequeue s = q \<Longrightarrow> s\<lparr>idequeue := q\<rparr> = s"
  by auto

lemma iderw_empty_queue:
  assumes "idequeue s = []" and "b_busy (bufs s b)" and "b_valid (bufs s b) \<longrightarrow> b_dirty (bufs s b)"
    and "b_dev (bufs s b) \<noteq> 0 \<longrightarrow> havedisk1 s" and "b_blockno (bufs s b) < FSSIZE"
    and "\<not> b_dirty (bufs s b) \<longrightarrow> \<not> badsect s (b_dev (bufs s b) mod 2) (b_blockno (bufs s b))"
  shows "iderw b s = Ok (served b s)"
proof -
  have lba: "ide_lba (b_blockno (bufs s b)) = b_blockno (bufs s b)"
    using assms(5) by (simp add: FSSIZE_def)
  show ?thesis
  proof (cases "b_dirty (bufs s b)")
    case True
    with assms lba show ?thesis
      by (auto simp add: iderw_def iderw_submit_def idestart_eq Let_def served_def iderw_wait.simps ideintr_def
          iderw_wait.simps [of "Suc 0"] setbuf_def disk_write_def intro!: bstate.equality)
  next
    case False
    with assms lba have "\<not> b_valid (bufs s b)" by simp
    with assms lba False show ?thesis
      by (auto simp add: iderw_def iderw_submit_def idestart_eq Let_def served_def iderw_wait.simps ideintr_def
          iderw_wait.simps [of "Suc 0"] setbuf_def intro!: bstate.equality)
  qed
qed


text \<open>
  The queue is first come, first served: a process that waits behind other requests returns after
  the interrupts of those before it, and the drive carries out the writes in the order of the
  queue.
\<close>

definition queued_writes :: "(nat \<Rightarrow> buf) \<Rightarrow> nat list \<Rightarrow> (nat \<times> nat \<times> byte list) list" where
  "queued_writes bs q =
     map (\<lambda>b. (b_dev (bs b) mod 2, b_blockno (bs b), b_data (bs b))) (filter (\<lambda>b. b_dirty (bs b)) q)"

definition ide_ready :: "'z bstate_scheme \<Rightarrow> bool" where
  "ide_ready s \<longleftrightarrow> distinct (idequeue s)
     \<and> (\<forall>b\<in>set (idequeue s). b_blockno (bufs s b) < FSSIZE \<and> \<not> (b_valid (bufs s b) \<and> \<not> b_dirty (bufs s b)))"

lemma queued_writes_Nil [simp]: "queued_writes bs [] = []"
  by (simp add: queued_writes_def)

lemma queued_writes_Cons:
  "queued_writes bs (b # q) =
     (if b_dirty (bs b) then [(b_dev (bs b) mod 2, b_blockno (bs b), b_data (bs b))] else [])
     @ queued_writes bs q"
  by (simp add: queued_writes_def)

lemma queued_writes_cong:
  "(\<And>b. b \<in> set q \<Longrightarrow> bs b = cs b) \<Longrightarrow> queued_writes bs q = queued_writes cs q"
  by (induction q) (auto simp: queued_writes_def)

lemma ideintr_next:
  assumes "ide_ready s" and "idequeue s = b # c # q"
  shows "\<exists>s'. ideintr s = Ok s' \<and> idequeue s' = c # q \<and> ide_ready s'
      \<and> dtrace s' = dtrace s @ queued_writes (bufs s) [c] \<and> (\<forall>x. x \<noteq> b \<longrightarrow> bufs s' x = bufs s x)"
  using assms
  by (auto simp: ideintr_def Let_def ide_ready_def idestart_eq queued_writes_def)

lemma ideintr_last:
  assumes "idequeue s = [b]" and "b_blockno (bufs s b) < FSSIZE"
  shows "\<exists>s'. ideintr s = Ok s' \<and> idequeue s' = [] \<and> dtrace s' = dtrace s \<and> disk s' = disk s
      \<and> b_valid (bufs s' b) \<and> \<not> b_dirty (bufs s' b)
      \<and> b_data (bufs s' b) =
          (if b_dirty (bufs s b) \<or> badsect s (b_dev (bufs s b) mod 2) (b_blockno (bufs s b))
           then b_data (bufs s b) else disk s' (b_dev (bufs s b) mod 2) (b_blockno (bufs s b)))"
proof -
  have "ide_lba (b_blockno (bufs s b)) = b_blockno (bufs s b)"
    using assms(2) by (simp add: FSSIZE_def)
  with assms show ?thesis by (simp add: ideintr_def Let_def)
qed

lemma ideintr_head:
  assumes "ide_ready s" and "idequeue s = b # q" and "ideintr s = Ok s'"
  shows "b_valid (bufs s' b) \<and> \<not> b_dirty (bufs s' b) \<and> b \<notin> set (idequeue s')
      \<and> b_data (bufs s' b) =
          (if b_dirty (bufs s b) \<or> badsect s (b_dev (bufs s b) mod 2) (b_blockno (bufs s b))
           then b_data (bufs s b) else disk s (b_dev (bufs s b) mod 2) (b_blockno (bufs s b)))"
proof -
  have "ide_lba (b_blockno (bufs s b)) = b_blockno (bufs s b)"
    using assms(1,2) by (simp add: ide_ready_def FSSIZE_def)
  with assms show ?thesis
    by (cases q) (auto simp: ideintr_def Let_def idestart_eq ide_ready_def split: if_splits)
qed

lemma iderw_wait_queue:
  assumes "ide_ready s" and "idequeue s = q @ [b]"
  shows "\<exists>s'. iderw_wait (Suc (length q)) b s = Ok s' \<and> idequeue s' = []
      \<and> b_valid (bufs s' b) \<and> \<not> b_dirty (bufs s' b)
      \<and> dtrace s' = dtrace s @ queued_writes (bufs s) (tl (q @ [b]))"
  using assms
proof (induction q arbitrary: s)
  case Nil
  then have "b_blockno (bufs s b) < FSSIZE" by (auto simp: ide_ready_def)
  with Nil.prems ideintr_last [of s b] obtain s' where
    s': "ideintr s = Ok s'" "idequeue s' = []" "dtrace s' = dtrace s"
        "b_valid (bufs s' b)" "\<not> b_dirty (bufs s' b)"
    by auto
  moreover have "\<not> (b_valid (bufs s b) \<and> \<not> b_dirty (bufs s b))"
    using Nil.prems by (auto simp: ide_ready_def)
  ultimately show ?case
    by (auto simp add: iderw_wait.simps [of "Suc 0"] iderw_wait.simps [of 0] queued_writes_def)
next
  case (Cons a q)
  obtain c q' where cq: "q @ [b] = c # q'" by (cases "q @ [b]") auto
  with Cons.prems ideintr_next [of s a c q'] obtain s1 where
    s1: "ideintr s = Ok s1" "idequeue s1 = q @ [b]" "ide_ready s1"
        "dtrace s1 = dtrace s @ queued_writes (bufs s) [c]" "\<forall>x. x \<noteq> a \<longrightarrow> bufs s1 x = bufs s x"
    by auto
  from Cons.IH [OF s1(3,2)] obtain s' where
    s': "iderw_wait (Suc (length q)) b s1 = Ok s'" "idequeue s' = []" "b_valid (bufs s' b)"
        "\<not> b_dirty (bufs s' b)" "dtrace s' = dtrace s1 @ queued_writes (bufs s1) (tl (q @ [b]))"
    by blast
  have nd: "\<not> (b_valid (bufs s b) \<and> \<not> b_dirty (bufs s b))"
    using Cons.prems by (auto simp: ide_ready_def)
  have "a \<notin> set q'"
    using Cons.prems cq by (auto simp: ide_ready_def)
  then have "queued_writes (bufs s1) q' = queued_writes (bufs s) q'"
    using s1(5) by (intro queued_writes_cong) auto
  with s' s1(4) cq have "dtrace s' = dtrace s @ queued_writes (bufs s) (q @ [b])"
    by (simp add: queued_writes_Cons)
  with s' s1(1) nd show ?case
    by (auto simp add: iderw_wait.simps [of "Suc (Suc (length q))"])
qed

text \<open>
  When nothing but the drive acts meanwhile, a process that queues behind others leaves its loop, with
  the queue empty: the fuel of \<open>iderw\<close> is enough.
\<close>

lemma iderw_behind_queue:
  assumes "ide_ready s" and "idequeue s \<noteq> []" and "b \<notin> set (idequeue s)"
    and "b_busy (bufs s b)" and "b_valid (bufs s b) \<longrightarrow> b_dirty (bufs s b)"
    and "b_dev (bufs s b) \<noteq> 0 \<longrightarrow> havedisk1 s" and "b_blockno (bufs s b) < FSSIZE"
  shows "\<exists>s'. iderw b s = Ok s' \<and> idequeue s' = [] \<and> b_valid (bufs s' b) \<and> \<not> b_dirty (bufs s' b)"
proof -
  let ?s1 = "s\<lparr>idequeue := idequeue s @ [b]\<rparr>"
  have "ide_ready ?s1"
    using assms by (auto simp: ide_ready_def)
  from iderw_wait_queue [OF this, of "idequeue s" b] obtain s' where
    s': "iderw_wait (Suc (length (idequeue s))) b ?s1 = Ok s'" "idequeue s' = []"
        "b_valid (bufs s' b)" "\<not> b_dirty (bufs s' b)"
    by auto
  have "hd (idequeue s @ [b]) \<noteq> b"
    using assms(2,3) by (cases "idequeue s") auto
  with s'(1) assms have "iderw b s = Ok s'"
    by (auto simp: iderw_def iderw_submit_def Let_def)
  with s' show ?thesis by auto
qed

section \<open>Requests of several processes\<close>

lemma iderw_submit_ok:
  assumes "iderw_submit b s = Ok s'" and "b_blockno (bufs s b) < FSSIZE"
    and "ide_ready s" and "b \<notin> set (idequeue s)"
  shows "idequeue s' = idequeue s @ [b]" and "bufs s' = bufs s" and "ide_ready s'"
    and "dtrace s' = dtrace s @ (if idequeue s = [] then queued_writes (bufs s) [b] else [])"
  using assms
  by (auto simp: iderw_submit_def Let_def idestart_eq ide_ready_def queued_writes_def
      split: if_splits list.splits; cases "idequeue s"; simp)+

lemma ideintr_ready:
  assumes "ide_ready s"
  shows "\<exists>s'. ideintr s = Ok s' \<and> ide_ready s'"
proof (cases "idequeue s")
  case Nil
  with assms show ?thesis by (simp add: ideintr_def)
next
  case (Cons b q)
  show ?thesis
  proof (cases q)
    case Nil
    with Cons assms ideintr_last [of s b] show ?thesis
      by (auto simp: ide_ready_def)
  next
    case (Cons c q')
    with \<open>idequeue s = b # q\<close> ideintr_next [OF assms, of b c q'] show ?thesis by auto
  qed
qed

text \<open>The requests in the queue at the start are taken from its front, one at each interrupt.\<close>

lemma ide_run_queue:
  assumes "ide_run k s s'" and "ide_ready s"
  shows "ide_ready s' \<and> (k < length (idequeue s) \<longrightarrow>
      (\<exists>r. idequeue s' = drop k (idequeue s) @ r)
    \<and> (\<forall>x\<in>set (drop k (idequeue s)). bufs s' x = bufs s x)
    \<and> dtrace s' = dtrace s @ queued_writes (bufs s) (tl (take (Suc k) (idequeue s))))"
  using assms
proof (induction k s s' rule: ide_run.induct)
  case (ide_start s)
  then show ?case by (cases "idequeue s") auto
next
  case (ide_interrupt k s s1 s2)
  let ?l = "idequeue s"
  from ide_interrupt have rdy: "ide_ready s1" by simp
  with ideintr_ready [OF rdy] ide_interrupt.hyps(2) have rdy2: "ide_ready s2" by simp
  show ?case
  proof (intro conjI [OF rdy2] impI)
    assume k: "Suc k < length ?l"
    with ide_interrupt obtain r where
      r: "idequeue s1 = drop k ?l @ r" and same: "\<forall>x\<in>set (drop k ?l). bufs s1 x = bufs s x"
      and tr: "dtrace s1 = dtrace s @ queued_writes (bufs s) (tl (take (Suc k) ?l))"
      by auto
    have l: "drop k ?l = ?l ! k # ?l ! Suc k # drop (Suc (Suc k)) ?l"
      "drop (Suc k) ?l = ?l ! Suc k # drop (Suc (Suc k)) ?l"
      using k by (simp_all add: Cons_nth_drop_Suc)
    from ideintr_next [OF rdy, of "?l ! k" "?l ! Suc k" "drop (Suc (Suc k)) ?l @ r"] r l
    have s2: "idequeue s2 = drop (Suc k) ?l @ r" "\<forall>x. x \<noteq> ?l ! k \<longrightarrow> bufs s2 x = bufs s1 x"
      "dtrace s2 = dtrace s1 @ queued_writes (bufs s1) [?l ! Suc k]"
      using ide_interrupt.hyps(2) by auto
    have "?l ! k \<notin> set (drop (Suc k) ?l)"
      using ide_interrupt.prems k by (auto simp: ide_ready_def in_set_conv_nth nth_eq_iff_index_eq)
    then have "\<forall>x\<in>set (drop (Suc k) ?l). bufs s2 x = bufs s x"
      using s2(2) same l by (metis list.set_intros(2))
    moreover have "queued_writes (bufs s1) [?l ! Suc k] = queued_writes (bufs s) [?l ! Suc k]"
      using same l by (intro queued_writes_cong) auto
    moreover have "tl (take (Suc (Suc k)) ?l) = tl (take (Suc k) ?l) @ [?l ! Suc k]"
      using k by (cases ?l) (auto simp: take_Suc_conv_app_nth)
    ultimately show "(\<exists>r. idequeue s2 = drop (Suc k) ?l @ r)
        \<and> (\<forall>x\<in>set (drop (Suc k) ?l). bufs s2 x = bufs s x)
        \<and> dtrace s2 = dtrace s @ queued_writes (bufs s) (tl (take (Suc (Suc k)) ?l))"
      using s2 tr by (simp add: queued_writes_def)
  qed
next
  case (ide_submit k s s1 c s2)
  from ide_submit have "ide_ready s1" by simp
  note sub = iderw_submit_ok [OF ide_submit.hyps(4,3) this ide_submit.hyps(2)]
  have "idequeue s1 \<noteq> []" if "k < length (idequeue s)" "idequeue s1 = drop k (idequeue s) @ r" for r
    using that by auto
  with ide_submit sub show ?case by auto
next
  case (ide_use k s s1 c bf)
  then have "ide_ready (setbuf c bf s1)" by (auto simp: ide_ready_def)
  with ide_use show ?case by auto
qed

text \<open>
  C29: the driver serves its requests first come, first served, whatever the other processes do
  meanwhile.  After a request is submitted behind \<open>n\<close> others, let any number of interrupts up to
  \<open>n\<close> be handled, with further requests and uses of other buffers between them: no step panics, the
  request has moved up by one place at each interrupt, its buffer is untouched, and the writes have
  been started in the order of the queue.  The interrupt after the \<open>n\<close>-th completes it: the buffer is
  valid and clean, which ends the loop of \<^verbatim>\<open>iderw\<close>, and a read has the contents the block has on the drive at that moment (unless the drive
  reports an error for it).
\<close>

theorem iderw_first_come:
  assumes "ide_ready s" and "b \<notin> set (idequeue s)" and "b_blockno (bufs s b) < FSSIZE"
    and "iderw_submit b s = Ok s1" and "ide_run k s1 s2" and "k \<le> length (idequeue s)"
  shows "(\<exists>r. idequeue s2 = drop k (idequeue s) @ b # r) \<and> bufs s2 b = bufs s b
    \<and> dtrace s2 = dtrace s @ (if idequeue s = [] then queued_writes (bufs s) [b]
        else queued_writes (bufs s) (tl (take (Suc k) (idequeue s @ [b]))))
    \<and> (\<exists>s3. ideintr s2 = Ok s3
        \<and> (k = length (idequeue s) \<longrightarrow>
            b_valid (bufs s3 b) \<and> \<not> b_dirty (bufs s3 b) \<and> b \<notin> set (idequeue s3)
          \<and> b_data (bufs s3 b) =
              (if b_dirty (bufs s b) \<or> badsect s2 (b_dev (bufs s b) mod 2) (b_blockno (bufs s b))
               then b_data (bufs s b) else disk s2 (b_dev (bufs s b) mod 2) (b_blockno (bufs s b)))))"
proof -
  let ?l = "idequeue s @ [b]"
  note sub = iderw_submit_ok [OF assms(4,3,1,2)]
  from ide_run_queue [OF assms(5) sub(3)] assms(6) sub(1,2) obtain r where
    rdy: "ide_ready s2" and r: "idequeue s2 = drop k ?l @ r" and b: "bufs s2 b = bufs s b"
    and tr: "dtrace s2 = dtrace s1 @ queued_writes (bufs s) (tl (take (Suc k) ?l))"
    by auto
  from r assms(6) have q: "idequeue s2 = drop k (idequeue s) @ b # r" by simp
  from ideintr_ready [OF rdy] obtain s3 where s3: "ideintr s2 = Ok s3" "ide_ready s3" by blast
  have "b_valid (bufs s3 b) \<and> \<not> b_dirty (bufs s3 b) \<and> b \<notin> set (idequeue s3)
      \<and> b_data (bufs s3 b) =
          (if b_dirty (bufs s b) \<or> badsect s2 (b_dev (bufs s b) mod 2) (b_blockno (bufs s b))
           then b_data (bufs s b) else disk s2 (b_dev (bufs s b) mod 2) (b_blockno (bufs s b)))"
    if "k = length (idequeue s)"
  proof -
    from that q have "idequeue s2 = b # r" by simp
    from ideintr_head [OF rdy this s3(1)] b show ?thesis by simp
  qed
  moreover have "dtrace s2 = dtrace s @ (if idequeue s = [] then queued_writes (bufs s) [b]
        else queued_writes (bufs s) (tl (take (Suc k) ?l)))"
    using tr sub(4) assms(6) by (auto simp: queued_writes_def)
  ultimately show ?thesis using q b s3(1) by auto
qed

definition demo_queue :: bstate where
  "demo_queue = \<lparr>bufs = (\<lambda>i. \<lparr>b_busy = True, b_valid = True, b_dirty = True, b_dev = 1, b_blockno = 10 + i,
       b_prev = 0, b_next = 0, b_data = replicate BSIZE (of_nat i)\<rparr>),
     idequeue = [0, 1], havedisk1 = True, disk = (\<lambda>_ _. replicate BSIZE 0), badsect = (\<lambda>_ _. False),
     dtrace = []\<rparr>"

definition demo_intr :: "bstate \<Rightarrow> bstate" where
  "demo_intr s = (case ideintr s of Ok s' \<Rightarrow> s' | _ \<Rightarrow> s)"

definition demo_submit :: "nat \<Rightarrow> bstate \<Rightarrow> bstate" where
  "demo_submit b s = (case iderw_submit b s of Ok s' \<Rightarrow> s' | _ \<Rightarrow> s)"

definition demo_others :: bstate where
  "demo_others = demo_intr (demo_submit 3 (demo_intr (demo_submit 2 demo_queue)))"

theorem iderw_first_come_witness:
  "(\<exists>r. idequeue demo_others = drop 2 (idequeue demo_queue) @ 2 # r) \<and> idequeue demo_others = [2, 3]
   \<and> dtrace demo_others = [(1, 11, replicate BSIZE 1), (1, 12, replicate BSIZE 2)]"
proof -
  let ?s1 = "demo_submit 2 demo_queue" and ?s2 = "demo_intr (demo_submit 2 demo_queue)"
  let ?s3 = "demo_submit 3 ?s2"
  note ev = demo_queue_def demo_submit_def demo_intr_def iderw_submit_def ideintr_def idestart_def
    Let_def FSSIZE_def BSIZE_def SECTOR_SIZE_def setbuf_def disk_write_def
  have 1: "iderw_submit 2 demo_queue = Ok ?s1" by (simp add: ev)
  have 2: "ideintr ?s1 = Ok ?s2" by (simp add: ev)
  have 3: "iderw_submit 3 ?s2 = Ok ?s3" "3 \<notin> set (idequeue ?s2)" "b_blockno (bufs ?s2 3) < FSSIZE"
    by (simp_all add: ev)
  have 4: "ideintr ?s3 = Ok demo_others" by (simp add: demo_others_def ev)
  from ide_start [of ?s1] have "ide_run (Suc 0) ?s1 ?s2" using 2 by (rule ide_interrupt)
  from ide_submit [OF this 3(2,3,1)] have "ide_run (Suc 0) ?s1 ?s3" .
  then have run: "ide_run 2 ?s1 demo_others"
    using ide_interrupt [OF _ 4] by (simp add: numeral_2_eq_2)
  have "ide_ready demo_queue" "2 \<notin> set (idequeue demo_queue)" "b_blockno (bufs demo_queue 2) < FSSIZE"
    "2 \<le> length (idequeue demo_queue)"
    by (simp_all add: ide_ready_def demo_queue_def FSSIZE_def)
  from iderw_first_come [OF this(1,2,3) 1 run this(4)]
  have t: "\<exists>r. idequeue demo_others = drop 2 (idequeue demo_queue) @ 2 # r"
    "dtrace demo_others = dtrace demo_queue @ (if idequeue demo_queue = [] then queued_writes (bufs demo_queue) [2]
        else queued_writes (bufs demo_queue) (tl (take (Suc 2) (idequeue demo_queue @ [2]))))"
    by blast+
  moreover have "idequeue demo_others = [2, 3]"
    by (simp add: demo_others_def ev)
  moreover have "dtrace demo_others = [(1, 11, replicate BSIZE 1), (1, 12, replicate BSIZE 2)]"
    using t(2) by (simp add: demo_queue_def queued_writes_def)
  ultimately show ?thesis by blast
qed

text \<open>The driver leaves the rest of the kernel's state alone.\<close>

lemma idestart_more [frame]: "idestart b s = Ok s' \<Longrightarrow> bstate.more s' = bstate.more s"
  by (auto simp: idestart_def Let_def split: if_splits)

lemma ideintr_more [frame]: "ideintr s = Ok s' \<Longrightarrow> bstate.more s' = bstate.more s"
  by (auto simp: ideintr_def Let_def split: list.splits if_splits dest!: idestart_more)

lemma iderw_wait_more [frame]: "iderw_wait n b s = Ok s' \<Longrightarrow> bstate.more s' = bstate.more s"
proof (induction n arbitrary: s)
  case 0
  then show ?case by (simp add: iderw_wait.simps split: if_splits)
next
  case (Suc n)
  show ?case
  proof (cases "b_valid (bufs s b) \<and> \<not> b_dirty (bufs s b)")
    case True
    then show ?thesis using Suc.prems by (simp add: iderw_wait.simps)
  next
    case False
    then obtain t where "ideintr s = Ok t" "iderw_wait n b t = Ok s'"
      using Suc.prems by (auto simp: iderw_wait.simps [of "Suc n"] rbind_eq_Ok)
    then show ?thesis using Suc.IH ideintr_more by fastforce
  qed
qed

lemma iderw_more [frame]: "iderw b s = Ok s' \<Longrightarrow> bstate.more s' = bstate.more s"
  by (auto simp: iderw_def iderw_submit_def Let_def outcome split: if_splits dest!: iderw_wait_more idestart_more)

end
