(* ===== verification/Block_Cache.thy ===== *)
theory Block_Cache
  imports Prelude
begin

text \<open>
  The contract of the buffer cache, as its clients (the log and the file system) rely on it.  What
  they see of the cache is a \<open>bview\<close>: the current contents of every block of the root device, the
  contents on the drive, the blocks pinned by \<^verbatim>\<open>B_DIRTY\<close>, the blocks some process holds, and the
  sequence of block writes.  The locale fixes the operations and assumes their laws; the lemmas the
  clients need (read a block and release it, copy one block over another) are proved here once.
\<close>

record bview =
  v_blk :: "nat \<Rightarrow> byte list"
  v_disk :: "nat \<Rightarrow> byte list"
  v_pinned :: "nat set"
  v_held :: "nat set"
  v_trace :: "(nat \<times> nat \<times> byte list) list"

definition gettable :: "bview \<Rightarrow> nat \<Rightarrow> bool" where
  "gettable v b \<longleftrightarrow> b < FSSIZE \<and> b \<notin> v_held v
     \<and> (b \<in> v_pinned v \<or> card (v_pinned v \<union> v_held v) < NBUF)"

text \<open>The contents of a device after a sequence of writes.\<close>

definition writes :: "(nat \<times> nat \<times> byte list) list \<Rightarrow> (nat \<Rightarrow> byte list) \<Rightarrow> nat \<Rightarrow> byte list" where
  "writes tr m = fold (\<lambda>(u, b, d) m. m(b := d)) tr m"

lemma writes_Nil [simp]: "writes [] m = m"
  by (simp add: writes_def)

lemma writes_Cons [simp]: "writes ((u, b, d) # tr) m = writes tr (m(b := d))"
  by (simp add: writes_def)

lemma writes_append [simp]: "writes (tr @ tr') m = writes tr' (writes tr m)"
  by (simp add: writes_def)

lemma writes_other: "b \<notin> (fst \<circ> snd) ` set tr \<Longrightarrow> writes tr m b = m b"
  by (induction tr arbitrary: m) auto

lemma writes_at:
  "distinct (map dst ts) \<Longrightarrow> t \<in> set ts \<Longrightarrow>
   writes (map (\<lambda>t. (u, dst t, f t)) ts) m (dst t) = f t"
proof (induction ts arbitrary: m)
  case (Cons x ts)
  show ?case
  proof (cases "t = x")
    case True
    then have "dst t \<notin> (fst \<circ> snd) ` set (map (\<lambda>t. (u, dst t, f t)) ts)"
      using Cons.prems(1) by auto
    with True show ?thesis by (simp add: writes_other)
  qed (use Cons in auto)
qed simp

locale block_cache =
  fixes inv :: "'s \<Rightarrow> bool"
    and view :: "'s \<Rightarrow> bview"
    and holds :: "'s \<Rightarrow> nat \<Rightarrow> nat \<Rightarrow> bool"
    and rest :: "'s \<Rightarrow> 'r"
    and bread :: "nat \<Rightarrow> nat \<Rightarrow> 's \<Rightarrow> (nat \<times> 's) res"
    and bwrite :: "nat \<Rightarrow> 's \<Rightarrow> 's res"
    and brelse :: "nat \<Rightarrow> 's \<Rightarrow> 's res"
    and getdata :: "'s \<Rightarrow> nat \<Rightarrow> byte list"
    and setdata :: "nat \<Rightarrow> byte list \<Rightarrow> 's \<Rightarrow> 's"
    and pin :: "nat \<Rightarrow> 's \<Rightarrow> 's"
  assumes bread_law:
      "inv s \<Longrightarrow> gettable (view s) b \<Longrightarrow>
       \<exists>i s'. bread ROOTDEV b s = Ok (i, s') \<and> inv s' \<and> holds s' i b
         \<and> view s' = (view s)\<lparr>v_held := insert b (v_held (view s))\<rparr>
         \<and> (\<forall>j c. holds s j c \<longrightarrow> holds s' j c) \<and> rest s' = rest s"
    and getdata_law: "inv s \<Longrightarrow> holds s i b \<Longrightarrow> getdata s i = v_blk (view s) b"
    and setdata_law:
      "inv s \<Longrightarrow> holds s i b \<Longrightarrow> length d = BSIZE \<Longrightarrow>
       inv (setdata i d s) \<and> view (setdata i d s) = (view s)\<lparr>v_blk := (v_blk (view s))(b := d)\<rparr>
         \<and> holds (setdata i d s) = holds s \<and> rest (setdata i d s) = rest s"
    and pin_law:
      "inv s \<Longrightarrow> holds s i b \<Longrightarrow>
       inv (pin i s) \<and> view (pin i s) = (view s)\<lparr>v_pinned := insert b (v_pinned (view s))\<rparr>
         \<and> holds (pin i s) = holds s \<and> rest (pin i s) = rest s"
    and bwrite_law:
      "inv s \<Longrightarrow> holds s i b \<Longrightarrow>
       \<exists>s'. bwrite i s = Ok s' \<and> inv s' \<and> holds s' = holds s \<and> rest s' = rest s
         \<and> view s' = (view s)\<lparr>v_disk := (v_disk (view s))(b := v_blk (view s) b),
              v_pinned := v_pinned (view s) - {b},
              v_trace := v_trace (view s) @ [(ROOTDEV, b, v_blk (view s) b)]\<rparr>"
    and brelse_law:
      "inv s \<Longrightarrow> holds s i b \<Longrightarrow>
       b \<in> v_pinned (view s) \<or> v_blk (view s) b = v_disk (view s) b \<Longrightarrow>
       \<exists>s'. brelse i s = Ok s' \<and> inv s' \<and> rest s' = rest s
         \<and> view s' = (view s)\<lparr>v_held := v_held (view s) - {b}\<rparr>
         \<and> (\<forall>j c. j \<noteq> i \<and> holds s j c \<longrightarrow> holds s' j c)"
    and clean_law:
      "inv s \<Longrightarrow> b < FSSIZE \<Longrightarrow> b \<notin> v_held (view s) \<Longrightarrow>
       b \<in> v_pinned (view s) \<or> v_blk (view s) b = v_disk (view s) b"
    and held_law: "inv s \<Longrightarrow> holds s i b \<Longrightarrow> b \<in> v_held (view s) \<and> b < FSSIZE"
    and size_law: "inv s \<Longrightarrow> b < FSSIZE \<Longrightarrow> length (v_blk (view s) b) = BSIZE"
    and finite_law: "inv s \<Longrightarrow> finite (v_pinned (view s)) \<and> finite (v_held (view s))"
    and unique_law: "inv s \<Longrightarrow> holds s i b \<Longrightarrow> holds s j c \<Longrightarrow> (i = j \<longleftrightarrow> b = c)"
begin

text \<open>Reading a block and releasing it leaves everything a client sees unchanged.\<close>

lemma bread_brelse:
  assumes "inv s" and "gettable (view s) b"
  shows "\<exists>i s1 s2. bread ROOTDEV b s = Ok (i, s1) \<and> getdata s1 i = v_blk (view s) b
      \<and> brelse i s1 = Ok s2 \<and> inv s2 \<and> view s2 = view s \<and> rest s2 = rest s
      \<and> rest s1 = rest s \<and> (\<forall>j c. holds s j c \<longrightarrow> holds s2 j c)"
proof -
  have b: "b < FSSIZE" "b \<notin> v_held (view s)"
    using assms(2) by (auto simp: gettable_def)
  obtain i s1 where s1: "bread ROOTDEV b s = Ok (i, s1)" "inv s1" "holds s1 i b"
      "view s1 = (view s)\<lparr>v_held := insert b (v_held (view s))\<rparr>"
      "\<forall>j c. holds s j c \<longrightarrow> holds s1 j c" "rest s1 = rest s"
    using bread_law [OF assms] by blast
  have "b \<in> v_pinned (view s1) \<or> v_blk (view s1) b = v_disk (view s1) b"
    using clean_law [OF assms(1) b] s1(4) by simp
  then obtain s2 where s2: "brelse i s1 = Ok s2" "inv s2" "rest s2 = rest s1"
      "view s2 = (view s1)\<lparr>v_held := v_held (view s1) - {b}\<rparr>"
      "\<forall>j c. j \<noteq> i \<and> holds s1 j c \<longrightarrow> holds s2 j c"
    using brelse_law [OF s1(2,3)] by blast
  have "view s2 = view s"
    using s2(4) s1(4) b(2) by (simp add: Diff_insert_absorb)
  moreover have "holds s2 j c" if "holds s j c" for j c
  proof -
    have "c \<noteq> b" using held_law [OF assms(1) that] b(2) by auto
    then have "j \<noteq> i" using unique_law [OF s1(2) s1(3), of j c] s1(5) that by auto
    then show ?thesis using s2(5) s1(5) that by blast
  qed
  moreover have "getdata s1 i = v_blk (view s) b"
    using getdata_law [OF s1(2,3)] s1(4) by simp
  ultimately show ?thesis using s1 s2 by auto
qed

text \<open>
  Copying block \<open>a\<close> over block \<open>b\<close> and writing it out, once both are held: the body of the loops of
  \<^verbatim>\<open>write_log\<close> and \<^verbatim>\<open>install_trans\<close>.
\<close>

lemma copy_held:
  assumes "inv s" and "a \<noteq> b" and "holds s i a" and "holds s j b"
    and "a \<in> v_pinned (view s) \<or> v_blk (view s) a = v_disk (view s) a"
  shows "\<exists>s3 s4 s5. getdata s i = v_blk (view s) a
      \<and> bwrite j (setdata j (v_blk (view s) a) s) = Ok s3 \<and> brelse i s3 = Ok s4 \<and> brelse j s4 = Ok s5
      \<and> inv s5 \<and> rest s5 = rest s
      \<and> view s5 = (view s)\<lparr>v_blk := (v_blk (view s))(b := v_blk (view s) a),
           v_disk := (v_disk (view s))(b := v_blk (view s) a),
           v_pinned := v_pinned (view s) - {b}, v_held := v_held (view s) - {a, b},
           v_trace := v_trace (view s) @ [(ROOTDEV, b, v_blk (view s) a)]\<rparr>"
proof -
  have ij: "i \<noteq> j" using unique_law [OF assms(1,3,4)] assms(2) by simp
  have len: "length (v_blk (view s) a) = BSIZE"
    using size_law assms(1) held_law [OF assms(1,3)] by blast
  let ?s = "setdata j (v_blk (view s) a) s"
  have st: "inv ?s" "view ?s = (view s)\<lparr>v_blk := (v_blk (view s))(b := v_blk (view s) a)\<rparr>"
      "holds ?s = holds s" "rest ?s = rest s"
    using setdata_law [OF assms(1,4) len] by auto
  obtain s3 where s3: "bwrite j ?s = Ok s3" "inv s3" "holds s3 = holds s" "rest s3 = rest s"
      "view s3 = (view ?s)\<lparr>v_disk := (v_disk (view ?s))(b := v_blk (view ?s) b),
              v_pinned := v_pinned (view ?s) - {b},
              v_trace := v_trace (view ?s) @ [(ROOTDEV, b, v_blk (view ?s) b)]\<rparr>"
    using bwrite_law [OF st(1), of j b] st(3,4) assms(4) by auto
  have "a \<in> v_pinned (view s3) \<or> v_blk (view s3) a = v_disk (view s3) a"
    using assms(2,5) st(2) s3(5) by auto
  then obtain s4 where s4: "brelse i s3 = Ok s4" "inv s4" "rest s4 = rest s3"
      "view s4 = (view s3)\<lparr>v_held := v_held (view s3) - {a}\<rparr>" "holds s4 j b"
    using brelse_law [OF s3(2), of i a] s3(3) assms(3,4) ij by auto
  have "v_blk (view s4) b = v_disk (view s4) b"
    using s4(4) s3(5) st(2) by simp
  then obtain s5 where s5: "brelse j s4 = Ok s5" "inv s5" "rest s5 = rest s4"
      "view s5 = (view s4)\<lparr>v_held := v_held (view s4) - {b}\<rparr>"
    using brelse_law [OF s4(2,5)] by blast
  have "v_held (view s) - {a} - {b} = v_held (view s) - {a, b}" by auto
  then show ?thesis
    using getdata_law [OF assms(1,3)] s3(1,4) s4(1,3) s5 s4(4) s3(5) st(2) by simp
qed

text \<open>Both ways of getting hold of the two buffers: the source first, or the destination first.\<close>

lemma bread_bread:
  assumes "inv s" and "a \<noteq> b" and "gettable (view s) a"
    and "gettable ((view s)\<lparr>v_held := insert a (v_held (view s))\<rparr>) b"
  shows "\<exists>i s1 j s2. bread ROOTDEV a s = Ok (i, s1) \<and> bread ROOTDEV b s1 = Ok (j, s2) \<and> inv s2
      \<and> holds s2 i a \<and> holds s2 j b \<and> rest s2 = rest s
      \<and> view s2 = (view s)\<lparr>v_held := insert b (insert a (v_held (view s)))\<rparr>"
proof -
  obtain i s1 where s1: "bread ROOTDEV a s = Ok (i, s1)" "inv s1" "holds s1 i a"
      "view s1 = (view s)\<lparr>v_held := insert a (v_held (view s))\<rparr>" "rest s1 = rest s"
    using bread_law [OF assms(1,3)] by blast
  then show ?thesis
    using bread_law [of s1 b] assms(4) by force
qed

lemma copy_block:
  assumes "inv s" and "a \<noteq> b" and "gettable (view s) a"
    and "gettable ((view s)\<lparr>v_held := insert a (v_held (view s))\<rparr>) b"
  shows "\<exists>i s1 j s2 s3 s4 s5. bread ROOTDEV a s = Ok (i, s1) \<and> bread ROOTDEV b s1 = Ok (j, s2)
      \<and> getdata s2 i = v_blk (view s) a
      \<and> bwrite j (setdata j (v_blk (view s) a) s2) = Ok s3 \<and> brelse i s3 = Ok s4 \<and> brelse j s4 = Ok s5
      \<and> inv s5 \<and> rest s5 = rest s
      \<and> view s5 = (view s)\<lparr>v_blk := (v_blk (view s))(b := v_blk (view s) a),
           v_disk := (v_disk (view s))(b := v_blk (view s) a),
           v_pinned := v_pinned (view s) - {b},
           v_trace := v_trace (view s) @ [(ROOTDEV, b, v_blk (view s) a)]\<rparr>"
proof -
  obtain i s1 j s2 where s2: "bread ROOTDEV a s = Ok (i, s1)" "bread ROOTDEV b s1 = Ok (j, s2)" "inv s2"
      "holds s2 i a" "holds s2 j b" "rest s2 = rest s"
      "view s2 = (view s)\<lparr>v_held := insert b (insert a (v_held (view s)))\<rparr>"
    using bread_bread [OF assms] by blast
  have "a \<in> v_pinned (view s2) \<or> v_blk (view s2) a = v_disk (view s2) a"
    using clean_law [OF assms(1), of a] assms(3) s2(7) by (simp add: gettable_def)
  note tail = copy_held [OF s2(3) assms(2) s2(4,5) this]
  have "insert b (insert a (v_held (view s))) - {a, b} = v_held (view s)"
    using assms(3,4) by (auto simp: gettable_def)
  then show ?thesis using tail s2(1,2,6,7) by simp
qed

lemma copy_block':
  assumes "inv s" and "a \<noteq> b" and "gettable (view s) b"
    and "gettable ((view s)\<lparr>v_held := insert b (v_held (view s))\<rparr>) a"
  shows "\<exists>j s1 i s2 s3 s4 s5. bread ROOTDEV b s = Ok (j, s1) \<and> bread ROOTDEV a s1 = Ok (i, s2)
      \<and> getdata s2 i = v_blk (view s) a
      \<and> bwrite j (setdata j (v_blk (view s) a) s2) = Ok s3 \<and> brelse i s3 = Ok s4 \<and> brelse j s4 = Ok s5
      \<and> inv s5 \<and> rest s5 = rest s
      \<and> view s5 = (view s)\<lparr>v_blk := (v_blk (view s))(b := v_blk (view s) a),
           v_disk := (v_disk (view s))(b := v_blk (view s) a),
           v_pinned := v_pinned (view s) - {b},
           v_trace := v_trace (view s) @ [(ROOTDEV, b, v_blk (view s) a)]\<rparr>"
proof -
  obtain j s1 i s2 where s2: "bread ROOTDEV b s = Ok (j, s1)" "bread ROOTDEV a s1 = Ok (i, s2)" "inv s2"
      "holds s2 j b" "holds s2 i a" "rest s2 = rest s"
      "view s2 = (view s)\<lparr>v_held := insert a (insert b (v_held (view s)))\<rparr>"
    using bread_bread [OF assms(1) assms(2) [symmetric] assms(3,4)] by blast
  have "a \<in> v_pinned (view s2) \<or> v_blk (view s2) a = v_disk (view s2) a"
    using clean_law [OF assms(1), of a] assms(4) s2(7) by (simp add: gettable_def)
  note tail = copy_held [OF s2(3) assms(2) s2(5,4) this]
  have "insert a (insert b (v_held (view s))) - {a, b} = v_held (view s)"
    using assms(3,4) by (auto simp: gettable_def)
  then show ?thesis using tail s2(1,2,6,7) by simp
qed

text \<open>
  A loop of such copies, over sources that no copy overwrites.  A block of \<open>P\<close> that a later iteration
  needs stays pinned until its turn.
\<close>

lemma copy_loop:
  assumes step: "\<And>t s. t \<in> set ts \<Longrightarrow> inv s \<Longrightarrow> rest s = r \<Longrightarrow> v_held (view s) = {} \<Longrightarrow>
      v_pinned (view s) \<subseteq> P \<Longrightarrow> {src t, dst t} \<inter> P \<subseteq> v_pinned (view s) \<Longrightarrow>
      \<exists>s'. f t s = Ok s' \<and> inv s' \<and> rest s' = r
        \<and> view s' = (view s)\<lparr>v_blk := (v_blk (view s))(dst t := v_blk (view s) (src t)),
             v_disk := (v_disk (view s))(dst t := v_blk (view s) (src t)),
             v_pinned := v_pinned (view s) - {dst t},
             v_trace := v_trace (view s) @ [(ROOTDEV, dst t, v_blk (view s) (src t))]\<rparr>"
    and "distinct (map dst ts)" and "src ` set ts \<inter> dst ` set ts = {}"
    and "inv s" and "rest s = r" and "v_held (view s) = {}" and "v_pinned (view s) \<subseteq> P"
    and "(src ` set ts \<union> dst ` set ts) \<inter> P \<subseteq> v_pinned (view s)"
  defines "tr \<equiv> map (\<lambda>t. (ROOTDEV, dst t, v_blk (view s) (src t))) ts"
  shows "\<exists>s'. for_each f ts s = Ok s' \<and> inv s' \<and> rest s' = r
      \<and> view s' = (view s)\<lparr>v_blk := writes tr (v_blk (view s)), v_disk := writes tr (v_disk (view s)),
           v_pinned := v_pinned (view s) - dst ` set ts, v_trace := v_trace (view s) @ tr\<rparr>"
  unfolding tr_def using assms(1-8)
proof (induction ts arbitrary: s)
  case Nil
  then show ?case by simp
next
  case (Cons t ts)
  have "{src t, dst t} \<inter> P \<subseteq> v_pinned (view s)"
    using Cons.prems(8) by auto
  from Cons.prems(1) [OF list.set_intros(1) Cons.prems(4,5,6,7) this]
  obtain s1 where s1: "f t s = Ok s1" "inv s1" "rest s1 = r"
      "view s1 = (view s)\<lparr>v_blk := (v_blk (view s))(dst t := v_blk (view s) (src t)),
             v_disk := (v_disk (view s))(dst t := v_blk (view s) (src t)),
             v_pinned := v_pinned (view s) - {dst t},
             v_trace := v_trace (view s) @ [(ROOTDEV, dst t, v_blk (view s) (src t))]\<rparr>"
    by blast
  have src: "src u \<noteq> dst t" if "u \<in> set ts" for u
    using Cons.prems(3) that by (auto simp: image_iff)
  then have tr: "map (\<lambda>t. (ROOTDEV, dst t, v_blk (view s1) (src t))) ts
      = map (\<lambda>t. (ROOTDEV, dst t, v_blk (view s) (src t))) ts"
    using s1(4) by simp
  have "dst t \<notin> src ` set ts" "dst t \<notin> dst ` set ts"
    using src Cons.prems(2) by (force, simp)
  then have "(src ` set ts \<union> dst ` set ts) \<inter> P \<subseteq> v_pinned (view s1)"
    using Cons.prems(8) s1(4) by auto
  then have "\<exists>s'. for_each f ts s1 = Ok s' \<and> inv s' \<and> rest s' = r
      \<and> view s' = (view s1)\<lparr>
           v_blk := writes (map (\<lambda>t. (ROOTDEV, dst t, v_blk (view s1) (src t))) ts) (v_blk (view s1)),
           v_disk := writes (map (\<lambda>t. (ROOTDEV, dst t, v_blk (view s1) (src t))) ts) (v_disk (view s1)),
           v_pinned := v_pinned (view s1) - dst ` set ts,
           v_trace := v_trace (view s1) @ map (\<lambda>t. (ROOTDEV, dst t, v_blk (view s1) (src t))) ts\<rparr>"
    using Cons.prems s1 by (intro Cons.IH) auto
  then obtain s' where "for_each f ts s1 = Ok s'" "inv s'" "rest s' = r"
      "view s' = (view s1)\<lparr>
           v_blk := writes (map (\<lambda>t. (ROOTDEV, dst t, v_blk (view s) (src t))) ts) (v_blk (view s1)),
           v_disk := writes (map (\<lambda>t. (ROOTDEV, dst t, v_blk (view s) (src t))) ts) (v_disk (view s1)),
           v_pinned := v_pinned (view s1) - dst ` set ts,
           v_trace := v_trace (view s1) @ map (\<lambda>t. (ROOTDEV, dst t, v_blk (view s) (src t))) ts\<rparr>"
    unfolding tr by blast
  moreover have "v_pinned (view s) - {dst t} - dst ` set ts = v_pinned (view s) - dst ` set (t # ts)"
    by auto
  ultimately show ?case
    using s1(1,4) by simp
qed

text \<open>
  A held block rewritten, written out and released: the header block in \<^verbatim>\<open>write_head\<close>.
\<close>

lemma rewrite_block:
  assumes "inv s" and "gettable (view s) b" and "\<And>d. length d = BSIZE \<Longrightarrow> length (f d) = BSIZE"
  shows "\<exists>i s1 s2 s3. bread ROOTDEV b s = Ok (i, s1) \<and> getdata s1 i = v_blk (view s) b
      \<and> bwrite i (setdata i (f (v_blk (view s) b)) s1) = Ok s2 \<and> brelse i s2 = Ok s3
      \<and> inv s3 \<and> rest s3 = rest s
      \<and> view s3 = (view s)\<lparr>v_blk := (v_blk (view s))(b := f (v_blk (view s) b)),
           v_disk := (v_disk (view s))(b := f (v_blk (view s) b)),
           v_pinned := v_pinned (view s) - {b},
           v_trace := v_trace (view s) @ [(ROOTDEV, b, f (v_blk (view s) b))]\<rparr>"
proof -
  have b: "b < FSSIZE" "b \<notin> v_held (view s)"
    using assms(2) by (auto simp: gettable_def)
  let ?d = "f (v_blk (view s) b)"
  have len: "length ?d = BSIZE" using assms(3) size_law [OF assms(1) b(1)] .
  obtain i s1 where s1: "bread ROOTDEV b s = Ok (i, s1)" "inv s1" "holds s1 i b"
      "view s1 = (view s)\<lparr>v_held := insert b (v_held (view s))\<rparr>" "rest s1 = rest s"
    using bread_law [OF assms(1,2)] by blast
  let ?s = "setdata i ?d s1"
  have st: "inv ?s" "view ?s = (view s1)\<lparr>v_blk := (v_blk (view s1))(b := ?d)\<rparr>"
      "holds ?s i b" "rest ?s = rest s1"
    using setdata_law [OF s1(2,3) len] s1(3) by auto
  obtain s2 where s2: "bwrite i ?s = Ok s2" "inv s2" "holds s2 = holds ?s" "rest s2 = rest ?s"
      "view s2 = (view ?s)\<lparr>v_disk := (v_disk (view ?s))(b := v_blk (view ?s) b),
              v_pinned := v_pinned (view ?s) - {b},
              v_trace := v_trace (view ?s) @ [(ROOTDEV, b, v_blk (view ?s) b)]\<rparr>"
    using bwrite_law [OF st(1,3)] by blast
  have "v_blk (view s2) b = v_disk (view s2) b"
    using s2(5) st(2) by simp
  then obtain s3 where s3: "brelse i s2 = Ok s3" "inv s3" "rest s3 = rest s2"
      "view s3 = (view s2)\<lparr>v_held := v_held (view s2) - {b}\<rparr>"
    using brelse_law [OF s2(2), of i b] s2(3) st(3) by auto
  have "insert b (v_held (view s)) - {b} = v_held (view s)"
    using b(2) by auto
  then have "view s3 = (view s)\<lparr>v_blk := (v_blk (view s))(b := ?d),
           v_disk := (v_disk (view s))(b := ?d), v_pinned := v_pinned (view s) - {b},
           v_trace := v_trace (view s) @ [(ROOTDEV, b, ?d)]\<rparr>"
    using s3(4) s2(5) st(2) s1(4) by simp
  moreover have "getdata s1 i = v_blk (view s) b"
    using getdata_law [OF s1(2,3)] s1(4) by simp
  ultimately show ?thesis
    using s1(1,5) st(4) s2(1,4) s3(1,2,3) by auto
qed

text \<open>
  A block modified under \<^verbatim>\<open>log_write\<close>: read, changed, pinned and released, so that it stays in the
  cache and the drive is not touched.
\<close>

lemma update_block:
  assumes "inv s" and "gettable (view s) b" and "length d = BSIZE"
  shows "\<exists>i s1 s2. bread ROOTDEV b s = Ok (i, s1) \<and> getdata s1 i = v_blk (view s) b
      \<and> holds s1 i b \<and> rest s1 = rest s \<and> inv (setdata i d s1) \<and> rest (setdata i d s1) = rest s
      \<and> holds (setdata i d s1) i b \<and> rest (pin i (setdata i d s1)) = rest s
      \<and> brelse i (pin i (setdata i d s1)) = Ok s2 \<and> inv s2 \<and> rest s2 = rest s
      \<and> (\<forall>j c. holds s j c \<longrightarrow> holds s2 j c)
      \<and> view s2 = (view s)\<lparr>v_blk := (v_blk (view s))(b := d), v_pinned := insert b (v_pinned (view s))\<rparr>"
proof -
  have b: "b < FSSIZE" "b \<notin> v_held (view s)"
    using assms(2) by (auto simp: gettable_def)
  obtain i s1 where s1: "bread ROOTDEV b s = Ok (i, s1)" "inv s1" "holds s1 i b"
      "view s1 = (view s)\<lparr>v_held := insert b (v_held (view s))\<rparr>"
      "\<forall>j c. holds s j c \<longrightarrow> holds s1 j c" "rest s1 = rest s"
    using bread_law [OF assms(1,2)] by blast
  let ?s = "setdata i d s1" and ?p = "pin i (setdata i d s1)"
  have st: "inv ?s" "view ?s = (view s1)\<lparr>v_blk := (v_blk (view s1))(b := d)\<rparr>"
      "holds ?s = holds s1" "rest ?s = rest s1"
    using setdata_law [OF s1(2,3) assms(3)] by auto
  have pn: "inv ?p" "view ?p = (view ?s)\<lparr>v_pinned := insert b (v_pinned (view ?s))\<rparr>"
      "holds ?p = holds s1" "rest ?p = rest ?s"
    using pin_law [OF st(1), of i b] st(3) s1(3) by auto
  obtain s2 where s2: "brelse i ?p = Ok s2" "inv s2" "rest s2 = rest ?p"
      "view s2 = (view ?p)\<lparr>v_held := v_held (view ?p) - {b}\<rparr>"
      "\<forall>j c. j \<noteq> i \<and> holds s1 j c \<longrightarrow> holds s2 j c"
    using brelse_law [OF pn(1), of i b] pn(2,3) s1(3) by auto
  have "insert b (v_held (view s)) - {b} = v_held (view s)"
    using b(2) by auto
  then have "view s2 = (view s)\<lparr>v_blk := (v_blk (view s))(b := d), v_pinned := insert b (v_pinned (view s))\<rparr>"
    using s2(4) pn(2) st(2) s1(4) by simp
  moreover have "holds s2 j c" if "holds s j c" for j c
  proof -
    have "c \<noteq> b" using held_law [OF assms(1) that] b(2) by auto
    then have "j \<noteq> i" using unique_law [OF s1(2) s1(3), of j c] s1(5) that by auto
    then show ?thesis using s2(5) s1(5) that by blast
  qed
  moreover have "getdata s1 i = v_blk (view s) b"
    using getdata_law [OF s1(2,3)] s1(4) by simp
  ultimately show ?thesis
    using s1(1,3,6) st pn(4) s2(1,2,3) by auto
qed

end

end
