(* ===== verification/Bio.thy ===== *)
theory Bio
  imports Ide Block_Cache
begin

text \<open>
  The buffer cache \<^verbatim>\<open>kernel/bio.c\<close>.  The doubly linked list of the buffers is modelled with its
  pointers: \<open>b_next\<close> and \<open>b_prev\<close> hold indices, \<^term>\<open>NBUF\<close> stands for \<^verbatim>\<open>&bcache.head\<close>.  The first part
  shows that the pointer operations implement operations on a list of buffers (find, move to the
  front); the second that the cache keeps the contract of \<^verbatim>\<open>Block_Cache\<close>.  The critical
  sections under \<^verbatim>\<open>bcache.lock\<close> are single steps.
\<close>

section \<open>The code\<close>

definition setnext :: "nat \<Rightarrow> nat \<Rightarrow> (nat \<Rightarrow> buf) \<Rightarrow> (nat \<Rightarrow> buf)" where
  "setnext i v bs = bs(i := (bs i)\<lparr>b_next := v\<rparr>)"

definition setprev :: "nat \<Rightarrow> nat \<Rightarrow> (nat \<Rightarrow> buf) \<Rightarrow> (nat \<Rightarrow> buf)" where
  "setprev i v bs = bs(i := (bs i)\<lparr>b_prev := v\<rparr>)"

text \<open>The last four assignments of the loop of \<^verbatim>\<open>binit\<close> and of \<^verbatim>\<open>brelse\<close>: \<open>b\<close> becomes the first buffer.\<close>

definition push_front :: "nat \<Rightarrow> (nat \<Rightarrow> buf) \<Rightarrow> (nat \<Rightarrow> buf)" where
  "push_front b bs =
     (let bs = setnext b (b_next (bs NBUF)) bs;
          bs = setprev b NBUF bs;
          bs = setprev (b_next (bs NBUF)) b bs
      in setnext NBUF b bs)"

definition unlink_buf :: "nat \<Rightarrow> (nat \<Rightarrow> buf) \<Rightarrow> (nat \<Rightarrow> buf)" where
  "unlink_buf b bs =
     (let bs = setprev (b_next (bs b)) (b_prev (bs b)) bs
      in setnext (b_prev (bs b)) (b_next (bs b)) bs)"

definition binit_step :: "nat \<Rightarrow> (nat \<Rightarrow> buf) \<Rightarrow> (nat \<Rightarrow> buf)" where
  "binit_step b bs = push_front b (bs(b := (bs b)\<lparr>b_dev := 2 ^ 32 - 1\<rparr>))"

definition binit :: "'z bstate_scheme \<Rightarrow> 'z bstate_scheme" where
  "binit s =
     s\<lparr>bufs := fold binit_step [0..<NBUF] (setnext NBUF NBUF (setprev NBUF NBUF (bufs s)))\<rparr>"

text \<open>The two loops of \<^verbatim>\<open>bget\<close>: along \<^verbatim>\<open>next\<close> or \<^verbatim>\<open>prev\<close> until the head comes round again.\<close>

fun bfind :: "(buf \<Rightarrow> nat) \<Rightarrow> (buf \<Rightarrow> bool) \<Rightarrow> nat \<Rightarrow> (nat \<Rightarrow> buf) \<Rightarrow> nat \<Rightarrow> nat option res" where
  "bfind link P n bs b =
     (if b = NBUF then Ok None
      else if P (bs b) then Ok (Some b)
      else case n of 0 \<Rightarrow> Undef | Suc m \<Rightarrow> bfind link P m bs (link (bs b)))"

declare bfind.simps [simp del]

definition bget :: "nat \<Rightarrow> nat \<Rightarrow> 'z bstate_scheme \<Rightarrow> (nat \<times> 'z bstate_scheme) res" where
  "bget dev blockno s =
     rbind (bfind b_next (\<lambda>b. b_dev b = dev \<and> b_blockno b = blockno) NBUF (bufs s)
              (b_next (bufs s NBUF)))
       (\<lambda>r. case r of
          Some b \<Rightarrow>
            if \<not> b_busy (bufs s b) then Ok (b, setbuf b ((bufs s b)\<lparr>b_busy := True\<rparr>) s) else Sleeps
        | None \<Rightarrow>
            rbind (bfind b_prev (\<lambda>b. \<not> b_busy b \<and> \<not> b_dirty b) NBUF (bufs s) (b_prev (bufs s NBUF)))
              (\<lambda>r. case r of
                 Some b \<Rightarrow>
                   Ok (b, setbuf b ((bufs s b)\<lparr>b_dev := dev, b_blockno := blockno, b_busy := True,
                                       b_valid := False, b_dirty := False\<rparr>) s)
               | None \<Rightarrow> Panic ''bget: no buffers''))"

definition bread :: "nat \<Rightarrow> nat \<Rightarrow> 'z bstate_scheme \<Rightarrow> (nat \<times> 'z bstate_scheme) res" where
  "bread dev blockno s =
     rbind (bget dev blockno s)
       (\<lambda>(b, s). if \<not> b_valid (bufs s b) then rbind (iderw b s) (\<lambda>s. Ok (b, s)) else Ok (b, s))"

definition bwrite :: "nat \<Rightarrow> 'z bstate_scheme \<Rightarrow> 'z bstate_scheme res" where
  "bwrite b s =
     (if \<not> b_busy (bufs s b) then Panic ''bwrite''
      else iderw b (setbuf b ((bufs s b)\<lparr>b_dirty := True\<rparr>) s))"

definition brelse :: "nat \<Rightarrow> 'z bstate_scheme \<Rightarrow> 'z bstate_scheme res" where
  "brelse b s =
     (if \<not> b_busy (bufs s b) then Panic ''brelse''
      else
        let bs = push_front b (unlink_buf b (bufs s))
        in Ok (s\<lparr>bufs := bs(b := (bs b)\<lparr>b_busy := False\<rparr>)\<rparr>))"

section \<open>The linked list\<close>

fun linked :: "(nat \<Rightarrow> buf) \<Rightarrow> nat list \<Rightarrow> bool" where
  "linked bs (a # b # xs) \<longleftrightarrow> b_next (bs a) = b \<and> b_prev (bs b) = a \<and> linked bs (b # xs)"
| "linked bs _ \<longleftrightarrow> True"

definition dll :: "(nat \<Rightarrow> buf) \<Rightarrow> nat list \<Rightarrow> bool" where
  "dll bs xs \<longleftrightarrow> linked bs (NBUF # xs @ [NBUF]) \<and> distinct xs \<and> set xs \<subseteq> {..<NBUF}"

lemma linked_split: "linked bs (xs @ a # ys) \<longleftrightarrow> linked bs (xs @ [a]) \<and> linked bs (a # ys)"
proof (induction xs)
  case Nil
  then show ?case by simp
next
  case (Cons x xs)
  then show ?case by (cases xs) auto
qed

lemma linked_cong:
  "(\<And>a. a \<in> set (butlast xs) \<Longrightarrow> b_next (bs a) = b_next (cs a)) \<Longrightarrow>
   (\<And>a. a \<in> set (tl xs) \<Longrightarrow> b_prev (bs a) = b_prev (cs a)) \<Longrightarrow>
   linked bs xs = linked cs xs"
proof (induction xs rule: induct_list012)
  case (3 x y zs)
  have "linked bs (y # zs) = linked cs (y # zs)"
  proof (rule "3.IH")
    fix a assume "a \<in> set (butlast (y # zs))"
    then show "b_next (bs a) = b_next (cs a)" using "3.prems"(1) by (auto split: if_splits)
  next
    fix a assume "a \<in> set (tl (y # zs))"
    then show "b_prev (bs a) = b_prev (cs a)" using "3.prems"(2) by auto
  qed
  with "3.prems" show ?case by auto
qed auto

lemma bfind_next:
  assumes "linked bs (a # xs @ [NBUF])" and "NBUF \<notin> set xs" and "length xs \<le> n"
  shows "bfind b_next P n bs (b_next (bs a)) = Ok (List.find (\<lambda>i. P (bs i)) xs)"
  using assms
proof (induction xs arbitrary: a n)
  case Nil
  then show ?case by (simp add: bfind.simps)
next
  case (Cons x xs)
  then obtain m where "n = Suc m" by (cases n) auto
  with Cons show ?case by (simp add: bfind.simps [of _ _ "Suc m"])
qed

lemma bfind_prev:
  assumes "linked bs (NBUF # xs @ [a])" and "NBUF \<notin> set xs" and "length xs \<le> n"
  shows "bfind b_prev P n bs (b_prev (bs a)) = Ok (List.find (\<lambda>i. P (bs i)) (rev xs))"
  using assms
proof (induction xs arbitrary: a n rule: rev_induct)
  case Nil
  then show ?case by (simp add: bfind.simps)
next
  case (snoc x xs)
  then obtain m where m: "n = Suc m" by (cases n) auto
  have "linked bs ((NBUF # xs) @ x # [a])" using snoc.prems(1) by simp
  then have l: "linked bs (NBUF # xs @ [x])" "b_prev (bs a) = x"
    using linked_split [of bs "NBUF # xs" x "[a]"] by auto
  with snoc.IH [OF l(1), of m] snoc.prems m show ?case
    by (simp add: bfind.simps [of _ _ "Suc m"])
qed

lemma links_frame [simp]:
  "b_next (setprev i v bs j) = b_next (bs j)" "b_prev (setnext i v bs j) = b_prev (bs j)"
  "b_next (setnext i v bs j) = (if j = i then v else b_next (bs j))"
  "b_prev (setprev i v bs j) = (if j = i then v else b_prev (bs j))"
  by (simp_all add: setnext_def setprev_def)

lemma unlink_buf_linked:
  assumes "linked bs (NBUF # ys @ i # zs @ [NBUF])" and "distinct (NBUF # ys @ i # zs)"
  shows "linked (unlink_buf i bs) (NBUF # ys @ zs @ [NBUF])"
proof -
  obtain L p where Lp: "NBUF # ys = L @ [p]" by (cases "NBUF # ys" rule: rev_cases) auto
  obtain q R where qR: "zs @ [NBUF] = q # R" by (cases "zs @ [NBUF]") auto
  have "linked bs (L @ p # i # q # R)"
    using assms(1) Lp qR by (metis append.assoc append_Cons append_Nil)
  then have l: "linked bs (L @ [p])" "b_next (bs p) = i" "b_prev (bs i) = p" "b_next (bs i) = q"
      "b_prev (bs q) = i" "linked bs (q # R)"
    using linked_split [of bs L p "i # q # R"] by auto
  have sp: "p \<in> set (NBUF # ys)" and sq: "q \<in> set (zs @ [NBUF])"
    using Lp qR by (auto simp: set_eq_iff)
  have bl: "butlast (q # R) = zs" using qR by (metis butlast_snoc)
  have d: "p \<notin> set L" "q \<notin> set R"
  proof -
    have "distinct (L @ [p])" using assms(2) Lp by (metis append_Cons distinct_append)
    then show "p \<notin> set L" by simp
    have "distinct (q # R)" using assms(2) qR [symmetric] by auto
    then show "q \<notin> set R" by simp
  qed
  have pz: "p \<notin> set zs" and qy: "q \<notin> set ys" and ip: "i \<noteq> p" and iq: "i \<noteq> q"
    using sp sq assms(2) by auto
  have tlL: "tl (L @ [p]) = ys" using Lp by (metis list.sel(3))
  have u: "unlink_buf i bs = setnext p q (setprev q p bs)"
    using l iq by (simp add: unlink_buf_def Let_def)
  have "linked (unlink_buf i bs) (L @ [p])"
    using l(1) d(1) qy tlL unfolding u
    by (subst linked_cong [where cs = bs]) auto
  moreover have "linked (unlink_buf i bs) (q # R)"
    using l(6) d(2) pz bl unfolding u
    by (subst linked_cong [where cs = bs]) (auto split: if_splits)
  ultimately have "linked (unlink_buf i bs) (L @ p # q # R)"
    using linked_split [of "unlink_buf i bs" L p "q # R"] by (simp add: u)
  then show ?thesis
    using Lp qR by (metis append.assoc append_Cons append_Nil)
qed

lemma push_front_linked:
  assumes "linked bs (NBUF # xs @ [NBUF])" and "distinct (NBUF # i # xs)"
  shows "linked (push_front i bs) (NBUF # i # xs @ [NBUF])"
proof -
  obtain q R where qR: "xs @ [NBUF] = q # R" by (cases "xs @ [NBUF]") auto
  have l: "b_next (bs NBUF) = q" "b_prev (bs q) = NBUF" "linked bs (q # R)"
    using assms(1) qR by auto
  have "distinct (q # R)" using assms(2) qR [symmetric] by auto
  then have d: "q \<notin> set R" by simp
  have iq: "i \<noteq> q" using assms(2) qR by (cases xs) auto
  have bl: "butlast (q # R) = xs" using qR by (metis butlast_snoc)
  have iR: "i \<notin> set R" using assms(2) qR by (cases xs) auto
  have p: "push_front i bs = setnext NBUF i (setprev q i (setprev i NBUF (setnext i q bs)))"
    using l(1) assms(2) by (simp add: push_front_def Let_def)
  have "linked (push_front i bs) (q # R)"
    using l(3) d bl iR assms(2) unfolding p
    by (subst linked_cong [where cs = bs]) (auto split: if_splits)
  then have "linked (push_front i bs) (NBUF # i # q # R)"
    using assms(2) iq by (simp add: p)
  then show ?thesis using qR by simp
qed


lemma dll_cong:
  "(\<And>i. b_next (bs i) = b_next (cs i)) \<Longrightarrow> (\<And>i. b_prev (bs i) = b_prev (cs i)) \<Longrightarrow>
   dll bs xs = dll cs xs"
  using linked_cong [of "NBUF # xs @ [NBUF]" bs cs] by (simp add: dll_def)

lemma dll_length: "dll bs xs \<Longrightarrow> length xs \<le> NBUF"
  using card_mono [of "{..<NBUF}" "set xs"] by (auto simp: dll_def distinct_card)

lemma dll_bfind:
  assumes "dll bs xs"
  shows "bfind b_next P NBUF bs (b_next (bs NBUF)) = Ok (List.find (\<lambda>i. P (bs i)) xs)"
    and "bfind b_prev P NBUF bs (b_prev (bs NBUF)) = Ok (List.find (\<lambda>i. P (bs i)) (rev xs))"
proof -
  have "linked bs (NBUF # xs @ [NBUF])" "NBUF \<notin> set xs" "length xs \<le> NBUF"
    using assms dll_length [OF assms] by (auto simp: dll_def)
  then show "bfind b_next P NBUF bs (b_next (bs NBUF)) = Ok (List.find (\<lambda>i. P (bs i)) xs)"
    and "bfind b_prev P NBUF bs (b_prev (bs NBUF)) = Ok (List.find (\<lambda>i. P (bs i)) (rev xs))"
    using bfind_next bfind_prev by blast+
qed

lemma brelse_dll:
  assumes "dll bs (ys @ i # zs)"
  shows "dll (push_front i (unlink_buf i bs)) (i # ys @ zs)"
proof -
  have d: "distinct (NBUF # ys @ i # zs)" using assms by (auto simp: dll_def)
  then have "linked (unlink_buf i bs) (NBUF # (ys @ zs) @ [NBUF])"
    using unlink_buf_linked [of bs ys i zs] assms by (simp add: dll_def)
  then have "linked (push_front i (unlink_buf i bs)) (NBUF # i # (ys @ zs) @ [NBUF])"
    by (rule push_front_linked) (use d in auto)
  with assms show ?thesis by (auto simp: dll_def)
qed

lemma binit_fold:
  assumes "n \<le> NBUF"
  shows "dll (fold binit_step [0..<n] (setnext NBUF NBUF (setprev NBUF NBUF bs))) (rev [0..<n])"
  using assms
proof (induction n)
  case 0
  then show ?case by (simp add: dll_def)
next
  case (Suc n)
  let ?b = "fold binit_step [0..<n] (setnext NBUF NBUF (setprev NBUF NBUF bs))"
  let ?c = "?b(n := (?b n)\<lparr>b_dev := 2 ^ 32 - 1\<rparr>)"
  have "dll ?c (rev [0..<n])"
    using Suc by (subst dll_cong [where cs = ?b]) auto
  then have "linked (push_front n ?c) (NBUF # n # rev [0..<n] @ [NBUF])"
    using Suc.prems by (intro push_front_linked) (auto simp: dll_def)
  moreover have "binit_step n ?b = push_front n ?c"
    by (simp add: binit_step_def)
  ultimately show ?case
    using Suc.prems by (auto simp: dll_def)
qed

lemma links_other_fields [simp]:
  "b_busy (setnext i v bs j) = b_busy (bs j)" "b_busy (setprev i v bs j) = b_busy (bs j)"
  "b_valid (setnext i v bs j) = b_valid (bs j)" "b_valid (setprev i v bs j) = b_valid (bs j)"
  "b_dirty (setnext i v bs j) = b_dirty (bs j)" "b_dirty (setprev i v bs j) = b_dirty (bs j)"
  "b_dev (setnext i v bs j) = b_dev (bs j)" "b_dev (setprev i v bs j) = b_dev (bs j)"
  "b_blockno (setnext i v bs j) = b_blockno (bs j)" "b_blockno (setprev i v bs j) = b_blockno (bs j)"
  "b_data (setnext i v bs j) = b_data (bs j)" "b_data (setprev i v bs j) = b_data (bs j)"
  by (simp_all add: setnext_def setprev_def)

lemma move_front_fields [simp]:
  "b_busy (push_front i (unlink_buf i bs) j) = b_busy (bs j)"
  "b_valid (push_front i (unlink_buf i bs) j) = b_valid (bs j)"
  "b_dirty (push_front i (unlink_buf i bs) j) = b_dirty (bs j)"
  "b_dev (push_front i (unlink_buf i bs) j) = b_dev (bs j)"
  "b_blockno (push_front i (unlink_buf i bs) j) = b_blockno (bs j)"
  "b_data (push_front i (unlink_buf i bs) j) = b_data (bs j)"
  by (simp_all add: push_front_def unlink_buf_def Let_def)

section \<open>What the clients see\<close>

definition getdata :: "'z bstate_scheme \<Rightarrow> nat \<Rightarrow> byte list" where
  "getdata s i = b_data (bufs s i)"

definition setdata :: "nat \<Rightarrow> byte list \<Rightarrow> 'z bstate_scheme \<Rightarrow> 'z bstate_scheme" where
  "setdata i d s = setbuf i ((bufs s i)\<lparr>b_data := d\<rparr>) s"

definition pin :: "nat \<Rightarrow> 'z bstate_scheme \<Rightarrow> 'z bstate_scheme" where
  "pin i s = setbuf i ((bufs s i)\<lparr>b_dirty := True\<rparr>) s"

definition cached_at :: "'z bstate_scheme \<Rightarrow> nat \<Rightarrow> nat \<Rightarrow> bool" where
  "cached_at s b i \<longleftrightarrow> i < NBUF \<and> b_valid (bufs s i) \<and> b_blockno (bufs s i) = b"

definition blk :: "'z bstate_scheme \<Rightarrow> nat \<Rightarrow> byte list" where
  "blk s b = (case List.find (cached_at s b) [0..<NBUF] of Some i \<Rightarrow> b_data (bufs s i)
              | None \<Rightarrow> disk s ROOTDEV b)"

definition holds :: "'z bstate_scheme \<Rightarrow> nat \<Rightarrow> nat \<Rightarrow> bool" where
  "holds s i b \<longleftrightarrow> cached_at s b i \<and> b_busy (bufs s i)"

definition view :: "'z bstate_scheme \<Rightarrow> bview" where
  "view s = \<lparr>v_blk = blk s, v_disk = disk s ROOTDEV,
     v_pinned = {b. \<exists>i<NBUF. b_dirty (bufs s i) \<and> b_blockno (bufs s i) = b},
     v_held = {b. \<exists>i<NBUF. b_busy (bufs s i) \<and> b_blockno (bufs s i) = b},
     v_trace = dtrace s\<rparr>"

definition buf_ok :: "(nat \<Rightarrow> byte list) \<Rightarrow> buf \<Rightarrow> bool" where
  "buf_ok dk b \<longleftrightarrow> (b_valid b \<longleftrightarrow> b_dev b = ROOTDEV) \<and> (b_busy b \<or> b_dirty b \<longrightarrow> b_valid b)
     \<and> (b_valid b \<longrightarrow> b_blockno b < FSSIZE \<and> length (b_data b) = BSIZE
          \<and> (b_busy b \<or> b_dirty b \<or> b_data b = dk (b_blockno b)))"

definition bc_inv :: "'z bstate_scheme \<Rightarrow> bool" where
  "bc_inv s \<longleftrightarrow> (\<exists>xs. dll (bufs s) xs \<and> set xs = {..<NBUF})
     \<and> (\<forall>b i j. cached_at s b i \<and> cached_at s b j \<longrightarrow> i = j)
     \<and> (\<forall>i<NBUF. buf_ok (disk s ROOTDEV) (bufs s i))
     \<and> idequeue s = [] \<and> havedisk1 s
     \<and> (\<forall>b<FSSIZE. \<not> badsect s ROOTDEV b \<and> length (disk s ROOTDEV b) = BSIZE)"

lemmas cache_defs = getdata_def setdata_def pin_def holds_def view_def cached_at_def

lemma bc_inv_unique: "bc_inv s \<Longrightarrow> cached_at s b i \<Longrightarrow> cached_at s b j \<Longrightarrow> i = j"
  by (auto simp: bc_inv_def)

lemma bc_inv_buf: "bc_inv s \<Longrightarrow> i < NBUF \<Longrightarrow> buf_ok (disk s ROOTDEV) (bufs s i)"
  by (auto simp: bc_inv_def)

lemma blk_cached:
  assumes "\<And>j. cached_at s b j \<Longrightarrow> j = i" and "cached_at s b i"
  shows "blk s b = b_data (bufs s i)"
proof -
  have "i \<in> set [0..<NBUF]" using assms(2) by (simp add: cached_at_def)
  then obtain j where "List.find (cached_at s b) [0..<NBUF] = Some j"
    using find_ex assms(2) by metis
  moreover from this have "j = i" using find_SomeD assms(1) by metis
  ultimately show ?thesis by (simp add: blk_def)
qed

lemma blk_uncached: "(\<And>i. \<not> cached_at s b i) \<Longrightarrow> blk s b = disk s ROOTDEV b"
  by (auto simp: blk_def dest!: find_SomeD split: option.splits)

lemma blk_inv_cached: "bc_inv s \<Longrightarrow> cached_at s b i \<Longrightarrow> blk s b = b_data (bufs s i)"
  by (rule blk_cached) (auto dest: bc_inv_unique)

text \<open>Two states whose buffers hold the same blocks with the same data show the same contents.\<close>

lemma blk_cong:
  assumes "\<And>i. i < NBUF \<Longrightarrow> b_valid (bufs s i) = b_valid (bufs t i)
      \<and> b_blockno (bufs s i) = b_blockno (bufs t i) \<and> b_data (bufs s i) = b_data (bufs t i)"
    and "disk s ROOTDEV = disk t ROOTDEV"
  shows "blk s = blk t"
proof
  fix b
  have "List.find (cached_at s b) [0..<NBUF] = List.find (cached_at t b) [0..<NBUF]"
    by (rule find_cong) (auto simp: cached_at_def assms)
  then show "blk s b = blk t b"
    using assms by (auto simp: blk_def split: option.splits dest!: find_SomeD)
qed


text \<open>The view depends on the fields of the cache alone.\<close>

lemma same_cache:
  fixes s :: "'a bstate_scheme" and t :: "'b bstate_scheme"
  assumes "bstate.truncate s = bstate.truncate t"
  shows "view s = view t" "bc_inv s = bc_inv t" "holds s = holds t"
proof -
  have eq: "bufs s = bufs t" "disk s = disk t" "dtrace s = dtrace t" "idequeue s = idequeue t"
      "havedisk1 s = havedisk1 t" "badsect s = badsect t"
    using assms by (simp_all add: bstate.truncate_def)
  then have c: "cached_at s = cached_at t"
    by (simp add: fun_eq_iff cached_at_def)
  with eq have "blk s = blk t"
    by (intro ext) (simp add: blk_def split: option.split)
  with eq c show "view s = view t" "bc_inv s = bc_inv t" "holds s = holds t"
    unfolding view_def bc_inv_def by (simp_all add: holds_def [abs_def])
qed

lemma blk_update:
  assumes "bc_inv s" and "cached_at s b i" and "\<And>c j. cached_at t c j = cached_at s c j"
    and "\<And>j. j \<noteq> i \<Longrightarrow> b_data (bufs t j) = b_data (bufs s j)"
    and "\<And>c. c \<noteq> b \<Longrightarrow> disk t ROOTDEV c = disk s ROOTDEV c"
  shows "blk t = (blk s)(b := b_data (bufs t i))"
proof
  fix c
  have u: "cached_at s c j \<Longrightarrow> cached_at s c k \<Longrightarrow> j = k" for c j k
    using bc_inv_unique [OF assms(1)] by blast
  show "blk t c = ((blk s)(b := b_data (bufs t i))) c"
  proof (cases "c = b")
    case True
    then show ?thesis using blk_cached [of t b i] assms(2,3) u by auto
  next
    case False
    show ?thesis
    proof (cases "\<exists>j. cached_at s c j")
      case True
      then obtain j where j: "cached_at s c j" by blast
      then have "j \<noteq> i" using assms(2) False by (auto simp: cached_at_def)
      then show ?thesis
        using blk_cached [of t c j] blk_inv_cached [OF assms(1) j] assms(3,4) j u False by auto
    next
      case none: False
      then show ?thesis using blk_uncached [of s c] blk_uncached [of t c] assms(3,5) False by auto
    qed
  qed
qed

text \<open>A state reached from an invariant one by changing the buffer \<open>i\<close> only, its links apart.\<close>

lemma bc_inv_setbuf:
  assumes "bc_inv s" and "i < NBUF" and "b_next b = b_next (bufs s i)" and "b_prev b = b_prev (bufs s i)"
    and "\<And>j. b_valid b \<Longrightarrow> cached_at s (b_blockno b) j \<Longrightarrow> j = i"
    and "buf_ok (disk s ROOTDEV) b"
  shows "bc_inv (setbuf i b s)"
proof -
  obtain xs where "dll (bufs s) xs" "set xs = {..<NBUF}"
    using assms(1) by (auto simp: bc_inv_def)
  moreover from this have "dll ((bufs s)(i := b)) xs"
    using assms(3,4) by (subst dll_cong [where cs = "bufs s"]) auto
  moreover have "j = k" if "cached_at (setbuf i b s) c j" "cached_at (setbuf i b s) c k" for c j k
    using that assms(5) bc_inv_unique [OF assms(1), of c j k]
    by (auto simp: cached_at_def split: if_splits)
  moreover have "\<forall>j<NBUF. buf_ok (disk s ROOTDEV) (((bufs s)(i := b)) j)"
    using assms(6) bc_inv_buf [OF assms(1)] by auto
  ultimately show ?thesis
    using assms(1) unfolding bc_inv_def by auto
qed

section \<open>The laws\<close>

lemma getdata_ok: "bc_inv s \<Longrightarrow> holds s i b \<Longrightarrow> getdata s i = v_blk (view s) b"
  by (auto simp: getdata_def view_def holds_def dest: blk_inv_cached)

lemma setdata_ok:
  assumes "bc_inv s" and "holds s i b" and "length d = BSIZE"
  shows "bc_inv (setdata i d s) \<and> view (setdata i d s) = (view s)\<lparr>v_blk := (v_blk (view s))(b := d)\<rparr>
    \<and> holds (setdata i d s) = holds s \<and> bstate.more (setdata i d s) = bstate.more s"
proof -
  have c: "cached_at (setdata i d s) c j = cached_at s c j" for c j
    by (auto simp: setdata_def cached_at_def)
  have "bc_inv (setdata i d s)"
    unfolding setdata_def using assms bc_inv_buf [OF assms(1), of i] bc_inv_unique [OF assms(1)]
    by (intro bc_inv_setbuf) (auto simp: buf_ok_def holds_def cached_at_def)
  moreover have "blk (setdata i d s) = (blk s)(b := d)"
    using blk_update [OF assms(1) _ c, of b i] assms(2) by (simp add: holds_def setdata_def)
  moreover have "holds (setdata i d s) = holds s"
    by (auto simp: fun_eq_iff holds_def cached_at_def setdata_def)
  ultimately show ?thesis
    by (auto simp: view_def setdata_def)
qed

lemma pin_ok:
  assumes "bc_inv s" and "holds s i b"
  shows "bc_inv (pin i s) \<and> view (pin i s) = (view s)\<lparr>v_pinned := insert b (v_pinned (view s))\<rparr>
    \<and> holds (pin i s) = holds s \<and> bstate.more (pin i s) = bstate.more s"
proof -
  have "bc_inv (pin i s)"
    unfolding pin_def using assms bc_inv_buf [OF assms(1), of i] bc_inv_unique [OF assms(1)]
    by (intro bc_inv_setbuf) (auto simp: buf_ok_def holds_def cached_at_def)
  moreover have "blk (pin i s) = blk s"
    by (rule blk_cong) (auto simp: pin_def)
  ultimately show ?thesis
    using assms(2) by (auto simp: view_def pin_def fun_eq_iff holds_def cached_at_def)
qed

lemma bwrite_inv_bufs:
  assumes "bc_inv s" and "holds s i b"
  shows "(\<exists>xs. dll ((bufs s)(i := (bufs s i)\<lparr>b_dirty := False\<rparr>)) xs \<and> set xs = {..<NBUF})
    \<and> (\<forall>j<NBUF. buf_ok ((disk s ROOTDEV)(b := b_data (bufs s i))) (((bufs s)(i := (bufs s i)\<lparr>b_dirty := False\<rparr>)) j))"
proof -
  obtain xs where "dll (bufs s) xs" "set xs = {..<NBUF}"
    using assms(1) by (auto simp: bc_inv_def)
  moreover from this have "dll ((bufs s)(i := (bufs s i)\<lparr>b_dirty := False\<rparr>)) xs"
    by (subst dll_cong [where cs = "bufs s"]) auto
  moreover have "b_blockno (bufs s j) \<noteq> b" if "j < NBUF" "j \<noteq> i" "b_valid (bufs s j)" for j
    using that assms bc_inv_unique [OF assms(1), of b i j] by (auto simp: holds_def cached_at_def)
  ultimately show ?thesis
    using bc_inv_buf [OF assms(1)] assms(2) by (auto simp: buf_ok_def holds_def cached_at_def)
qed

lemma holder_unique:
  "bc_inv s \<Longrightarrow> holds s i b \<Longrightarrow> j < NBUF \<Longrightarrow> b_busy (bufs s j) \<or> b_dirty (bufs s j) \<Longrightarrow>
   b_blockno (bufs s j) = b \<longleftrightarrow> j = i"
  using bc_inv_unique [of s b i j] bc_inv_buf [of s j]
  by (auto simp: holds_def cached_at_def buf_ok_def)

lemma bwrite_pinned:
  assumes "bc_inv s" and "holds s i b"
  shows "{c. \<exists>j<NBUF. b_dirty (((bufs s)(i := (bufs s i)\<lparr>b_dirty := False\<rparr>)) j)
             \<and> b_blockno (((bufs s)(i := (bufs s i)\<lparr>b_dirty := False\<rparr>)) j) = c}
         = {c. \<exists>j<NBUF. b_dirty (bufs s j) \<and> b_blockno (bufs s j) = c} - {b}"
  using holder_unique [OF assms] by (auto split: if_splits)

lemma bwrite_ok:
  assumes "bc_inv s" and "holds s i b"
  shows "\<exists>s'. bwrite i s = Ok s' \<and> bc_inv s' \<and> holds s' = holds s \<and> bstate.more s' = bstate.more s
    \<and> view s' = (view s)\<lparr>v_disk := (v_disk (view s))(b := v_blk (view s) b),
         v_pinned := v_pinned (view s) - {b},
         v_trace := v_trace (view s) @ [(ROOTDEV, b, v_blk (view s) b)]\<rparr>"
proof -
  let ?s = "setbuf i ((bufs s i)\<lparr>b_dirty := True\<rparr>) s"
  let ?t = "served i ?s"
  have i: "i < NBUF" "b_valid (bufs s i)" "b_busy (bufs s i)" "b_blockno (bufs s i) = b"
      "b_dev (bufs s i) = ROOTDEV" "b < FSSIZE" "length (b_data (bufs s i)) = BSIZE"
    using assms(2) bc_inv_buf [OF assms(1)] by (auto simp: holds_def cached_at_def buf_ok_def)
  have t: "?t = setbuf i ((bufs s i)\<lparr>b_dirty := False\<rparr>) (disk_write ROOTDEV b (b_data (bufs s i)) s)"
    using i by (auto simp: served_def setbuf_def disk_write_def ROOTDEV_def intro!: bstate.equality)
  have "bwrite i s = Ok ?t"
    unfolding bwrite_def using i assms(1) by (simp add: bc_inv_def iderw_empty_queue)
  moreover have data: "blk s b = b_data (bufs s i)"
    using assms blk_inv_cached by (auto simp: holds_def)
  moreover have c: "cached_at ?t c j = cached_at s c j" for c j
    by (auto simp: t cached_at_def)
  moreover have "blk ?t = blk s"
    using blk_update [OF assms(1) _ c, of b i] assms(2) data by (auto simp: t holds_def fun_eq_iff)
  moreover have "bc_inv ?t"
    using c assms(1) i bwrite_inv_bufs [OF assms] by (simp add: bc_inv_def t)
  moreover have "{c. \<exists>j<NBUF. b_dirty (bufs ?t j) \<and> b_blockno (bufs ?t j) = c}
      = {c. \<exists>j<NBUF. b_dirty (bufs s j) \<and> b_blockno (bufs s j) = c} - {b}"
    by (simp add: t bwrite_pinned [OF assms] del: fun_upd_apply)
  moreover have "b_busy (bufs ?t j) = b_busy (bufs s j)" "b_blockno (bufs ?t j) = b_blockno (bufs s j)" for j
    by (simp_all add: t)
  moreover have "disk ?t ROOTDEV = (disk s ROOTDEV)(b := b_data (bufs s i))"
      "dtrace ?t = dtrace s @ [(ROOTDEV, b, b_data (bufs s i))]" "bstate.more ?t = bstate.more s"
    by (simp_all add: t)
  ultimately show ?thesis
    by (intro exI [of _ ?t]) (simp add: view_def holds_def fun_eq_iff)
qed


lemma brelse_ok:
  assumes "bc_inv s" and "holds s i b"
    and "b \<in> v_pinned (view s) \<or> v_blk (view s) b = v_disk (view s) b"
  shows "\<exists>s'. brelse i s = Ok s' \<and> bc_inv s' \<and> bstate.more s' = bstate.more s
    \<and> view s' = (view s)\<lparr>v_held := v_held (view s) - {b}\<rparr>
    \<and> (\<forall>j c. j \<noteq> i \<and> holds s j c \<longrightarrow> holds s' j c)"
proof -
  let ?m = "push_front i (unlink_buf i (bufs s))"
  let ?t = "s\<lparr>bufs := ?m(i := (?m i)\<lparr>b_busy := False\<rparr>)\<rparr>"
  have i: "i < NBUF" "b_busy (bufs s i)" "b_valid (bufs s i)" "b_blockno (bufs s i) = b"
    using assms(2) by (auto simp: holds_def cached_at_def)
  have c: "cached_at ?t c j = cached_at s c j" for c j
    by (auto simp: cached_at_def)
  have clean: "b_dirty (bufs s i) \<or> b_data (bufs s i) = disk s ROOTDEV b"
    using assms(3) holder_unique [OF assms(1,2)] blk_inv_cached [OF assms(1), of b i] assms(2)
    by (auto simp: view_def holds_def)
  obtain xs where xs: "dll (bufs s) xs" "set xs = {..<NBUF}"
    using assms(1) by (auto simp: bc_inv_def)
  with i(1) obtain ys zs where yz: "xs = ys @ i # zs"
    by (metis lessThan_iff split_list)
  then have "dll ?m (i # ys @ zs)"
    using xs(1) brelse_dll by blast
  then have "dll (bufs ?t) (i # ys @ zs)"
    by (subst dll_cong [where cs = ?m]) auto
  moreover have "set (i # ys @ zs) = {..<NBUF}"
    using xs(2) yz by auto
  moreover have "\<forall>j<NBUF. buf_ok (disk s ROOTDEV) (bufs ?t j)"
    using bc_inv_buf [OF assms(1)] clean i by (auto simp: buf_ok_def)
  ultimately have "bc_inv ?t"
    unfolding bc_inv_def c using assms(1) bc_inv_unique [OF assms(1)]
    by (intro conjI exI [of _ "i # ys @ zs"]) (auto simp: bc_inv_def)
  moreover have "blk ?t = blk s"
    by (rule blk_cong) auto
  moreover have "{c. \<exists>j<NBUF. b_busy (bufs ?t j) \<and> b_blockno (bufs ?t j) = c}
      = {c. \<exists>j<NBUF. b_busy (bufs s j) \<and> b_blockno (bufs s j) = c} - {b}"
    using holder_unique [OF assms(1,2)] by (auto split: if_splits)
  ultimately show ?thesis
    using i(2) by (auto simp: brelse_def Let_def view_def holds_def cached_at_def)
qed

text \<open>A hit: the buffer is found and marked busy.\<close>

lemma bread_hit:
  assumes "bc_inv s" and "cached_at s b i" and "\<not> b_busy (bufs s i)"
  shows "bread ROOTDEV b s = Ok (i, setbuf i ((bufs s i)\<lparr>b_busy := True\<rparr>) s)"
proof -
  obtain xs where xs: "dll (bufs s) xs" "set xs = {..<NBUF}"
    using assms(1) by (auto simp: bc_inv_def)
  let ?P = "\<lambda>j. b_dev (bufs s j) = ROOTDEV \<and> b_blockno (bufs s j) = b"
  have i: "i < NBUF" "?P i"
    using bc_inv_buf [OF assms(1), of i] assms(2) by (auto simp: cached_at_def buf_ok_def)
  then obtain j where j: "List.find ?P xs = Some j"
    using find_ex [of i xs ?P] xs(2) by blast
  then have "j < NBUF" "?P j" using find_SomeD [OF j] xs(2) by auto
  then have "cached_at s b j"
    using bc_inv_buf [OF assms(1), of j] by (simp add: cached_at_def buf_ok_def)
  then have "j = i" using bc_inv_unique [OF assms(1,2)] by simp
  with j xs have "bfind b_next (\<lambda>b'. b_dev b' = ROOTDEV \<and> b_blockno b' = b) NBUF (bufs s)
      (b_next (bufs s NBUF)) = Ok (Some i)"
    using dll_bfind(1) [OF xs(1)] by simp
  with assms(2,3) show ?thesis
    by (simp add: bread_def bget_def cached_at_def)
qed

text \<open>A miss with a free buffer: it is taken over for the block and filled from the drive.\<close>

lemma bread_miss:
  assumes "bc_inv s" and "\<And>i. \<not> cached_at s b i" and "b < FSSIZE"
    and "k < NBUF" "\<not> b_busy (bufs s k)" "\<not> b_dirty (bufs s k)"
  shows "\<exists>i<NBUF. \<not> b_busy (bufs s i) \<and> \<not> b_dirty (bufs s i) \<and>
    bread ROOTDEV b s = Ok (i, setbuf i ((bufs s i)\<lparr>b_dev := ROOTDEV, b_blockno := b, b_busy := True,
      b_data := disk s ROOTDEV b, b_valid := True, b_dirty := False\<rparr>) s)"
proof -
  obtain xs where xs: "dll (bufs s) xs" "set xs = {..<NBUF}"
    using assms(1) by (auto simp: bc_inv_def)
  let ?P = "\<lambda>j. b_dev (bufs s j) = ROOTDEV \<and> b_blockno (bufs s j) = b"
  let ?Q = "\<lambda>j. \<not> b_busy (bufs s j) \<and> \<not> b_dirty (bufs s j)"
  have "List.find ?P xs = None"
    using bc_inv_buf [OF assms(1)] assms(2) xs(2)
    by (auto simp: find_None_iff_all cached_at_def buf_ok_def)
  then have no: "bfind b_next (\<lambda>b'. b_dev b' = ROOTDEV \<and> b_blockno b' = b) NBUF (bufs s)
      (b_next (bufs s NBUF)) = Ok None"
    using dll_bfind(1) [OF xs(1)] by simp
  obtain i where i: "List.find ?Q (rev xs) = Some i"
    using find_ex [of k "rev xs" ?Q] assms(4-6) xs(2) by auto
  then have "bfind b_prev (\<lambda>b. \<not> b_busy b \<and> \<not> b_dirty b) NBUF (bufs s) (b_prev (bufs s NBUF)) = Ok (Some i)"
    using dll_bfind(2) [OF xs(1)] by simp
  moreover have Q: "i < NBUF" "?Q i" using find_SomeD [OF i] xs(2) by auto
  moreover have "ROOTDEV mod 2 = ROOTDEV" by (simp add: ROOTDEV_def)
  ultimately show ?thesis
    using no assms(1,3) by (intro exI [of _ i])
      (auto simp: bread_def bget_def bc_inv_def iderw_empty_queue served_def)
qed


lemma finite_view [simp]: "finite (v_pinned (view s))" "finite (v_held (view s))"
  by (simp_all add: view_def)

lemma blk_length:
  assumes "bc_inv s" and "b < FSSIZE"
  shows "length (blk s b) = BSIZE"
proof (cases "\<exists>i. cached_at s b i")
  case True
  then obtain i where "cached_at s b i" ..
  then show ?thesis
    using blk_inv_cached [OF assms(1)] bc_inv_buf [OF assms(1), of i]
    by (auto simp: cached_at_def buf_ok_def)
next
  case False
  then show ?thesis using assms by (simp add: blk_uncached bc_inv_def)
qed

lemma free_buffer:
  assumes "bc_inv s" and "card (v_pinned (view s) \<union> v_held (view s)) < NBUF"
  shows "\<exists>k<NBUF. \<not> b_busy (bufs s k) \<and> \<not> b_dirty (bufs s k)"
proof (rule ccontr)
  assume "\<not> ?thesis"
  then have used: "b_busy (bufs s k) \<or> b_dirty (bufs s k)" if "k < NBUF" for k
    using that by blast
  have inj: "inj_on (\<lambda>k. b_blockno (bufs s k)) {..<NBUF}"
  proof (rule inj_onI)
    fix j k assume "j \<in> {..<NBUF}" "k \<in> {..<NBUF}" "b_blockno (bufs s j) = b_blockno (bufs s k)"
    then show "j = k"
      using bc_inv_unique [OF assms(1), of "b_blockno (bufs s k)" j k] bc_inv_buf [OF assms(1)] used
      by (auto simp: cached_at_def buf_ok_def)
  qed
  have "(\<lambda>k. b_blockno (bufs s k)) ` {..<NBUF} \<subseteq> v_pinned (view s) \<union> v_held (view s)"
    using used by (auto simp: view_def)
  then have "card {..<NBUF} \<le> card (v_pinned (view s) \<union> v_held (view s))"
    by (intro card_inj_on_le [OF inj]) simp_all
  with assms(2) show False by simp
qed

lemma bread_view_hit:
  assumes "bc_inv s" and "cached_at s b i" and "\<not> b_busy (bufs s i)"
  defines "t \<equiv> setbuf i ((bufs s i)\<lparr>b_busy := True\<rparr>) s"
  shows "bc_inv t \<and> holds t i b \<and> view t = (view s)\<lparr>v_held := insert b (v_held (view s))\<rparr>
    \<and> (\<forall>j c. holds s j c \<longrightarrow> holds t j c)"
proof -
  have "bc_inv t"
    unfolding t_def using assms(2) bc_inv_buf [OF assms(1), of i] bc_inv_unique [OF assms(1)]
    by (intro bc_inv_setbuf [OF assms(1)]) (auto simp: buf_ok_def cached_at_def)
  moreover have "blk t = blk s"
    by (rule blk_cong) (auto simp: t_def)
  ultimately show ?thesis
    using assms(2) by (auto simp: view_def t_def holds_def cached_at_def)
qed

lemma bread_view_miss:
  assumes "bc_inv s" and new: "\<And>i. \<not> cached_at s b i" and "b < FSSIZE"
    and i: "i < NBUF" "\<not> b_busy (bufs s i)" "\<not> b_dirty (bufs s i)"
  defines "t \<equiv> setbuf i ((bufs s i)\<lparr>b_dev := ROOTDEV, b_blockno := b, b_busy := True,
      b_data := disk s ROOTDEV b, b_valid := True, b_dirty := False\<rparr>) s"
  shows "bc_inv t \<and> holds t i b \<and> view t = (view s)\<lparr>v_held := insert b (v_held (view s))\<rparr>
    \<and> (\<forall>j c. holds s j c \<longrightarrow> holds t j c)"
proof -
  have "length (disk s ROOTDEV b) = BSIZE"
    using assms(1,3) by (simp add: bc_inv_def)
  then have inv: "bc_inv t"
    unfolding t_def using new assms(3) i
    by (intro bc_inv_setbuf [OF assms(1)]) (auto simp: buf_ok_def)
  have ci: "cached_at t b i"
    using i by (simp add: cached_at_def t_def)
  have "blk t c = blk s c" for c
  proof (cases "\<exists>j. cached_at t c j")
    case True
    then obtain j where j: "cached_at t c j" ..
    show ?thesis
    proof (cases "j = i")
      case True
      with j have "c = b" by (auto simp: cached_at_def t_def)
      then show ?thesis
        using blk_inv_cached [OF inv ci] blk_uncached [OF new] by (simp add: t_def)
    next
      case False
      with j have "cached_at s c j" by (auto simp: cached_at_def t_def)
      then show ?thesis
        using blk_inv_cached [OF inv j] blk_inv_cached [OF assms(1), of c j] False by (simp add: t_def)
    qed
  next
    case none: False
    have "blk s c = disk s ROOTDEV c"
    proof (cases "\<exists>j. cached_at s c j")
      case True
      then obtain j where j: "cached_at s c j" ..
      then have "j = i" using none by (auto simp: cached_at_def t_def split: if_splits)
      then show ?thesis
        using j i bc_inv_buf [OF assms(1), of i] blk_inv_cached [OF assms(1) j]
        by (auto simp: buf_ok_def cached_at_def)
    qed (simp add: blk_uncached)
    then show ?thesis using blk_uncached [of t c] none by (simp add: t_def)
  qed
  then have "blk t = blk s" by blast
  with inv ci i show ?thesis
    by (auto simp: view_def t_def holds_def cached_at_def split: if_splits)
qed

lemma bread_ok:
  assumes "bc_inv s" and "gettable (view s) b"
  shows "\<exists>i s'. bread ROOTDEV b s = Ok (i, s') \<and> bc_inv s' \<and> holds s' i b
    \<and> view s' = (view s)\<lparr>v_held := insert b (v_held (view s))\<rparr>
    \<and> (\<forall>j c. holds s j c \<longrightarrow> holds s' j c) \<and> bstate.more s' = bstate.more s"
proof (cases "\<exists>i. cached_at s b i")
  case True
  then obtain i where i: "cached_at s b i" ..
  then have "\<not> b_busy (bufs s i)"
    using assms(2) by (auto simp: gettable_def view_def cached_at_def)
  then show ?thesis
    using bread_hit [OF assms(1) i] bread_view_hit [OF assms(1) i] by simp
next
  case False
  then have "b \<notin> v_pinned (view s)"
    using bc_inv_buf [OF assms(1)] by (auto simp: view_def cached_at_def buf_ok_def)
  then obtain k where "k < NBUF" "\<not> b_busy (bufs s k)" "\<not> b_dirty (bufs s k)" "b < FSSIZE"
    using free_buffer [OF assms(1)] assms(2) by (auto simp: gettable_def)
  then obtain i where "i < NBUF" "\<not> b_busy (bufs s i)" "\<not> b_dirty (bufs s i)" "b < FSSIZE"
      "bread ROOTDEV b s = Ok (i, setbuf i ((bufs s i)\<lparr>b_dev := ROOTDEV, b_blockno := b,
         b_busy := True, b_data := disk s ROOTDEV b, b_valid := True, b_dirty := False\<rparr>) s)"
    using bread_miss [OF assms(1)] False by meson
  then show ?thesis
    using bread_view_miss [OF assms(1), of b i] False by simp
qed

interpretation bc: block_cache bc_inv view holds bstate.more bread bwrite brelse getdata setdata pin
proof
  fix s :: "'a bstate_scheme" and b i j c
  assume s: "bc_inv s"
  show "b \<in> v_pinned (view s) \<or> v_blk (view s) b = v_disk (view s) b"
    if "b < FSSIZE" "b \<notin> v_held (view s)"
  proof (cases "\<exists>i. cached_at s b i")
    case True
    then obtain i where i: "cached_at s b i" ..
    then have "b_dirty (bufs s i) \<or> b_data (bufs s i) = disk s ROOTDEV b" "i < NBUF"
      using that(2) bc_inv_buf [OF s, of i] by (auto simp: view_def cached_at_def buf_ok_def)
    then show ?thesis
      using i blk_inv_cached [OF s i] by (auto simp: view_def cached_at_def)
  qed (simp add: view_def blk_uncached)
  show "b \<in> v_held (view s) \<and> b < FSSIZE" if "holds s i b"
    using that bc_inv_buf [OF s] by (auto simp: holds_def cached_at_def buf_ok_def view_def)
  show "length (v_blk (view s) b) = BSIZE" if "b < FSSIZE"
    using blk_length [OF s that] by (simp add: view_def)
  show "(i = j) = (b = c)" if "holds s i b" "holds s j c"
    using that bc_inv_unique [OF s] by (auto simp: holds_def cached_at_def)
qed (simp_all add: bread_ok getdata_ok setdata_ok pin_ok bwrite_ok brelse_ok finite_view)


section \<open>The machine after a restart\<close>

text \<open>The memory the kernel starts with: the buffers zeroed, the drives as they were left.\<close>

definition power_on :: "(nat \<Rightarrow> nat \<Rightarrow> byte list) \<Rightarrow> 'z \<Rightarrow> 'z bstate_scheme" where
  "power_on d r = \<lparr>bufs = (\<lambda>_. \<lparr>b_busy = False, b_valid = False, b_dirty = False, b_dev = 0,
       b_blockno = 0, b_prev = 0, b_next = 0, b_data = replicate BSIZE 0\<rparr>),
     idequeue = [], havedisk1 = True, disk = d, badsect = (\<lambda>_ _. False), dtrace = [], \<dots> = r\<rparr>"

lemma push_front_fields [simp]:
  "b_busy (push_front i bs j) = b_busy (bs j)" "b_valid (push_front i bs j) = b_valid (bs j)"
  "b_dirty (push_front i bs j) = b_dirty (bs j)" "b_dev (push_front i bs j) = b_dev (bs j)"
  by (simp_all add: push_front_def Let_def)

lemma binit_fold_fields:
  "b_busy (fold binit_step xs bs j) = b_busy (bs j)
   \<and> b_valid (fold binit_step xs bs j) = b_valid (bs j)
   \<and> b_dirty (fold binit_step xs bs j) = b_dirty (bs j)
   \<and> b_dev (fold binit_step xs bs j) = (if j \<in> set xs then 2 ^ 32 - 1 else b_dev (bs j))"
  by (induction xs arbitrary: bs) (auto simp: binit_step_def)

lemma binit_list: "dll (bufs (binit s)) (rev [0..<NBUF])"
  using binit_fold [OF order_refl] by (simp add: binit_def)

lemma binit_sel [simp]:
  "disk (binit s) = disk s" "dtrace (binit s) = dtrace s" "idequeue (binit s) = idequeue s"
  "havedisk1 (binit s) = havedisk1 s" "badsect (binit s) = badsect s"
  "bstate.more (binit s) = bstate.more s"
  by (simp_all add: binit_def)

lemma binit_buf_fields [simp]:
  "b_busy (bufs (binit s) j) = b_busy (bufs s j)" "b_valid (bufs (binit s) j) = b_valid (bufs s j)"
  "b_dirty (bufs (binit s) j) = b_dirty (bufs s j)"
  "j < NBUF \<Longrightarrow> b_dev (bufs (binit s) j) = 2 ^ 32 - 1"
  using binit_fold_fields [of "[0..<NBUF]"] by (simp_all add: binit_def)

lemma restart_inv:
  assumes "\<And>b. b < FSSIZE \<Longrightarrow> length (d ROOTDEV b) = BSIZE"
  shows "bc_inv (binit (power_on d r))"
proof -
  have "\<exists>xs. dll (bufs (binit (power_on d r))) xs \<and> set xs = {..<NBUF}"
    using binit_list by (intro exI [of _ "rev [0..<NBUF]"]) auto
  then show ?thesis
    using assms by (auto simp: bc_inv_def power_on_def cached_at_def buf_ok_def ROOTDEV_def)
qed

lemma restart_view:
  "view (binit (power_on d r)) =
     \<lparr>v_blk = d ROOTDEV, v_disk = d ROOTDEV, v_pinned = {}, v_held = {}, v_trace = []\<rparr>"
proof -
  have "blk (binit (power_on d r)) = d ROOTDEV"
    by (rule ext) (simp add: blk_uncached cached_at_def power_on_def)
  then show ?thesis
    by (simp add: view_def) (simp add: power_on_def)
qed

lemma power_on_more [simp]: "bstate.more (power_on d r) = r"
  by (simp add: power_on_def)


section \<open>What the cache leaves unchanged\<close>

lemma bget_more [frame]: "bget dev b s = Ok (i, s') \<Longrightarrow> bstate.more s' = bstate.more s"
  unfolding bget_def by (elim rbind_OkE) (auto split: option.split_asm if_split_asm elim!: rbind_OkE)

lemma bread_more [frame]: "bread dev b s = Ok (i, s') \<Longrightarrow> bstate.more s' = bstate.more s"
  unfolding bread_def
  by (elim rbind_OkE) (auto split: if_split_asm elim!: rbind_OkE dest!: bget_more iderw_more)

lemma bwrite_more [frame]: "bwrite i s = Ok s' \<Longrightarrow> bstate.more s' = bstate.more s"
  by (auto simp: bwrite_def split: if_splits dest!: iderw_more)

lemma brelse_more [frame]: "brelse i s = Ok s' \<Longrightarrow> bstate.more s' = bstate.more s"
  by (auto simp: brelse_def Let_def split: if_splits)

lemma setdata_pin_more [frame, simp]:
  "bstate.more (setdata i d s) = bstate.more s" "bstate.more (pin i s) = bstate.more s"
  by (simp_all add: setdata_def pin_def)


section \<open>Properties\<close>

text \<open>
  C14: the cache keeps one copy of a block and hands out its current contents.  If the block is not
  held and there is a buffer for it, \<^verbatim>\<open>bread\<close> returns a buffer marked busy with the contents last given
  to the block (a modified cached copy, or the drive's); no other buffer holds the block; the
  contents of all blocks, the drive and the pinned blocks are unchanged, and \<^verbatim>\<open>brelse\<close> of that buffer
  gives the old view back.
\<close>

theorem bread_current:
  assumes "bc_inv s" and "gettable (view s) b"
  shows "\<exists>i s1 s2. bread ROOTDEV b s = Ok (i, s1) \<and> bc_inv s1 \<and> holds s1 i b
    \<and> getdata s1 i = v_blk (view s) b \<and> (\<forall>j. cached_at s1 b j \<longrightarrow> j = i)
    \<and> view s1 = (view s)\<lparr>v_held := insert b (v_held (view s))\<rparr>
    \<and> brelse i s1 = Ok s2 \<and> view s2 = view s"
proof -
  obtain i s1 s2 where s: "bread ROOTDEV b s = Ok (i, s1)" "getdata s1 i = v_blk (view s) b"
      "brelse i s1 = Ok s2" "view s2 = view s"
    using bc.bread_brelse [OF assms] by blast
  moreover have s1: "bc_inv s1" "holds s1 i b" "view s1 = (view s)\<lparr>v_held := insert b (v_held (view s))\<rparr>"
    using bc.bread_law [OF assms] s(1) by auto
  moreover have "\<forall>j. cached_at s1 b j \<longrightarrow> j = i"
    using bc_inv_unique [OF s1(1)] s1(2) by (auto simp: holds_def)
  ultimately show ?thesis by blast
qed

theorem bread_current_witness:
  "\<exists>i s1. bread ROOTDEV 9 (binit (power_on (\<lambda>u b. replicate BSIZE (of_nat b)) ())) = Ok (i, s1)
     \<and> getdata s1 i = replicate BSIZE 9"
proof -
  let ?s = "binit (power_on (\<lambda>u b. replicate BSIZE (of_nat b)) ()) :: bstate"
  have "bc_inv ?s" by (rule restart_inv) simp
  moreover have "gettable (view ?s) 9"
    by (simp add: restart_view gettable_def FSSIZE_def NBUF_def MAXOPBLOCKS_def)
  ultimately obtain i s1 where "bread ROOTDEV 9 ?s = Ok (i, s1)" "getdata s1 i = v_blk (view ?s) 9"
    using bread_current [of ?s 9] by blast
  then show ?thesis by (simp add: restart_view)
qed

text \<open>What \<^verbatim>\<open>bget\<close> does on the list the pointers stand for.\<close>

definition recycled :: "nat \<Rightarrow> nat \<Rightarrow> buf \<Rightarrow> buf" where
  "recycled dev blockno b =
     b\<lparr>b_dev := dev, b_blockno := blockno, b_busy := True, b_valid := False, b_dirty := False\<rparr>"

lemma bget_list:
  assumes "dll (bufs s) xs"
  shows "bget dev blockno s =
     (case List.find (\<lambda>j. b_dev (bufs s j) = dev \<and> b_blockno (bufs s j) = blockno) xs of
        Some j \<Rightarrow> if b_busy (bufs s j) then Sleeps else Ok (j, setbuf j ((bufs s j)\<lparr>b_busy := True\<rparr>) s)
      | None \<Rightarrow>
          (case List.find (\<lambda>j. \<not> b_busy (bufs s j) \<and> \<not> b_dirty (bufs s j)) (rev xs) of
             None \<Rightarrow> Panic ''bget: no buffers''
           | Some j \<Rightarrow> Ok (j, setbuf j (recycled dev blockno (bufs s j)) s)))"
  using dll_bfind [OF assms] by (simp add: bget_def recycled_def split: option.split)

lemma bget_keeps_list:
  assumes "dll (bufs s) xs" and "bget dev blockno s = Ok (j, t)"
  shows "dll (bufs t) xs"
proof -
  obtain f where "bufs t = (bufs s)(j := f (bufs s j))" "b_prev (f (bufs s j)) = b_prev (bufs s j)"
      "b_next (f (bufs s j)) = b_next (bufs s j)"
    using assms(2) unfolding bget_list [OF assms(1)]
    by (auto simp: recycled_def split: option.split_asm if_split_asm)
  then show ?thesis
    using assms(1) by (subst dll_cong [where cs = "bufs s"]) auto
qed

text \<open>
  C15: the pointers of \<^verbatim>\<open>bcache.head\<close> implement a list of the buffers, most recently used first.
  \<^verbatim>\<open>brelse\<close> moves the buffer to the front and keeps the order of the others.  \<^verbatim>\<open>bget\<close> keeps the order; a
  block that is cached is found (and the caller sleeps when its buffer is busy); for one that is not,
  \<^verbatim>\<open>bget\<close> recycles the free clean buffer that is last in the list, that is the one released longest ago,
  and panics when there is none.
\<close>

theorem bcache_lru:
  assumes "dll (bufs s) (ys @ i # zs)" and "b_busy (bufs s i)"
  shows "\<exists>s'. brelse i s = Ok s' \<and> dll (bufs s') (i # ys @ zs)
    \<and> (\<forall>dev blockno. bget dev blockno s' =
         (case List.find (\<lambda>j. b_dev (bufs s' j) = dev \<and> b_blockno (bufs s' j) = blockno) (i # ys @ zs) of
            Some j \<Rightarrow> if b_busy (bufs s' j) then Sleeps else Ok (j, setbuf j ((bufs s' j)\<lparr>b_busy := True\<rparr>) s')
          | None \<Rightarrow>
              (case List.find (\<lambda>j. \<not> b_busy (bufs s' j) \<and> \<not> b_dirty (bufs s' j)) (rev (i # ys @ zs)) of
                 None \<Rightarrow> Panic ''bget: no buffers''
               | Some j \<Rightarrow> Ok (j, setbuf j (recycled dev blockno (bufs s' j)) s'))))
    \<and> (\<forall>dev blockno j t. bget dev blockno s' = Ok (j, t) \<longrightarrow> dll (bufs t) (i # ys @ zs))"
proof -
  let ?m = "push_front i (unlink_buf i (bufs s))"
  let ?t = "s\<lparr>bufs := ?m(i := (?m i)\<lparr>b_busy := False\<rparr>)\<rparr>"
  have l: "dll (bufs ?t) (i # ys @ zs)"
    using brelse_dll [OF assms(1)] by (subst dll_cong [where cs = ?m]) auto
  have "brelse i s = Ok ?t"
    using assms(2) by (simp add: brelse_def Let_def)
  with l bget_list [OF l] bget_keeps_list [OF l] show ?thesis by blast
qed

definition demo_cache :: bstate where
  "demo_cache = setbuf 1 ((bufs (binit (power_on (\<lambda>_ _. []) ())) 1)\<lparr>b_busy := True\<rparr>) (binit (power_on (\<lambda>_ _. []) ()))"

lemma demo_busy: "b_busy (bufs demo_cache 1)"
  by (simp add: demo_cache_def)

theorem bcache_lru_witness:
  "\<exists>s' t. brelse 1 demo_cache = Ok s' \<and> dll (bufs s') (1 # rev [2..<NBUF] @ [0])
     \<and> bget 1 7 s' = Ok (0, t) \<and> dll (bufs t) (1 # rev [2..<NBUF] @ [0])"
proof -
  let ?s = "binit (power_on (\<lambda>_ _. []) ()) :: bstate" and ?l = "1 # rev [2..<NBUF] @ [0]"
  have "dll (bufs demo_cache) (rev [0..<NBUF])"
    using binit_list [of "power_on (\<lambda>_ _. []) () :: bstate"]
    by (subst dll_cong [where cs = "bufs ?s"]) (auto simp: demo_cache_def)
  moreover have "rev [0..<NBUF] = rev [2..<NBUF] @ 1 # [0]"
    by (simp add: NBUF_def MAXOPBLOCKS_def upt_rec)
  ultimately have "dll (bufs demo_cache) (rev [2..<NBUF] @ 1 # [0])" by simp
  from bcache_lru [OF this demo_busy] obtain s' where s': "brelse 1 demo_cache = Ok s'" "dll (bufs s') ?l"
    and get: "\<forall>dev blockno. bget dev blockno s' =
         (case List.find (\<lambda>j. b_dev (bufs s' j) = dev \<and> b_blockno (bufs s' j) = blockno) ?l of
            Some j \<Rightarrow> if b_busy (bufs s' j) then Sleeps else Ok (j, setbuf j ((bufs s' j)\<lparr>b_busy := True\<rparr>) s')
          | None \<Rightarrow>
              (case List.find (\<lambda>j. \<not> b_busy (bufs s' j) \<and> \<not> b_dirty (bufs s' j)) (rev ?l) of
                 None \<Rightarrow> Panic ''bget: no buffers''
               | Some j \<Rightarrow> Ok (j, setbuf j (recycled dev blockno (bufs s' j)) s')))"
    and keep: "\<forall>dev blockno j t. bget dev blockno s' = Ok (j, t) \<longrightarrow> dll (bufs t) ?l"
    by (elim exE conjE)
  have f: "\<not> b_busy (bufs s' j)" "\<not> b_dirty (bufs s' j)" "j < NBUF \<Longrightarrow> b_dev (bufs s' j) = 2 ^ 32 - 1" for j
    using s'(1) by (auto simp: brelse_def demo_cache_def Let_def unlink_buf_def power_on_def split: if_split_asm)
  have "List.find (\<lambda>j. b_dev (bufs s' j) = 1 \<and> b_blockno (bufs s' j) = 7) ?l = None"
  proof -
    have "b_dev (bufs s' j) \<noteq> 1" if "j \<in> set ?l" for j
      using f(3) [of j] that by (auto simp: NBUF_def MAXOPBLOCKS_def)
    then show ?thesis unfolding find_None_iff by blast
  qed
  with spec [OF spec [OF get, of 1], of 7] have "bget 1 7 s' = Ok (0, setbuf 0 (recycled 1 7 (bufs s' 0)) s')"
    using f by simp
  with s' keep show ?thesis by blast
qed

end
