(* ===== verification/Log.thy ===== *)
theory Log
  imports Bio
begin

text \<open>
  The write-ahead log \<^verbatim>\<open>kernel/log.c\<close> and \<^verbatim>\<open>readsb\<close> of \<^verbatim>\<open>kernel/fs.c\<close>.  The state adds \<^verbatim>\<open>struct log\<close>
  to the state of the buffer cache; the header block is the byte array the code casts it from.  The
  main results: a commit cut short by a crash after any number of block writes is, after the
  recovery of the next boot, either absent or complete; recovery itself can be cut short any number
  of times; \<^verbatim>\<open>log_write\<close> absorbs repeated writes; the reservations of \<^verbatim>\<open>begin_op\<close> bound the log.
\<close>

section \<open>The code\<close>

record superblock =
  sb_size :: nat
  sb_nblocks :: nat
  sb_ninodes :: nat
  sb_nlog :: nat

record lstate = bstate +
  l_start :: nat
  l_size :: int
  l_outstanding :: int
  l_committing :: bool
  l_dev :: nat
  lh_n :: int
  lh_block :: "nat list"

definition decode_sb :: "byte list \<Rightarrow> superblock" where
  "decode_sb d = \<lparr>sb_size = get32 d 0, sb_nblocks = get32 d 4, sb_ninodes = get32 d 8,
     sb_nlog = get32 d 12\<rparr>"

definition readsb :: "nat \<Rightarrow> 'z bstate_scheme \<Rightarrow> (superblock \<times> 'z bstate_scheme) res" where
  "readsb dev s =
     rbind (bread dev 1 s) (\<lambda>(bp, s).
     let sb = decode_sb (getdata s bp)
     in rbind (brelse bp s) (\<lambda>s. Ok (sb, s)))"

definition install_step :: "nat \<Rightarrow> 'z lstate_scheme \<Rightarrow> 'z lstate_scheme res" where
  "install_step tail s =
     rbind (bread (l_dev s) (u32 (l_start s + tail + 1)) s) (\<lambda>(lbuf, s).
     if length (lh_block s) \<le> tail then Undef else
     rbind (bread (l_dev s) (lh_block s ! tail) s) (\<lambda>(dbuf, s).
     rbind (bwrite dbuf (setdata dbuf (getdata s lbuf) s)) (\<lambda>s.
     rbind (brelse lbuf s) (brelse dbuf))))"

definition install_trans :: "'z lstate_scheme \<Rightarrow> 'z lstate_scheme res" where
  "install_trans s = for_each install_step [0..<nat (lh_n s)] s"

text \<open>
  The loops of \<^verbatim>\<open>read_head\<close> and \<^verbatim>\<open>write_head\<close> run over \<^verbatim>\<open>log.lh.block\<close>, an array of \<^term>\<open>LOGSIZE\<close> entries:
  a larger count leaves the array.
\<close>

definition read_head :: "'z lstate_scheme \<Rightarrow> 'z lstate_scheme res" where
  "read_head s =
     rbind (bread (l_dev s) (l_start s) s) (\<lambda>(b, s).
     let d = getdata s b; n = s32 (get32 d 0)
     in if n > int (length (lh_block s)) then Undef
        else brelse b (s\<lparr>lh_n := n,
               lh_block := map (\<lambda>i. get32 d (4 + 4 * i)) [0..<nat n] @ drop (nat n) (lh_block s)\<rparr>))"

definition put_head :: "int \<Rightarrow> nat list \<Rightarrow> byte list \<Rightarrow> byte list" where
  "put_head n bl d = fold (\<lambda>i d. put32 d (4 + 4 * i) (bl ! i)) [0..<nat n] (put32 d 0 (nat (n mod 2 ^ 32)))"

definition write_head :: "'z lstate_scheme \<Rightarrow> 'z lstate_scheme res" where
  "write_head s =
     rbind (bread (l_dev s) (l_start s) s) (\<lambda>(b, s).
     if lh_n s > int (length (lh_block s)) then Undef
     else rbind (bwrite b (setdata b (put_head (lh_n s) (lh_block s) (getdata s b)) s)) (brelse b))"

definition recover_from_log :: "'z lstate_scheme \<Rightarrow> 'z lstate_scheme res" where
  "recover_from_log s =
     rbind (read_head s) (\<lambda>s.
     rbind (install_trans s) (\<lambda>s.
     write_head (s\<lparr>lh_n := 0\<rparr>)))"

definition initlog :: "'z lstate_scheme \<Rightarrow> 'z lstate_scheme res" where
  "initlog s =
     (if 4 + 4 * LOGSIZE \<ge> BSIZE then Panic ''initlog: too big logheader''
      else rbind (readsb ROOTDEV s) (\<lambda>(sb, s).
        recover_from_log (s\<lparr>l_start := u32 (sb_size sb + 2 ^ 32 - sb_nlog sb),
                            l_size := s32 (sb_nlog sb), l_dev := ROOTDEV\<rparr>)))"

definition begin_op :: "'z lstate_scheme \<Rightarrow> 'z lstate_scheme res" where
  "begin_op s =
     (if l_committing s then Sleeps
      else if lh_n s + (l_outstanding s + 1) * int MAXOPBLOCKS > int LOGSIZE then Sleeps
      else Ok (s\<lparr>l_outstanding := l_outstanding s + 1\<rparr>))"

definition write_step :: "nat \<Rightarrow> 'z lstate_scheme \<Rightarrow> 'z lstate_scheme res" where
  "write_step tail s =
     rbind (bread (l_dev s) (u32 (l_start s + tail + 1)) s) (\<lambda>(to, s).
     if length (lh_block s) \<le> tail then Undef else
     rbind (bread (l_dev s) (lh_block s ! tail) s) (\<lambda>(from, s).
     rbind (bwrite to (setdata to (getdata s from) s)) (\<lambda>s.
     rbind (brelse from s) (brelse to))))"

definition write_log :: "'z lstate_scheme \<Rightarrow> 'z lstate_scheme res" where
  "write_log s = for_each write_step [0..<nat (lh_n s)] s"

definition commit :: "'z lstate_scheme \<Rightarrow> 'z lstate_scheme res" where
  "commit s =
     (if lh_n s > 0 then
        rbind (write_log s) (\<lambda>s.
        rbind (write_head s) (\<lambda>s.
        rbind (install_trans s) (\<lambda>s.
        write_head (s\<lparr>lh_n := 0\<rparr>))))
      else Ok s)"

definition end_op :: "'z lstate_scheme \<Rightarrow> 'z lstate_scheme res" where
  "end_op s =
     (let s = s\<lparr>l_outstanding := l_outstanding s - 1\<rparr>
      in if l_committing s then Panic ''log.committing''
         else if l_outstanding s = 0 then
           rbind (commit (s\<lparr>l_committing := True\<rparr>)) (\<lambda>s. Ok (s\<lparr>l_committing := False\<rparr>))
         else Ok s)"

text \<open>The slot the loop of \<^verbatim>\<open>log_write\<close> stops at: that of an earlier write of the block, or a new one.\<close>

definition log_slot :: "nat \<Rightarrow> 'z lstate_scheme \<Rightarrow> nat" where
  "log_slot blockno s =
     (case List.find (\<lambda>i. lh_block s ! i = blockno) [0..<nat (lh_n s)] of Some i \<Rightarrow> i
      | None \<Rightarrow> nat (lh_n s))"

definition log_write :: "nat \<Rightarrow> 'z lstate_scheme \<Rightarrow> 'z lstate_scheme res" where
  "log_write b s =
     (if lh_n s \<ge> int LOGSIZE \<or> lh_n s \<ge> l_size s - 1 then Panic ''too big a transaction''
      else if l_outstanding s < 1 then Panic ''log_write outside of trans''
      else
        let blockno = b_blockno (bufs s b); i = log_slot blockno s
        in Ok (pin b (s\<lparr>lh_block := (lh_block s)[i := blockno],
                        lh_n := if int i = lh_n s then lh_n s + 1 else lh_n s\<rparr>)))"

section \<open>The parameters mkfs writes\<close>

text \<open>
  \<^verbatim>\<open>tools/mkfs.c\<close>: the counts it lays the file system out with, the super block it computes from them, and the drive after it has
  written zeroes everywhere and the super block to block 1.  (\<^verbatim>\<open>xint\<close> stores the bytes of a number in the order \<^verbatim>\<open>put32\<close> does.)
\<close>

definition NINODES :: nat where "NINODES = 200"

definition mkfs_nbitmap :: nat where "mkfs_nbitmap = FSSIZE div (BSIZE * 8) + 1"

definition mkfs_ninodeblocks :: nat where "mkfs_ninodeblocks = NINODES div IPB + 1"

definition mkfs_nlog :: nat where "mkfs_nlog = LOGSIZE"

definition mkfs_sb :: superblock where
  "mkfs_sb =
     (let nmeta = 2 + mkfs_ninodeblocks + mkfs_nbitmap
      in \<lparr>sb_size = FSSIZE, sb_nblocks = FSSIZE - mkfs_nlog - nmeta, sb_ninodes = NINODES, sb_nlog = mkfs_nlog\<rparr>)"

definition mkfs_disk :: "nat \<Rightarrow> byte list" where
  "mkfs_disk b =
     (let zeroes = replicate BSIZE 0
      in if b = 1
         then put32 (put32 (put32 (put32 zeroes 0 (sb_size mkfs_sb)) 4 (sb_nblocks mkfs_sb)) 8 (sb_ninodes mkfs_sb)) 12 (sb_nlog mkfs_sb)
         else zeroes)"

section \<open>The header block\<close>

lemma length_put_head [simp]: "length (put_head n bl d) = length d"
proof -
  have "length (fold (\<lambda>i d. put32 d (4 + 4 * i) (bl ! i)) is d) = length d" for "is" d
    by (induction "is" arbitrary: d) auto
  then show ?thesis by (simp add: put_head_def)
qed

lemma put_head_fold_other:
  "(\<And>i. i \<in> set is \<Longrightarrow> off + 4 \<le> 4 + 4 * i \<or> 4 + 4 * i + 4 \<le> off) \<Longrightarrow>
   get32 (fold (\<lambda>i d. put32 d (4 + 4 * i) (bl ! i)) is d) off = get32 d off"
proof (induction "is" arbitrary: d)
  case (Cons a "is")
  have "get32 (put32 d (4 + 4 * a) (bl ! a)) off = get32 d off"
    using Cons.prems [of a] by auto
  with Cons show ?case by simp
qed simp

lemma put_head_fold_at:
  assumes "j < n" and "4 + 4 * n \<le> length d"
  shows "get32 (fold (\<lambda>i d. put32 d (4 + 4 * i) (bl ! i)) [0..<n] d) (4 + 4 * j) = u32 (bl ! j)"
  using assms
proof (induction n)
  case (Suc n)
  have len: "length (fold (\<lambda>i d. put32 d (4 + 4 * i) (bl ! i)) is d) = length d" for "is" d
    by (induction "is" arbitrary: d) auto
  show ?case
  proof (cases "j = n")
    case True
    then show ?thesis using Suc.prems len by simp
  next
    case False
    then show ?thesis using Suc by simp
  qed
qed simp

lemma get_put_head_n:
  assumes "0 \<le> n" and "n < 2 ^ 31" and "4 \<le> length d"
  shows "s32 (get32 (put_head n bl d) 0) = n"
proof -
  have "get32 (put_head n bl d) 0 = u32 (nat (n mod 2 ^ 32))"
    unfolding put_head_def using assms(3) by (subst put_head_fold_other) auto
  with assms show ?thesis by (simp add: s32_def)
qed

lemma get_put_head_block:
  assumes "j < nat n" and "4 + 4 * nat n \<le> length d" and "bl ! j < 2 ^ 32"
  shows "get32 (put_head n bl d) (4 + 4 * j) = bl ! j"
  using put_head_fold_at [of j "nat n" "put32 d 0 (nat (n mod 2 ^ 32))" bl] assms
  by (simp add: put_head_def)

section \<open>The log fields and the cache\<close>

lemma log_fields_upd [simp]:
  "view (s\<lparr>lh_n := x0\<rparr>) = view s" "bc_inv (s\<lparr>lh_n := x0\<rparr>) = bc_inv s" "holds (s\<lparr>lh_n := x0\<rparr>) = holds s"
  "view (s\<lparr>lh_block := x1\<rparr>) = view s" "bc_inv (s\<lparr>lh_block := x1\<rparr>) = bc_inv s" "holds (s\<lparr>lh_block := x1\<rparr>) = holds s"
  "view (s\<lparr>l_start := x2\<rparr>) = view s" "bc_inv (s\<lparr>l_start := x2\<rparr>) = bc_inv s" "holds (s\<lparr>l_start := x2\<rparr>) = holds s"
  "view (s\<lparr>l_size := x3\<rparr>) = view s" "bc_inv (s\<lparr>l_size := x3\<rparr>) = bc_inv s" "holds (s\<lparr>l_size := x3\<rparr>) = holds s"
  "view (s\<lparr>l_dev := x4\<rparr>) = view s" "bc_inv (s\<lparr>l_dev := x4\<rparr>) = bc_inv s" "holds (s\<lparr>l_dev := x4\<rparr>) = holds s"
  "view (s\<lparr>l_outstanding := x5\<rparr>) = view s" "bc_inv (s\<lparr>l_outstanding := x5\<rparr>) = bc_inv s" "holds (s\<lparr>l_outstanding := x5\<rparr>) = holds s"
  "view (s\<lparr>l_committing := x6\<rparr>) = view s" "bc_inv (s\<lparr>l_committing := x6\<rparr>) = bc_inv s" "holds (s\<lparr>l_committing := x6\<rparr>) = holds s"
  by (rule same_cache; simp add: bstate.truncate_def)+

text \<open>The log's fields are the extension of the cache's record.\<close>

lemma same_log:
  assumes "bstate.more s' = bstate.more s"
  shows "l_start s' = l_start s" "l_size s' = l_size s" "l_outstanding s' = l_outstanding s"
    "l_committing s' = l_committing s" "l_dev s' = l_dev s" "lh_n s' = lh_n s"
    "lh_block s' = lh_block s" "lstate.more s' = lstate.more s"
  using assms by (cases s; cases s'; simp)+


definition logged :: "'z lstate_scheme \<Rightarrow> nat list" where
  "logged s = take (nat (lh_n s)) (lh_block s)"

text \<open>
  The shape of the log: its blocks are the last ones of the file system, the blocks it records are
  distinct blocks before it, other than the super block, and leave at least one buffer free.
\<close>

definition log_geom :: "'z lstate_scheme \<Rightarrow> bool" where
  "log_geom s \<longleftrightarrow> l_dev s = ROOTDEV \<and> 1 < l_start s \<and> int (l_start s) + l_size s \<le> int FSSIZE
     \<and> length (lh_block s) = LOGSIZE \<and> 0 \<le> lh_n s \<and> lh_n s < l_size s \<and> lh_n s < int NBUF
     \<and> distinct (logged s) \<and> (\<forall>b\<in>set (logged s). b < l_start s \<and> b \<noteq> 1)"

lemma geomD:
  assumes "log_geom s"
  shows "l_dev s = ROOTDEV" "1 < l_start s" "length (lh_block s) = LOGSIZE"
    and "length (logged s) = nat (lh_n s)" "nat (lh_n s) < NBUF" "nat (lh_n s) < LOGSIZE"
    and "l_start s + nat (lh_n s) < FSSIZE" "l_start s < FSSIZE" "int (nat (lh_n s)) = lh_n s"
    and "\<And>t. t < nat (lh_n s) \<Longrightarrow> lh_block s ! t < l_start s \<and> lh_block s ! t \<noteq> 1"
    and "distinct (map (\<lambda>t. lh_block s ! t) [0..<nat (lh_n s)])"
    and "set (logged s) = (\<lambda>t. lh_block s ! t) ` {..<nat (lh_n s)}" "card (set (logged s)) < NBUF"
proof -
  have n: "nat (lh_n s) < LOGSIZE" "length (lh_block s) = LOGSIZE"
    using assms by (auto simp: log_geom_def LOGSIZE_def NBUF_def MAXOPBLOCKS_def)
  then have eq: "logged s = map (\<lambda>t. lh_block s ! t) [0..<nat (lh_n s)]"
    by (intro nth_equalityI) (auto simp: logged_def)
  show "distinct (map (\<lambda>t. lh_block s ! t) [0..<nat (lh_n s)])"
    using assms eq by (simp add: log_geom_def)
  show "\<And>t. t < nat (lh_n s) \<Longrightarrow> lh_block s ! t < l_start s \<and> lh_block s ! t \<noteq> 1"
    using assms eq by (simp add: log_geom_def)
  show "set (logged s) = (\<lambda>t. lh_block s ! t) ` {..<nat (lh_n s)}"
    by (simp add: eq lessThan_atLeast0)
  show "card (set (logged s)) < NBUF"
    using assms by (auto simp: log_geom_def distinct_card logged_def)
qed (use assms in \<open>auto simp: log_geom_def logged_def LOGSIZE_def NBUF_def MAXOPBLOCKS_def FSSIZE_def\<close>)

lemma log_u32: "log_geom s \<Longrightarrow> t < nat (lh_n s) \<Longrightarrow> u32 (l_start s + t + 1) = l_start s + t + 1"
  using geomD(7) [of s] by (simp add: FSSIZE_def)

lemma small_card: "finite A \<Longrightarrow> A \<subseteq> P \<Longrightarrow> card P < NBUF \<Longrightarrow> finite P \<Longrightarrow> card A < NBUF"
  using card_mono [of P A] by simp

section \<open>The loops\<close>

lemma install_step_ok:
  assumes g: "log_geom s0" and s: "bc_inv s" "bstate.more s = bstate.more s0" "v_held (view s) = {}"
    and P: "P = {} \<or> P = set (logged s0)" "v_pinned (view s) \<subseteq> P"
      "{l_start s0 + t + 1, lh_block s0 ! t} \<inter> P \<subseteq> v_pinned (view s)"
    and t: "t < nat (lh_n s0)"
  shows "\<exists>s'. install_step t s = Ok s' \<and> bc_inv s' \<and> bstate.more s' = bstate.more s0
      \<and> view s' = (view s)\<lparr>v_blk := (v_blk (view s))(lh_block s0 ! t := v_blk (view s) (l_start s0 + t + 1)),
             v_disk := (v_disk (view s))(lh_block s0 ! t := v_blk (view s) (l_start s0 + t + 1)),
             v_pinned := v_pinned (view s) - {lh_block s0 ! t},
             v_trace := v_trace (view s) @ [(ROOTDEV, lh_block s0 ! t, v_blk (view s) (l_start s0 + t + 1))]\<rparr>"
proof -
  let ?a = "l_start s0 + t + 1" and ?b = "lh_block s0 ! t"
  have ab: "?b < l_start s0" "?a < FSSIZE" "?a \<noteq> ?b"
    using geomD(7) [OF g] geomD(10) [OF g t] t by auto
  have "finite P" "card P < NBUF"
    using P(1) geomD(13) [OF g] by (auto simp: NBUF_def MAXOPBLOCKS_def)
  then have "gettable (view s) ?a"
    using ab s(3) small_card [OF _ P(2)] by (auto simp: gettable_def)
  moreover have "?b \<in> v_pinned (view s) \<or> v_pinned (view s) = {}"
    using P geomD(12) [OF g] t by auto
  then have "gettable ((view s)\<lparr>v_held := insert ?a (v_held (view s))\<rparr>) ?b"
    using ab s(3) by (auto simp: gettable_def NBUF_def MAXOPBLOCKS_def)
  ultimately obtain i s1 j s2 s3 s4 s5 where
      st: "bread ROOTDEV ?a s = Ok (i, s1)" "bread ROOTDEV ?b s1 = Ok (j, s2)"
        "getdata s2 i = v_blk (view s) ?a" "bwrite j (setdata j (v_blk (view s) ?a) s2) = Ok s3"
        "brelse i s3 = Ok s4" "brelse j s4 = Ok s5" "bc_inv s5" "bstate.more s5 = bstate.more s"
        "view s5 = (view s)\<lparr>v_blk := (v_blk (view s))(?b := v_blk (view s) ?a),
           v_disk := (v_disk (view s))(?b := v_blk (view s) ?a),
           v_pinned := v_pinned (view s) - {?b},
           v_trace := v_trace (view s) @ [(ROOTDEV, ?b, v_blk (view s) ?a)]\<rparr>"
    using bc.copy_block [OF s(1) ab(3)] by metis
  moreover have "bstate.more s1 = bstate.more s0"
    using bc.bread_law [OF s(1) \<open>gettable (view s) ?a\<close>] st(1) s(2) by auto
  ultimately show ?thesis
    using same_log [OF s(2)] same_log [of s1 s0] geomD(1,3,6) [OF g] log_u32 [OF g t] t s(2)
    by (simp add: install_step_def)
qed


lemma write_step_ok:
  assumes g: "log_geom s0" and s: "bc_inv s" "bstate.more s = bstate.more s0" "v_held (view s) = {}"
    and P: "v_pinned (view s) \<subseteq> set (logged s0)" "lh_block s0 ! t \<in> v_pinned (view s)"
    and t: "t < nat (lh_n s0)"
  shows "\<exists>s'. write_step t s = Ok s' \<and> bc_inv s' \<and> bstate.more s' = bstate.more s0
      \<and> view s' = (view s)\<lparr>v_blk := (v_blk (view s))(l_start s0 + t + 1 := v_blk (view s) (lh_block s0 ! t)),
             v_disk := (v_disk (view s))(l_start s0 + t + 1 := v_blk (view s) (lh_block s0 ! t)),
             v_pinned := v_pinned (view s) - {l_start s0 + t + 1},
             v_trace := v_trace (view s) @ [(ROOTDEV, l_start s0 + t + 1, v_blk (view s) (lh_block s0 ! t))]\<rparr>"
proof -
  let ?b = "l_start s0 + t + 1" and ?a = "lh_block s0 ! t"
  have ab: "?a < l_start s0" "?b < FSSIZE" "?a \<noteq> ?b"
    using geomD(7) [OF g] geomD(10) [OF g t] t by auto
  have gb: "gettable (view s) ?b"
    using ab s(3) small_card [OF _ P(1) geomD(13) [OF g]] by (simp add: gettable_def)
  have ga: "gettable ((view s)\<lparr>v_held := insert ?b (v_held (view s))\<rparr>) ?a"
    using ab s(3) P(2) by (simp add: gettable_def)
  obtain j s1 i s2 s3 s4 s5 where
      st: "bread ROOTDEV ?b s = Ok (j, s1)" "bread ROOTDEV ?a s1 = Ok (i, s2)"
        "getdata s2 i = v_blk (view s) ?a" "bwrite j (setdata j (v_blk (view s) ?a) s2) = Ok s3"
        "brelse i s3 = Ok s4" "brelse j s4 = Ok s5" "bc_inv s5" "bstate.more s5 = bstate.more s"
        "view s5 = (view s)\<lparr>v_blk := (v_blk (view s))(?b := v_blk (view s) ?a),
           v_disk := (v_disk (view s))(?b := v_blk (view s) ?a),
           v_pinned := v_pinned (view s) - {?b},
           v_trace := v_trace (view s) @ [(ROOTDEV, ?b, v_blk (view s) ?a)]\<rparr>"
    using bc.copy_block' [OF s(1) ab(3) gb ga] by metis
  moreover have "bstate.more s1 = bstate.more s0"
    using bc.bread_law [OF s(1) gb] st(1) s(2) by auto
  ultimately show ?thesis
    using same_log [OF s(2)] same_log [of s1 s0] geomD(1,3,6) [OF g] log_u32 [OF g t] t s(2)
    by (simp add: write_step_def)
qed

text \<open>The block writes of the two loops.\<close>

definition log_trace :: "'z lstate_scheme \<Rightarrow> (nat \<Rightarrow> byte list) \<Rightarrow> (nat \<times> nat \<times> byte list) list" where
  "log_trace s m = map (\<lambda>t. (ROOTDEV, l_start s + t + 1, m (lh_block s ! t))) [0..<nat (lh_n s)]"

definition install_trace :: "'z lstate_scheme \<Rightarrow> (nat \<Rightarrow> byte list) \<Rightarrow> (nat \<times> nat \<times> byte list) list" where
  "install_trace s m = map (\<lambda>t. (ROOTDEV, lh_block s ! t, m (l_start s + t + 1))) [0..<nat (lh_n s)]"

lemma log_home_disjoint:
  assumes "log_geom s"
  shows "(\<lambda>t. lh_block s ! t) ` {..<nat (lh_n s)} \<inter> (\<lambda>t. l_start s + t + 1) ` {..<nat (lh_n s)} = {}"
  using geomD(10) [OF assms] by fastforce

lemma install_trans_ok:
  assumes g: "log_geom s" and s: "bc_inv s" "v_held (view s) = {}"
    and P: "v_pinned (view s) = {} \<or> v_pinned (view s) = set (logged s)"
  shows "\<exists>s'. install_trans s = Ok s' \<and> bc_inv s' \<and> bstate.more s' = bstate.more s
      \<and> view s' = (view s)\<lparr>v_blk := writes (install_trace s (v_blk (view s))) (v_blk (view s)),
          v_disk := writes (install_trace s (v_blk (view s))) (v_disk (view s)), v_pinned := {},
          v_trace := v_trace (view s) @ install_trace s (v_blk (view s))\<rparr>"
proof -
  let ?ts = "[0..<nat (lh_n s)]" and ?src = "\<lambda>t. l_start s + t + 1" and ?dst = "\<lambda>t. lh_block s ! t"
  have "\<exists>s'. for_each install_step ?ts s = Ok s' \<and> bc_inv s' \<and> bstate.more s' = bstate.more s
      \<and> view s' = (view s)\<lparr>v_blk := writes (install_trace s (v_blk (view s))) (v_blk (view s)),
          v_disk := writes (install_trace s (v_blk (view s))) (v_disk (view s)),
          v_pinned := v_pinned (view s) - ?dst ` set ?ts,
          v_trace := v_trace (view s) @ install_trace s (v_blk (view s))\<rparr>"
    unfolding install_trace_def
  proof (rule bc.copy_loop [where P = "v_pinned (view s)"])
    show "?src ` set ?ts \<inter> ?dst ` set ?ts = {}"
      using log_home_disjoint [OF g] by (auto simp: lessThan_atLeast0)
  qed (use geomD(11) [OF g] s install_step_ok [OF g _ _ _ P] in auto)
  moreover have "v_pinned (view s) - ?dst ` set ?ts = {}"
    using P geomD(12) [OF g] by (auto simp: lessThan_atLeast0)
  ultimately show ?thesis by (simp only: install_trans_def)
qed

lemma write_log_ok:
  assumes g: "log_geom s" and s: "bc_inv s" "v_held (view s) = {}"
    and P: "v_pinned (view s) = set (logged s)"
  shows "\<exists>s'. write_log s = Ok s' \<and> bc_inv s' \<and> bstate.more s' = bstate.more s
      \<and> view s' = (view s)\<lparr>v_blk := writes (log_trace s (v_blk (view s))) (v_blk (view s)),
          v_disk := writes (log_trace s (v_blk (view s))) (v_disk (view s)),
          v_trace := v_trace (view s) @ log_trace s (v_blk (view s))\<rparr>"
proof -
  let ?ts = "[0..<nat (lh_n s)]" and ?dst = "\<lambda>t. l_start s + t + 1" and ?src = "\<lambda>t. lh_block s ! t"
  have disj: "set (logged s) \<inter> ?dst ` set ?ts = {}"
    using log_home_disjoint [OF g] geomD(12) [OF g] by (simp add: lessThan_atLeast0)
  have "\<exists>s'. for_each write_step ?ts s = Ok s' \<and> bc_inv s' \<and> bstate.more s' = bstate.more s
      \<and> view s' = (view s)\<lparr>v_blk := writes (log_trace s (v_blk (view s))) (v_blk (view s)),
          v_disk := writes (log_trace s (v_blk (view s))) (v_disk (view s)),
          v_pinned := v_pinned (view s) - ?dst ` set ?ts,
          v_trace := v_trace (view s) @ log_trace s (v_blk (view s))\<rparr>"
    unfolding log_trace_def
  proof (rule bc.copy_loop [where P = "set (logged s)"])
    show "?src ` set ?ts \<inter> ?dst ` set ?ts = {}"
      using log_home_disjoint [OF g] by (simp add: lessThan_atLeast0)
  qed (use P s write_step_ok [OF g] geomD(12) [OF g] in \<open>auto simp: distinct_map inj_on_def\<close>)
  moreover have "v_pinned (view s) - ?dst ` set ?ts = v_pinned (view s)"
    using P disj by auto
  ultimately show ?thesis by (simp add: write_log_def)
qed


section \<open>The header and the commit\<close>

lemma write_head_ok:
  assumes s: "bc_inv s" "l_dev s = ROOTDEV" "lh_n s \<le> int (length (lh_block s))" "gettable (view s) (l_start s)"
  defines "h \<equiv> put_head (lh_n s) (lh_block s) (v_blk (view s) (l_start s))"
  shows "\<exists>s'. write_head s = Ok s' \<and> bc_inv s' \<and> bstate.more s' = bstate.more s
      \<and> view s' = (view s)\<lparr>v_blk := (v_blk (view s))(l_start s := h),
           v_disk := (v_disk (view s))(l_start s := h), v_pinned := v_pinned (view s) - {l_start s},
           v_trace := v_trace (view s) @ [(ROOTDEV, l_start s, h)]\<rparr>"
proof -
  obtain i s1 s2 s3 where st: "bread ROOTDEV (l_start s) s = Ok (i, s1)"
      "getdata s1 i = v_blk (view s) (l_start s)" "bwrite i (setdata i h s1) = Ok s2"
      "brelse i s2 = Ok s3" "bc_inv s3" "bstate.more s3 = bstate.more s"
      "view s3 = (view s)\<lparr>v_blk := (v_blk (view s))(l_start s := h),
           v_disk := (v_disk (view s))(l_start s := h), v_pinned := v_pinned (view s) - {l_start s},
           v_trace := v_trace (view s) @ [(ROOTDEV, l_start s, h)]\<rparr>"
    using bc.rewrite_block [OF s(1,4), of "put_head (lh_n s) (lh_block s)"] unfolding h_def by auto
  moreover have "bstate.more s1 = bstate.more s"
    using bc.bread_law [OF s(1,4)] st(1) by auto
  ultimately show ?thesis
    using same_log [of s1 s] s(2,3) by (simp add: write_head_def h_def)
qed

lemma read_head_ok:
  assumes s: "bc_inv s" "l_dev s = ROOTDEV" "gettable (view s) (l_start s)"
  defines "d \<equiv> v_blk (view s) (l_start s)"
  assumes n: "s32 (get32 d 0) \<le> int (length (lh_block s))"
  shows "\<exists>s'. read_head s = Ok s' \<and> bc_inv s' \<and> view s' = view s
      \<and> bstate.more s' = bstate.more (s\<lparr>lh_n := s32 (get32 d 0),
          lh_block := map (\<lambda>i. get32 d (4 + 4 * i)) [0..<nat (s32 (get32 d 0))]
            @ drop (nat (s32 (get32 d 0))) (lh_block s)\<rparr>)"
proof -
  let ?u = "\<lambda>s'. s'\<lparr>lh_n := s32 (get32 d 0),
          lh_block := map (\<lambda>i. get32 d (4 + 4 * i)) [0..<nat (s32 (get32 d 0))]
            @ drop (nat (s32 (get32 d 0))) (lh_block s)\<rparr>"
  obtain i s1 where s1: "bread ROOTDEV (l_start s) s = Ok (i, s1)" "bc_inv s1" "holds s1 i (l_start s)"
      "view s1 = (view s)\<lparr>v_held := insert (l_start s) (v_held (view s))\<rparr>" "bstate.more s1 = bstate.more s"
    using bc.bread_law [OF s(1,3)] by blast
  have d: "getdata s1 i = d"
    using bc.getdata_law [OF s1(2,3)] s1(4) by (simp add: d_def)
  have clean: "l_start s \<in> v_pinned (view s1) \<or> v_blk (view s1) (l_start s) = v_disk (view s1) (l_start s)"
    using bc.clean_law [OF s(1), of "l_start s"] s(3) s1(4) by (auto simp: gettable_def)
  have more: "bstate.more (?u s1) = bstate.more (?u s)"
    using s1(5) by (cases s; cases s1) simp
  obtain s2 where s2: "brelse i (?u s1) = Ok s2" "bc_inv s2" "bstate.more s2 = bstate.more (?u s1)"
      "view s2 = (view (?u s1))\<lparr>v_held := v_held (view (?u s1)) - {l_start s}\<rparr>"
    using bc.brelse_law [of "?u s1" i "l_start s"] s1(2,3) clean by auto
  have "view s2 = view s"
    using s2(4) s1(4) s(3) by (simp add: gettable_def)
  then show ?thesis
    using s1(1) s2 d n s(2) more same_log [OF s1(5)] by (simp add: read_head_def Let_def)
qed

lemma install_trace_after_log:
  assumes "log_geom s" and "m1 = writes (log_trace s m) m"
  shows "install_trace s (m1(l_start s := h)) = map (\<lambda>t. (ROOTDEV, lh_block s ! t, m (lh_block s ! t))) [0..<nat (lh_n s)]"
proof -
  have "writes (log_trace s m) m (l_start s + t + 1) = m (lh_block s ! t)" if "t < nat (lh_n s)" for t
    using that writes_at [of "\<lambda>t. l_start s + t + 1" "[0..<nat (lh_n s)]" t]
    by (simp add: log_trace_def distinct_map inj_on_def)
  with assms(2) show ?thesis by (simp add: install_trace_def)
qed

definition commit_trace :: "'z lstate_scheme \<Rightarrow> (nat \<Rightarrow> byte list) \<Rightarrow> (nat \<times> nat \<times> byte list) list" where
  "commit_trace s m =
     (let h = put_head (lh_n s) (lh_block s) (m (l_start s))
      in log_trace s m @ [(ROOTDEV, l_start s, h)]
         @ map (\<lambda>t. (ROOTDEV, lh_block s ! t, m (lh_block s ! t))) [0..<nat (lh_n s)]
         @ [(ROOTDEV, l_start s, put_head 0 (lh_block s) h)])"

lemma start_not_home: "log_geom s \<Longrightarrow> l_start s \<notin> set (logged s)"
  by (auto simp: log_geom_def)

lemma commit_ok:
  assumes g: "log_geom s" and s: "bc_inv s" "v_held (view s) = {}" "v_pinned (view s) = set (logged s)"
    and n: "0 < lh_n s"
  shows "\<exists>s'. commit s = Ok s' \<and> bc_inv s' \<and> bstate.more s' = bstate.more (s\<lparr>lh_n := 0\<rparr>)
      \<and> view s' = (view s)\<lparr>v_blk := writes (commit_trace s (v_blk (view s))) (v_blk (view s)),
          v_disk := writes (commit_trace s (v_blk (view s))) (v_disk (view s)), v_pinned := {},
          v_trace := v_trace (view s) @ commit_trace s (v_blk (view s))\<rparr>"
proof -
  let ?m = "v_blk (view s)" and ?st = "l_start s"
  let ?m1 = "writes (log_trace s ?m) ?m"
  have st: "?st < FSSIZE" "l_dev s = ROOTDEV" "lh_n s \<le> int (length (lh_block s))"
    using geomD [OF g] by (auto simp: log_geom_def)
  obtain s1 where s1: "write_log s = Ok s1" "bc_inv s1" "bstate.more s1 = bstate.more s"
      "view s1 = (view s)\<lparr>v_blk := ?m1, v_disk := writes (log_trace s ?m) (v_disk (view s)),
          v_trace := v_trace (view s) @ log_trace s ?m\<rparr>"
    using write_log_ok [OF g s] by blast
  have m1: "?m1 ?st = ?m ?st"
    by (rule writes_other) (auto simp: log_trace_def)
  let ?h = "put_head (lh_n s) (lh_block s) (?m ?st)"
  note l1 = same_log [OF s1(3)]
  have "gettable (view s1) (l_start s1)"
    using s st s1(4) l1 geomD(13) [OF g] by (simp add: gettable_def)
  from write_head_ok [OF s1(2) _ _ this] obtain s2 where
    s2: "write_head s1 = Ok s2" "bc_inv s2" "bstate.more s2 = bstate.more s"
      "view s2 = (view s)\<lparr>v_blk := ?m1(?st := ?h),
          v_disk := (writes (log_trace s ?m) (v_disk (view s)))(?st := ?h),
          v_trace := v_trace (view s) @ log_trace s ?m @ [(ROOTDEV, ?st, ?h)]\<rparr>"
    using s1(3,4) l1 st m1 s(3) start_not_home [OF g] by auto
  note l2 = same_log [OF s2(3)]
  have geo: "log_geom s2" and lg: "logged s2 = logged s"
    using g l2 by (simp_all add: log_geom_def logged_def)
  have it: "install_trace s2 (v_blk (view s2)) = map (\<lambda>t. (ROOTDEV, lh_block s ! t, ?m (lh_block s ! t))) [0..<nat (lh_n s)]"
    using install_trace_after_log [OF g refl, of ?m ?h] s2(4) l2 by (simp add: install_trace_def)
  obtain s3 where s3: "install_trans s2 = Ok s3" "bc_inv s3" "bstate.more s3 = bstate.more s2"
      "view s3 = (view s2)\<lparr>v_blk := writes (install_trace s2 (v_blk (view s2))) (v_blk (view s2)),
          v_disk := writes (install_trace s2 (v_blk (view s2))) (v_disk (view s2)), v_pinned := {},
          v_trace := v_trace (view s2) @ install_trace s2 (v_blk (view s2))\<rparr>"
    using install_trans_ok [OF geo s2(2)] s2(4) s(2,3) lg by auto
  have l3: "bstate.more (s3\<lparr>lh_n := 0\<rparr>) = bstate.more (s\<lparr>lh_n := 0\<rparr>)"
    using s3(3) s2(3) by (cases s; cases s3) simp
  note f3 = same_log [OF l3]
  have "?st \<notin> (fst \<circ> snd) ` set (install_trace s2 (v_blk (view s2)))"
    using geomD(10) [OF g] unfolding it by force
  then have h3: "v_blk (view s3) ?st = ?h"
    using s3(4) s2(4) by (simp add: writes_other)
  have "gettable (view (s3\<lparr>lh_n := 0\<rparr>)) (l_start (s3\<lparr>lh_n := 0\<rparr>))"
    using s3(4) s2(4) s(2) st f3 by (simp add: gettable_def NBUF_def MAXOPBLOCKS_def)
  from write_head_ok [OF _ _ _ this] obtain s4 where
    s4: "write_head (s3\<lparr>lh_n := 0\<rparr>) = Ok s4" "bc_inv s4" "bstate.more s4 = bstate.more (s\<lparr>lh_n := 0\<rparr>)"
      "view s4 = (view s3)\<lparr>v_blk := (v_blk (view s3))(?st := put_head 0 (lh_block s) ?h),
          v_disk := (v_disk (view s3))(?st := put_head 0 (lh_block s) ?h), v_pinned := {},
          v_trace := v_trace (view s3) @ [(ROOTDEV, ?st, put_head 0 (lh_block s) ?h)]\<rparr>"
    using s3(2,4) l3 f3 h3 st by auto
  show ?thesis
    using n s1(1) s2(1) s3(1) s4 s3(4) s2(4) it by (simp add: commit_def commit_trace_def Let_def)
qed


section \<open>Recovery\<close>

text \<open>
  What a drive holds as far as the log is concerned: the super block, the header, and the contents
  recovery gives to the home blocks.
\<close>

definition head_n :: "nat \<Rightarrow> (nat \<Rightarrow> byte list) \<Rightarrow> int" where
  "head_n start D = s32 (get32 (D start) 0)"

definition head_block :: "nat \<Rightarrow> (nat \<Rightarrow> byte list) \<Rightarrow> nat \<Rightarrow> nat" where
  "head_block start D t = get32 (D start) (4 + 4 * t)"

definition sb_ok :: "nat \<Rightarrow> int \<Rightarrow> (nat \<Rightarrow> byte list) \<Rightarrow> bool" where
  "sb_ok start nlog D \<longleftrightarrow>
     u32 (sb_size (decode_sb (D 1)) + 2 ^ 32 - sb_nlog (decode_sb (D 1))) = start
     \<and> s32 (sb_nlog (decode_sb (D 1))) = nlog
     \<and> 1 < start \<and> 0 < nlog \<and> int start + nlog \<le> int FSSIZE \<and> (\<forall>b<FSSIZE. length (D b) = BSIZE)"

definition head_ok :: "nat \<Rightarrow> int \<Rightarrow> (nat \<Rightarrow> byte list) \<Rightarrow> bool" where
  "head_ok start nlog D \<longleftrightarrow>
     0 \<le> head_n start D \<and> head_n start D < nlog \<and> head_n start D < int NBUF
     \<and> distinct (map (head_block start D) [0..<nat (head_n start D)])
     \<and> (\<forall>t<nat (head_n start D). head_block start D t < start \<and> head_block start D t \<noteq> 1)"

definition recovered :: "nat \<Rightarrow> (nat \<Rightarrow> byte list) \<Rightarrow> nat \<Rightarrow> byte list" where
  "recovered start D b =
     (case List.find (\<lambda>t. head_block start D t = b) [0..<nat (head_n start D)] of
        Some t \<Rightarrow> D (start + t + 1) | None \<Rightarrow> D b)"

definition recover_trace :: "nat \<Rightarrow> (nat \<Rightarrow> byte list) \<Rightarrow> (nat \<times> nat \<times> byte list) list" where
  "recover_trace start D =
     map (\<lambda>t. (ROOTDEV, head_block start D t, D (start + t + 1))) [0..<nat (head_n start D)]
     @ [(ROOTDEV, start, put32 (D start) 0 0)]"

lemma put_head_0 [simp]: "put_head 0 bl d = put32 d 0 0"
  by (simp add: put_head_def)

lemma head_cong: "D start = E start \<Longrightarrow> head_n start D = head_n start E \<and> head_block start D = head_block start E"
  by (simp add: head_n_def head_block_def fun_eq_iff)

lemma head_ok_cong: "D start = E start \<Longrightarrow> head_ok start nlog D = head_ok start nlog E"
  using head_cong [of D start E] by (simp add: head_ok_def)

lemma sb_ok_start: "sb_ok start nlog D \<Longrightarrow> start < FSSIZE"
  by (auto simp: sb_ok_def)

lemma sb_okD:
  "sb_ok start nlog D \<Longrightarrow> 1 < start \<and> 0 < nlog \<and> int start + nlog \<le> int FSSIZE
     \<and> (\<forall>b<FSSIZE. length (D b) = BSIZE)"
  by (simp add: sb_ok_def)

lemma recovered_cases:
  assumes "head_ok start nlog D"
  shows "t < nat (head_n start D) \<Longrightarrow> recovered start D (head_block start D t) = D (start + t + 1)"
    and "b \<notin> head_block start D ` {..<nat (head_n start D)} \<Longrightarrow> recovered start D b = D b"
proof -
  assume t: "t < nat (head_n start D)"
  then obtain u where u: "List.find (\<lambda>u. head_block start D u = head_block start D t) [0..<nat (head_n start D)] = Some u"
    using find_ex [of t "[0..<nat (head_n start D)]"] by fastforce
  then have "u < nat (head_n start D)" "head_block start D u = head_block start D t"
    using find_SomeD [OF u] by auto
  then have "u = t"
    using assms t by (auto simp: head_ok_def distinct_map inj_on_def)
  with u show "recovered start D (head_block start D t) = D (start + t + 1)"
    by (simp add: recovered_def)
next
  assume "b \<notin> head_block start D ` {..<nat (head_n start D)}"
  then show "recovered start D b = D b"
    by (auto simp: recovered_def split: option.split dest!: find_SomeD)
qed

lemma head_ok_0: "head_n start D = 0 \<Longrightarrow> 0 < nlog \<Longrightarrow> head_ok start nlog D \<and> recovered start D = D"
  by (auto simp: head_ok_def recovered_def fun_eq_iff NBUF_def MAXOPBLOCKS_def)

text \<open>The writes of a recovery leave on every home block the contents recovery gives it.\<close>

lemma writes_recover_install:
  assumes "head_ok start nlog D" and "b < start"
  shows "writes (map (\<lambda>t. (ROOTDEV, head_block start D t, D (start + t + 1))) [0..<nat (head_n start D)]) D b
      = recovered start D b"
proof (cases "b \<in> head_block start D ` {..<nat (head_n start D)}")
  case True
  then obtain t where "t < nat (head_n start D)" "b = head_block start D t" by auto
  then show ?thesis
    using writes_at [of "head_block start D" "[0..<nat (head_n start D)]" t] assms(1)
      recovered_cases(1) [OF assms(1)] by (simp add: head_ok_def)
next
  case False
  then have "b \<notin> (fst \<circ> snd) ` set (map (\<lambda>t. (ROOTDEV, head_block start D t, D (start + t + 1))) [0..<nat (head_n start D)])"
    by (auto simp: image_iff)
  then have "writes (map (\<lambda>t. (ROOTDEV, head_block start D t, D (start + t + 1))) [0..<nat (head_n start D)]) D b = D b"
    by (rule writes_other)
  then show ?thesis
    using recovered_cases(2) [OF assms(1) False] by simp
qed

lemma writes_recover:
  assumes "head_ok start nlog D" and "b < start"
  shows "writes (recover_trace start D) D b = recovered start D b"
  using writes_recover_install [OF assms] assms(2) by (simp add: recover_trace_def)


lemma writes_length:
  "(\<And>u b d. (u, b, d) \<in> set tr \<Longrightarrow> length d = n) \<Longrightarrow> length (m b) = n \<Longrightarrow> length (writes tr m b) = n"
  by (induction tr arbitrary: m) (auto, metis fun_upd_apply)

lemma recover_trace_blocks:
  assumes "sb_ok start nlog D" and "head_ok start nlog D" and "(u, b, d) \<in> set (recover_trace start D)"
  shows "b \<le> start \<and> b \<noteq> 1 \<and> length d = BSIZE"
proof -
  have "start + t + 1 < FSSIZE" if "t < nat (head_n start D)" for t
    using that sb_okD [OF assms(1)] assms(2) by (auto simp: head_ok_def)
  then show ?thesis
    using sb_okD [OF assms(1)] assms(2,3) sb_ok_start [OF assms(1)]
    by (auto simp: recover_trace_def head_ok_def)
qed

lemma sb_ok_writes:
  assumes "sb_ok start nlog D" and "\<And>u b d. (u, b, d) \<in> set tr \<Longrightarrow> b \<noteq> 1 \<and> length d = BSIZE"
  shows "sb_ok start nlog (writes tr D)"
proof -
  have "1 \<notin> (fst \<circ> snd) ` set tr" using assms(2) by force
  then have "writes tr D 1 = D 1" by (rule writes_other)
  moreover have "length (writes tr D b) = BSIZE" if "b < FSSIZE" for b
    using writes_length [of tr BSIZE D b] assms that by (auto simp: sb_ok_def)
  ultimately show ?thesis using assms(1) by (simp add: sb_ok_def)
qed

text \<open>A crash in the middle of a recovery changes nothing: the next one gives the same contents.\<close>

lemma recover_crash:
  assumes "sb_ok start nlog D" and "head_ok start nlog D"
  defines "E \<equiv> \<lambda>k. writes (take k (recover_trace start D)) D"
  shows "sb_ok start nlog (E k) \<and> head_ok start nlog (E k) \<and> (\<forall>b < start. recovered start (E k) b = recovered start D b)"
proof (intro conjI)
  show "sb_ok start nlog (E k)"
    unfolding E_def using recover_trace_blocks [OF assms(1,2)]
    by (intro sb_ok_writes [OF assms(1)]) (auto dest: in_set_takeD)
  let ?n = "nat (head_n start D)"
  let ?tr = "map (\<lambda>t. (ROOTDEV, head_block start D t, D (start + t + 1))) [0..<?n]"
  have "head_ok start nlog (E k) \<and> (\<forall>b < start. recovered start (E k) b = recovered start D b)"
  proof (cases "k \<le> ?n")
    case True
    then have tr: "take k (recover_trace start D) = take k ?tr"
      by (simp add: recover_trace_def)
    have blk: "(fst \<circ> snd) ` set (take k ?tr) \<subseteq> head_block start D ` {..<?n}"
      using set_take_subset [of k ?tr] by fastforce
    have home: "c < start" if "c \<in> head_block start D ` {..<?n}" for c
      using that assms(2) by (auto simp: head_ok_def)
    have same: "E k c = D c" if "c \<notin> head_block start D ` {..<?n}" for c
      unfolding E_def tr using that blk by (intro writes_other) blast
    then have log: "E k c = D c" if "start \<le> c" for c
      using that home by (meson leD)
    note hd = head_cong [of "E k" start D, OF log [OF order_refl]]
    have ok: "head_ok start nlog (E k)"
      using head_ok_cong [of "E k" start D] log assms(2) by simp
    moreover have "recovered start (E k) b = recovered start D b" for b
    proof (cases "b \<in> head_block start D ` {..<?n}")
      case True
      then obtain t where "t < ?n" "b = head_block start D t" by auto
      then show ?thesis
        using recovered_cases(1) [OF ok] recovered_cases(1) [OF assms(2)] hd log by simp
    next
      case False
      then show ?thesis
        using recovered_cases(2) [OF ok] recovered_cases(2) [OF assms(2)] hd same by simp
    qed
    ultimately show ?thesis by blast
  next
    case False
    then have all: "E k = writes (recover_trace start D) D"
      by (simp add: E_def recover_trace_def)
    have "length (D start) = BSIZE"
      using assms(1) sb_ok_start [OF assms(1)] by (simp add: sb_ok_def)
    then have "head_n start (E k) = 0"
      unfolding all by (simp add: recover_trace_def head_n_def s32_def BSIZE_def)
    then show ?thesis
      using head_ok_0 [of start "E k" nlog] assms(1) writes_recover [OF assms(2)] all
      by (auto simp: sb_ok_def)
  qed
  then show "head_ok start nlog (E k)" "\<forall>b < start. recovered start (E k) b = recovered start D b"
    by blast+
qed


lemma readsb_ok:
  assumes "bc_inv s" and "gettable (view s) 1"
  shows "\<exists>s'. readsb ROOTDEV s = Ok (decode_sb (v_blk (view s) 1), s') \<and> bc_inv s' \<and> view s' = view s
    \<and> bstate.more s' = bstate.more s"
  using bc.bread_brelse [OF assms] by (fastforce simp: readsb_def Let_def)

text \<open>The code of recovery does the writes of \<^const>\<open>recover_trace\<close> and leaves an empty log.\<close>

lemma recover_from_log_ok:
  assumes s: "bc_inv s" "l_dev s = ROOTDEV" "l_start s = start" "l_size s = nlog" "length (lh_block s) = LOGSIZE"
    and v: "view s = \<lparr>v_blk = D, v_disk = D, v_pinned = {}, v_held = {}, v_trace = tr\<rparr>"
    and D: "sb_ok start nlog D" "head_ok start nlog D"
  shows "\<exists>s'. recover_from_log s = Ok s' \<and> bc_inv s'
    \<and> view s' = \<lparr>v_blk = writes (recover_trace start D) D, v_disk = writes (recover_trace start D) D,
         v_pinned = {}, v_held = {}, v_trace = tr @ recover_trace start D\<rparr>
    \<and> l_start s' = start \<and> l_size s' = nlog \<and> l_dev s' = ROOTDEV \<and> lh_n s' = 0 \<and> length (lh_block s') = LOGSIZE
    \<and> l_outstanding s' = l_outstanding s \<and> l_committing s' = l_committing s
    \<and> lstate.more s' = lstate.more s"
proof -
  obtain n where hn: "head_n start D = int n"
    using D(2) nonneg_int_cases by (auto simp: head_ok_def)
  then have n: "n < LOGSIZE" "int n < nlog"
    using D(2) by (auto simp: head_ok_def LOGSIZE_def NBUF_def MAXOPBLOCKS_def)
  have get: "gettable (view s) start"
    using v sb_ok_start [OF D(1)] by (simp add: gettable_def NBUF_def MAXOPBLOCKS_def)
  have "s32 (get32 (v_blk (view s) (l_start s)) 0) = int n"
    using hn v s(3) by (simp add: head_n_def)
  with read_head_ok [OF s(1,2)] obtain s1 where s1: "read_head s = Ok s1" "bc_inv s1" "view s1 = view s"
      "bstate.more s1 = bstate.more (s\<lparr>lh_n := int n,
         lh_block := map (head_block start D) [0..<n] @ drop n (lh_block s)\<rparr>)"
    using get s(3,5) v n(1) by (auto simp: head_block_def [abs_def])
  note l1 = same_log [OF s1(4)]
  have lg: "logged s1 = map (head_block start D) [0..<n]"
    using l1 by (simp add: logged_def)
  have geo: "log_geom s1"
    using l1 lg s n hn D(2) sb_okD [OF D(1)] by (auto simp: log_geom_def head_ok_def)
  obtain s2 where s2: "install_trans s1 = Ok s2" "bc_inv s2" "bstate.more s2 = bstate.more s1"
      "view s2 = (view s1)\<lparr>v_blk := writes (install_trace s1 D) D,
          v_disk := writes (install_trace s1 D) D, v_pinned := {}, v_trace := tr @ install_trace s1 D\<rparr>"
    using install_trans_ok [OF geo s1(2)] s1(3) v by auto
  have it: "install_trace s1 D = map (\<lambda>t. (ROOTDEV, head_block start D t, D (start + t + 1))) [0..<n]"
    using l1 s by (simp add: install_trace_def nth_append)
  have more: "bstate.more (s2\<lparr>lh_n := 0\<rparr>) = bstate.more (s1\<lparr>lh_n := 0\<rparr>)"
    using s2(3) by (cases s1; cases s2) simp
  note l2 = same_log [OF more]
  have "start \<notin> (fst \<circ> snd) ` set (install_trace s1 D)"
    using D(2) hn unfolding it head_ok_def by force
  then have "v_blk (view s2) start = D start"
    using s2(4) by (simp add: writes_other)
  moreover have "gettable (view (s2\<lparr>lh_n := 0\<rparr>)) start"
    using get s2(4) s1(3) v by (simp add: gettable_def)
  ultimately obtain s3 where s3: "write_head (s2\<lparr>lh_n := 0\<rparr>) = Ok s3" "bc_inv s3"
      "bstate.more s3 = bstate.more (s2\<lparr>lh_n := 0\<rparr>)"
      "view s3 = (view s2)\<lparr>v_blk := (v_blk (view s2))(start := put32 (D start) 0 0),
          v_disk := (v_disk (view s2))(start := put32 (D start) 0 0), v_pinned := {},
          v_trace := v_trace (view s2) @ [(ROOTDEV, start, put32 (D start) 0 0)]\<rparr>"
    using write_head_ok [of "s2\<lparr>lh_n := 0\<rparr>"] s2(2,4) l1 l2 s by auto
  show ?thesis
    using s1(1) s2(1) s3 s2(4) s1(3) v it l1 l2 same_log [OF s3(3)] s n(1)
    by (simp add: recover_from_log_def recover_trace_def hn)
qed

lemma initlog_ok:
  assumes s: "bc_inv s" "length (lh_block s) = LOGSIZE"
    and v: "view s = \<lparr>v_blk = D, v_disk = D, v_pinned = {}, v_held = {}, v_trace = tr\<rparr>"
    and D: "sb_ok start nlog D" "head_ok start nlog D"
  shows "\<exists>s'. initlog s = Ok s' \<and> bc_inv s'
    \<and> view s' = \<lparr>v_blk = writes (recover_trace start D) D, v_disk = writes (recover_trace start D) D,
         v_pinned = {}, v_held = {}, v_trace = tr @ recover_trace start D\<rparr>
    \<and> l_start s' = start \<and> l_size s' = nlog \<and> l_dev s' = ROOTDEV \<and> lh_n s' = 0 \<and> length (lh_block s') = LOGSIZE
    \<and> l_outstanding s' = l_outstanding s \<and> l_committing s' = l_committing s
    \<and> lstate.more s' = lstate.more s"
proof -
  have "gettable (view s) 1"
    using v by (simp add: gettable_def NBUF_def MAXOPBLOCKS_def FSSIZE_def)
  then obtain s1 where s1: "readsb ROOTDEV s = Ok (decode_sb (D 1), s1)" "bc_inv s1" "view s1 = view s"
      "bstate.more s1 = bstate.more s"
    using readsb_ok [OF s(1)] v by auto
  let ?s = "s1\<lparr>l_start := start, l_size := nlog, l_dev := ROOTDEV\<rparr>"
  have "\<exists>s'. recover_from_log ?s = Ok s' \<and> bc_inv s'
    \<and> view s' = \<lparr>v_blk = writes (recover_trace start D) D, v_disk = writes (recover_trace start D) D,
         v_pinned = {}, v_held = {}, v_trace = tr @ recover_trace start D\<rparr>
    \<and> l_start s' = start \<and> l_size s' = nlog \<and> l_dev s' = ROOTDEV \<and> lh_n s' = 0 \<and> length (lh_block s') = LOGSIZE
    \<and> l_outstanding s' = l_outstanding ?s \<and> l_committing s' = l_committing ?s
    \<and> lstate.more s' = lstate.more ?s"
    using s1(2,3) s(2) v D same_log [OF s1(4)] by (intro recover_from_log_ok) auto
  moreover have "u32 (sb_size (decode_sb (D 1)) + 2 ^ 32 - sb_nlog (decode_sb (D 1))) = start"
      "s32 (sb_nlog (decode_sb (D 1))) = nlog"
    using D(1) by (simp_all add: sb_ok_def)
  ultimately show ?thesis
    using s1(1) same_log [OF s1(4)] by (simp add: initlog_def LOGSIZE_def BSIZE_def MAXOPBLOCKS_def)
qed


section \<open>A crash during a commit\<close>

text \<open>
  The state between transactions and inside one: the blocks of the transaction are the pinned ones,
  the log on the drive is empty.
\<close>

definition log_live :: "'z lstate_scheme \<Rightarrow> bool" where
  "log_live s \<longleftrightarrow> bc_inv s \<and> log_geom s \<and> v_pinned (view s) = set (logged s)
     \<and> sb_ok (l_start s) (l_size s) (v_disk (view s)) \<and> head_n (l_start s) (v_disk (view s)) = 0"

abbreviation (input) home_trace :: "'z lstate_scheme \<Rightarrow> (nat \<Rightarrow> byte list) \<Rightarrow> (nat \<times> nat \<times> byte list) list" where
  "home_trace s m \<equiv> map (\<lambda>t. (ROOTDEV, lh_block s ! t, m (lh_block s ! t))) [0..<nat (lh_n s)]"

lemma logged_nth: "log_geom s \<Longrightarrow> b \<in> set (logged s) \<longleftrightarrow> (\<exists>t<nat (lh_n s). b = lh_block s ! t)"
  using geomD(12) by fastforce

lemma home_trace_blocks: "log_geom s \<Longrightarrow> (fst \<circ> snd) ` set (home_trace s m) = set (logged s)"
  by (simp add: geomD(12) image_image lessThan_atLeast0)

lemma writes_home:
  assumes "log_geom s"
  shows "writes (home_trace s m) D b = (if b \<in> set (logged s) then m b else D b)"
proof (cases "b \<in> set (logged s)")
  case True
  then obtain t where "t < nat (lh_n s)" "b = lh_block s ! t"
    using logged_nth [OF assms] by auto
  then show ?thesis
    using True writes_at [of "\<lambda>t. lh_block s ! t" "[0..<nat (lh_n s)]" t] geomD(11) [OF assms] by simp
next
  case False
  then have "b \<notin> (fst \<circ> snd) ` set (home_trace s m)"
    using home_trace_blocks [OF assms] by simp
  then have "writes (home_trace s m) D b = D b" by (rule writes_other)
  with False show ?thesis by simp
qed

text \<open>The drive once the header of the transaction is on it.\<close>

definition committed :: "'z lstate_scheme \<Rightarrow> (nat \<Rightarrow> byte list) \<Rightarrow> (nat \<Rightarrow> byte list) \<Rightarrow> nat \<Rightarrow> byte list" where
  "committed s m D = (writes (log_trace s m) D)(l_start s := put_head (lh_n s) (lh_block s) (m (l_start s)))"

lemma log_trace_home: "b \<le> l_start s \<Longrightarrow> writes (take k (log_trace s m)) D b = D b"
  by (rule writes_other) (auto simp: log_trace_def dest!: in_set_takeD)

lemma committed_log:
  assumes "t < nat (lh_n s)"
  shows "committed s m D (l_start s + t + 1) = m (lh_block s ! t)"
  using assms writes_at [of "\<lambda>t. l_start s + t + 1" "[0..<nat (lh_n s)]" t]
  by (simp add: committed_def log_trace_def distinct_map inj_on_def)

lemma committed_home: "b < l_start s \<Longrightarrow> committed s m D b = D b"
  using log_trace_home [of b s "length (log_trace s m)" m D] by (simp add: committed_def)

lemma committed_head:
  assumes g: "log_geom s" and "length (m (l_start s)) = BSIZE"
  shows "head_n (l_start s) (committed s m D) = lh_n s"
    and "t < nat (lh_n s) \<Longrightarrow> head_block (l_start s) (committed s m D) t = lh_block s ! t"
proof -
  have n: "0 \<le> lh_n s" "lh_n s < 30" "nat (lh_n s) < 30"
    using g by (auto simp: log_geom_def NBUF_def MAXOPBLOCKS_def)
  then show "head_n (l_start s) (committed s m D) = lh_n s"
    using assms(2) by (simp add: head_n_def committed_def get_put_head_n BSIZE_def)
  assume t: "t < nat (lh_n s)"
  then have "lh_block s ! t < 2 ^ 32"
    using geomD(8) [OF g] geomD(10) [OF g t] by (simp add: FSSIZE_def)
  then show "head_block (l_start s) (committed s m D) t = lh_block s ! t"
    using assms(2) t n by (simp add: head_block_def committed_def get_put_head_block BSIZE_def)
qed

lemma committed_head_ok:
  assumes g: "log_geom s" and len: "length (m (l_start s)) = BSIZE" and "E (l_start s) = committed s m D (l_start s)"
  shows "head_ok (l_start s) (l_size s) E" "head_n (l_start s) E = lh_n s"
    and "t < nat (lh_n s) \<Longrightarrow> head_block (l_start s) E t = lh_block s ! t"
proof -
  note hc = head_cong [of E "l_start s" "committed s m D", OF assms(3)]
  show n: "head_n (l_start s) E = lh_n s"
    using hc committed_head(1) [where m = m, OF g len] by simp
  show b: "head_block (l_start s) E t = lh_block s ! t" if "t < nat (lh_n s)" for t
    using hc committed_head(2) [where m = m, OF g len] that by simp
  have "map (head_block (l_start s) E) [0..<nat (lh_n s)] = map (\<lambda>t. lh_block s ! t) [0..<nat (lh_n s)]"
    using b by simp
  then have "distinct (map (head_block (l_start s) E) [0..<nat (lh_n s)])"
    using geomD(11) [OF g] by (simp only:)
  then show "head_ok (l_start s) (l_size s) E"
    using n b geomD(10) [OF g] g by (simp add: head_ok_def log_geom_def)
qed


lemma clean_home:
  "log_live s \<Longrightarrow> v_held (view s) = {} \<Longrightarrow> b < l_start s \<Longrightarrow> b \<notin> set (logged s) \<Longrightarrow>
   v_blk (view s) b = v_disk (view s) b"
  using bc.clean_law [of s b] geomD(8) [of s] by (auto simp: log_live_def)

text \<open>Before the header of the transaction is written, recovery finds the old contents.\<close>

lemma commit_crash_before:
  fixes m :: "nat \<Rightarrow> byte list"
  assumes "log_live s" and "k \<le> nat (lh_n s)"
  defines "D \<equiv> v_disk (view s)"
  defines "E \<equiv> writes (take k (log_trace s m)) D"
  shows "head_ok (l_start s) (l_size s) E \<and> (\<forall>b < l_start s. recovered (l_start s) E b = D b)"
proof -
  have "E (l_start s) = D (l_start s)"
    unfolding E_def by (simp add: log_trace_home)
  then have "head_n (l_start s) E = 0"
    using head_cong [of E "l_start s" D] assms(1) by (simp add: log_live_def D_def)
  then show ?thesis
    using head_ok_0 [of "l_start s" E "l_size s"] assms(1) log_trace_home [of _ s k m D]
    by (simp add: E_def log_live_def sb_ok_def)
qed

text \<open>From then on it finds the new ones.\<close>

lemma commit_crash_after:
  fixes j :: nat
  assumes l: "log_live s" "v_held (view s) = {}"
  defines "D \<equiv> v_disk (view s)" and "m \<equiv> v_blk (view s)"
  defines "E \<equiv> writes (take j (home_trace s m)) (committed s m D)"
  shows "head_ok (l_start s) (l_size s) E \<and> (\<forall>b < l_start s. recovered (l_start s) E b = m b)"
proof -
  have g: "log_geom s" and len: "length (m (l_start s)) = BSIZE"
    using l bc.size_law [of s "l_start s"] geomD(8) [of s] by (auto simp: log_live_def m_def)
  have other: "E c = committed s m D c" if "c \<notin> set (logged s)" for c
    unfolding E_def using that home_trace_blocks [OF g, of m] set_take_subset [of j "home_trace s m"]
    by (intro writes_other) blast
  have hd: "E (l_start s) = committed s m D (l_start s)"
    using other start_not_home [OF g] by blast
  note ok = committed_head_ok [where m = m and E = E, OF g len hd]
  have "recovered (l_start s) E b = m b" if b: "b < l_start s" for b
  proof (cases "b \<in> set (logged s)")
    case True
    then obtain t where t: "t < nat (lh_n s)" "b = lh_block s ! t"
      using logged_nth [OF g] by auto
    moreover have "l_start s + t + 1 \<notin> set (logged s)"
      using g by (auto simp: log_geom_def)
    ultimately show ?thesis
      using recovered_cases(1) [OF ok(1), of t] ok(2,3) other committed_log [OF t(1), of m D] by simp
  next
    case False
    then have "b \<notin> head_block (l_start s) E ` {..<nat (lh_n s)}"
      using ok(3) logged_nth [OF g] by auto
    then show ?thesis
      using recovered_cases(2) [OF ok(1)] ok(2) other [OF False] committed_home [OF b, of m D]
        clean_home [OF l b False] by (simp add: D_def m_def)
  qed
  with ok(1) show ?thesis by blast
qed

lemma commit_trace_eq:
  "writes (commit_trace s m) D
     = (writes (home_trace s m) (committed s m D))(l_start s := put32 (put_head (lh_n s) (lh_block s) (m (l_start s))) 0 0)"
  by (simp add: commit_trace_def committed_def Let_def)

lemma commit_done:
  assumes l: "log_live s" "v_held (view s) = {}"
  defines "D \<equiv> v_disk (view s)" and "m \<equiv> v_blk (view s)"
  defines "E \<equiv> writes (commit_trace s m) D"
  shows "head_n (l_start s) E = 0 \<and> (\<forall>b < l_start s. E b = m b)"
proof -
  have g: "log_geom s" and len: "length (m (l_start s)) = BSIZE"
    using l bc.size_law [of s "l_start s"] geomD(8) [of s] by (auto simp: log_live_def m_def)
  have "E b = m b" if "b < l_start s" for b
    using that clean_home [OF l that] committed_home [OF that, of m D]
    by (simp add: E_def commit_trace_eq writes_home [OF g] D_def m_def)
  moreover have "head_n (l_start s) E = 0"
    using len by (simp add: E_def commit_trace_eq head_n_def s32_def BSIZE_def)
  ultimately show ?thesis by blast
qed

lemma commit_crash:
  fixes k :: nat
  assumes l: "log_live s" "v_held (view s) = {}"
  defines "D \<equiv> v_disk (view s)" and "m \<equiv> v_blk (view s)"
  defines "E \<equiv> writes (take k (commit_trace s m)) D"
  shows "head_ok (l_start s) (l_size s) E
    \<and> (\<forall>b < l_start s. recovered (l_start s) E b = (if k \<le> nat (lh_n s) then D b else m b))"
proof -
  let ?n = "nat (lh_n s)"
  have len: "length (log_trace s m) = ?n" by (simp add: log_trace_def)
  consider "k \<le> ?n" | j where "k = ?n + 1 + j" "j \<le> ?n" | "2 * ?n + 1 < k"
    by (cases "k \<le> ?n"; cases "2 * ?n + 1 < k") (auto simp: not_le not_less dest!: less_imp_Suc_add)
  then show ?thesis
  proof cases
    case 1
    then have "take k (commit_trace s m) = take k (log_trace s m)"
      using len by (simp add: commit_trace_def Let_def)
    then show ?thesis
      using commit_crash_before [where m = m, OF l(1) 1] 1 by (simp add: E_def D_def)
  next
    case 2
    then have "E = writes (take j (home_trace s m)) (committed s m D)"
      using len by (simp add: E_def commit_trace_def Let_def committed_def)
    then show ?thesis
      using commit_crash_after [OF l, of j] 2(1) by (simp add: D_def m_def)
  next
    case 3
    then have "E = writes (commit_trace s m) D"
      using len by (simp add: E_def commit_trace_def Let_def)
    then show ?thesis
      using commit_done [OF l] 3 head_ok_0 [of "l_start s" E "l_size s"] l(1)
      by (auto simp: D_def m_def log_live_def sb_ok_def)
  qed
qed


section \<open>Operations inside a transaction\<close>

lemma logged_iff:
  "nat (lh_n s) \<le> length (lh_block s) \<Longrightarrow> b \<in> set (logged s) \<longleftrightarrow> (\<exists>t<nat (lh_n s). b = lh_block s ! t)"
  by (auto simp: logged_def in_set_conv_nth)

lemma log_slot_cases:
  assumes "nat (lh_n s) \<le> length (lh_block s)"
  shows "b \<in> set (logged s) \<Longrightarrow> log_slot b s < nat (lh_n s) \<and> lh_block s ! log_slot b s = b"
    and "b \<notin> set (logged s) \<Longrightarrow> log_slot b s = nat (lh_n s)"
proof -
  assume "b \<in> set (logged s)"
  then obtain t where "t < nat (lh_n s)" "lh_block s ! t = b"
    using logged_iff [OF assms] by auto
  then obtain u where "List.find (\<lambda>i. lh_block s ! i = b) [0..<nat (lh_n s)] = Some u"
    using find_ex [of t "[0..<nat (lh_n s)]" "\<lambda>i. lh_block s ! i = b"] by auto
  then show "log_slot b s < nat (lh_n s) \<and> lh_block s ! log_slot b s = b"
    using find_SomeD by (fastforce simp: log_slot_def)
next
  assume "b \<notin> set (logged s)"
  then show "log_slot b s = nat (lh_n s)"
    using logged_iff [OF assms] by (auto simp: log_slot_def split: option.split dest!: find_SomeD)
qed

lemma log_fields_truncate [simp]:
  "bstate.truncate (s\<lparr>lh_block := bl, lh_n := n\<rparr>) = bstate.truncate s"
  by (simp add: bstate.truncate_def)

lemma log_slot_logged:
  fixes b :: nat
  assumes g: "0 \<le> lh_n s" "nat (lh_n s) < length (lh_block s)"
  defines "s' \<equiv> s\<lparr>lh_block := (lh_block s)[log_slot b s := b],
      lh_n := if int (log_slot b s) = lh_n s then lh_n s + 1 else lh_n s\<rparr>"
  shows "b \<in> set (logged s) \<Longrightarrow> s' = s"
    and "b \<notin> set (logged s) \<Longrightarrow> lh_n s' = lh_n s + 1 \<and> logged s' = logged s @ [b]"
proof -
  assume "b \<in> set (logged s)"
  then have slot: "log_slot b s < nat (lh_n s)" "lh_block s ! log_slot b s = b"
    using log_slot_cases(1) [OF less_imp_le [OF g(2)]] by auto
  then have "(lh_block s)[log_slot b s := b] = lh_block s"
    using list_update_id [of "lh_block s" "log_slot b s"] by simp
  then show "s' = s"
    using slot(1) by (intro lstate.equality) (auto simp: s'_def)
next
  assume b: "b \<notin> set (logged s)"
  have "nat (lh_n s + 1) = Suc (nat (lh_n s))" using g by (simp add: nat_add_distrib)
  then have "take (nat (lh_n s + 1)) ((lh_block s)[nat (lh_n s) := b]) = logged s @ [b]"
    using g(2) by (simp add: logged_def take_Suc_conv_app_nth)
  then show "lh_n s' = lh_n s + 1 \<and> logged s' = logged s @ [b]"
    using log_slot_cases(2) [OF less_imp_le [OF g(2)] b] g(1) by (simp add: s'_def logged_def)
qed


lemma log_write_ok:
  assumes l: "log_live s" and i: "holds s i b" and b: "b < l_start s" "b \<noteq> 1"
    and n: "lh_n s + 1 < l_size s" "lh_n s + 1 < int NBUF" and o: "1 \<le> l_outstanding s"
  shows "\<exists>s'. log_write i s = Ok s' \<and> log_live s' \<and> holds s' = holds s
    \<and> view s' = (view s)\<lparr>v_pinned := insert b (v_pinned (view s))\<rparr>
    \<and> logged s' = (if b \<in> set (logged s) then logged s else logged s @ [b])
    \<and> lh_n s' = (if b \<in> set (logged s) then lh_n s else lh_n s + 1)
    \<and> l_outstanding s' = l_outstanding s \<and> l_committing s' = l_committing s
    \<and> l_start s' = l_start s \<and> l_size s' = l_size s \<and> lstate.more s' = lstate.more s"
proof -
  have g: "log_geom s" and inv: "bc_inv s" using l by (auto simp: log_live_def)
  define t where "t = s\<lparr>lh_block := (lh_block s)[log_slot b s := b],
      lh_n := if int (log_slot b s) = lh_n s then lh_n s + 1 else lh_n s\<rparr>"
  have bno: "b_blockno (bufs s i) = b" using i by (simp add: holds_def cached_at_def)
  have code: "log_write i s = Ok (pin i t)"
    using n o bno by (simp add: log_write_def Let_def LOGSIZE_def NBUF_def t_def)
  have cache: "bc_inv t" "view t = view s" "holds t = holds s"
    using inv by (simp_all add: same_cache [OF log_fields_truncate] t_def)
  then have p: "bc_inv (pin i t)" "view (pin i t) = (view s)\<lparr>v_pinned := insert b (v_pinned (view s))\<rparr>"
      "holds (pin i t) = holds s" "bstate.more (pin i t) = bstate.more t"
    using bc.pin_law [OF cache(1), of i b] i by auto
  note f = same_log [OF p(4)]
  have ft: "l_outstanding t = l_outstanding s" "l_committing t = l_committing s" "l_start t = l_start s"
      "l_size t = l_size s" "l_dev t = l_dev s" "lstate.more t = lstate.more s"
      "length (lh_block t) = length (lh_block s)"
    by (simp_all add: t_def)
  have "logged (pin i t) = logged t" using f by (simp add: logged_def)
  then have lg: "logged (pin i t) = (if b \<in> set (logged s) then logged s else logged s @ [b])"
      "lh_n (pin i t) = (if b \<in> set (logged s) then lh_n s else lh_n s + 1)"
    using log_slot_logged [of s b, folded t_def] geomD(3,6) [OF g] g f(6) by (auto simp: log_geom_def)
  have "log_geom (pin i t)"
    using g n b f(1,2,5,7) ft lg by (cases "b \<in> set (logged s)") (auto simp: log_geom_def)
  moreover have "set (logged (pin i t)) = insert b (set (logged s))"
    using lg(1) by auto
  ultimately have "log_live (pin i t)"
    using l p f ft by (simp add: log_live_def)
  then show ?thesis
    using code p lg f ft by (intro exI [of _ "pin i t"]) simp
qed

lemma begin_op_ok:
  assumes "\<not> l_committing s" and "lh_n s + (l_outstanding s + 1) * int MAXOPBLOCKS \<le> int LOGSIZE"
  shows "begin_op s = Ok (s\<lparr>l_outstanding := l_outstanding s + 1\<rparr>)"
  using assms by (simp add: begin_op_def)


text \<open>The state of the log depends on the pinned blocks and the drive, not on what is held.\<close>

lemma log_live_cong:
  assumes "log_live s" and "bc_inv t" and "bstate.more t = bstate.more s"
    and "v_pinned (view t) = v_pinned (view s)" and "v_disk (view t) = v_disk (view s)"
  shows "log_live t"
proof -
  note f = same_log [OF assms(3)]
  have "logged t = logged s" using f by (simp add: logged_def)
  then show ?thesis
    using assms f by (simp add: log_live_def log_geom_def)
qed

text \<open>
  The use of the log that \<^verbatim>\<open>log_write\<close> is documented for: read a block, modify it, log it, release it.
\<close>

definition log_room :: "'z lstate_scheme \<Rightarrow> bool" where
  "log_room s \<longleftrightarrow> lh_n s + 1 < l_size s \<and> lh_n s + 1 < int NBUF \<and> 1 \<le> l_outstanding s"

definition same_params :: "'z lstate_scheme \<Rightarrow> 'z lstate_scheme \<Rightarrow> bool" where
  "same_params s t \<longleftrightarrow> l_start t = l_start s \<and> l_size t = l_size s \<and> l_outstanding t = l_outstanding s
     \<and> l_committing t = l_committing s \<and> lstate.more t = lstate.more s"

lemma log_update:
  assumes l: "log_live s" "log_room s" and b: "gettable (view s) b" "b < l_start s" "b \<noteq> 1"
    and d: "length d = BSIZE"
  shows "\<exists>i s1 s2 s3. bread ROOTDEV b s = Ok (i, s1) \<and> getdata s1 i = v_blk (view s) b
    \<and> log_write i (setdata i d s1) = Ok s2 \<and> brelse i s2 = Ok s3 \<and> log_live s3
    \<and> view s3 = (view s)\<lparr>v_blk := (v_blk (view s))(b := d), v_pinned := insert b (v_pinned (view s))\<rparr>
    \<and> (\<forall>j c. holds s j c \<longrightarrow> holds s3 j c)
    \<and> logged s3 = (if b \<in> set (logged s) then logged s else logged s @ [b])
    \<and> lh_n s3 = (if b \<in> set (logged s) then lh_n s else lh_n s + 1) \<and> same_params s s3"
proof -
  have inv: "bc_inv s" using l by (simp add: log_live_def)
  obtain i s1 where s1: "bread ROOTDEV b s = Ok (i, s1)" "bc_inv s1" "holds s1 i b"
      "view s1 = (view s)\<lparr>v_held := insert b (v_held (view s))\<rparr>"
      "\<forall>j c. holds s j c \<longrightarrow> holds s1 j c" "bstate.more s1 = bstate.more s"
    using bc.bread_law [OF inv b(1)] by blast
  define t where "t = setdata i d s1"
  have t: "bc_inv t" "view t = (view s1)\<lparr>v_blk := (v_blk (view s1))(b := d)\<rparr>" "holds t = holds s1"
      "bstate.more t = bstate.more s"
    using bc.setdata_law [OF s1(2,3) d] s1(6) by (auto simp: t_def)
  have lt: "log_live t"
    using log_live_cong [OF l(1) t(1,4)] t(2) s1(4) by simp
  note ft = same_log [OF t(4)]
  have lgt: "logged t = logged s" using ft by (simp add: logged_def)
  obtain s2 where s2: "log_write i t = Ok s2" "log_live s2" "holds s2 = holds t"
      "view s2 = (view t)\<lparr>v_pinned := insert b (v_pinned (view t))\<rparr>"
      "logged s2 = (if b \<in> set (logged s) then logged s else logged s @ [b])"
      "lh_n s2 = (if b \<in> set (logged s) then lh_n s else lh_n s + 1)" "same_params t s2"
    using log_write_ok [OF lt, of i b] t(3) s1(3) b(2,3) l(2) ft lgt
    by (auto simp: log_room_def same_params_def)
  have inv2: "bc_inv s2" using s2(2) by (simp add: log_live_def)
  obtain s3 where s3: "brelse i s2 = Ok s3" "bc_inv s3" "bstate.more s3 = bstate.more s2"
      "view s3 = (view s2)\<lparr>v_held := v_held (view s2) - {b}\<rparr>"
      "\<forall>j c. j \<noteq> i \<and> holds s2 j c \<longrightarrow> holds s3 j c"
    using bc.brelse_law [OF inv2, of i b] s2(3,4) t(3) s1(3) by auto
  note f3 = same_log [OF s3(3)]
  have "insert b (v_held (view s)) - {b} = v_held (view s)"
    using b(1) by (auto simp: gettable_def)
  then have v3: "view s3 = (view s)\<lparr>v_blk := (v_blk (view s))(b := d), v_pinned := insert b (v_pinned (view s))\<rparr>"
    using s3(4) s2(4) t(2) s1(4) by simp
  have "holds s3 j c" if "holds s j c" for j c
  proof -
    have "c \<noteq> b" using bc.held_law [OF inv that] b(1) by (auto simp: gettable_def)
    then have "j \<noteq> i" using bc.unique_law [OF s1(2,3), of j c] s1(5) that by auto
    then show ?thesis using s3(5) s2(3) t(3) s1(5) that by simp
  qed
  moreover have "log_live s3"
    using log_live_cong [OF s2(2) s3(2,3)] s3(4) by simp
  moreover have "getdata s1 i = v_blk (view s) b"
    using bc.getdata_law [OF s1(2,3)] s1(4) by simp
  moreover have "same_params s s3" "logged s3 = logged s2"
    using s2(7) f3 ft by (simp_all add: same_params_def logged_def)
  ultimately show ?thesis
    using s1(1) s2(1,5,6) s3(1) v3 f3(6) by (simp add: t_def)
qed


section \<open>Crashes and restarts\<close>

text \<open>The machine started again on a drive with contents \<open>D\<close>, up to the call of \<^verbatim>\<open>initlog\<close>.\<close>

definition reboot :: "(nat \<Rightarrow> byte list) \<Rightarrow> lstate" where
  "reboot D = binit (power_on (\<lambda>_. D) (lstate.fields 0 0 0 False 0 0 (replicate LOGSIZE 0)))"

lemma reboot_log:
  "l_outstanding (reboot D) = 0" "l_committing (reboot D) = False" "length (lh_block (reboot D)) = LOGSIZE"
proof -
  have "bstate.more (reboot D) = lstate.fields 0 0 0 False 0 0 (replicate LOGSIZE 0)"
    by (simp add: reboot_def)
  then show "l_outstanding (reboot D) = 0" "l_committing (reboot D) = False" "length (lh_block (reboot D)) = LOGSIZE"
    by (cases "reboot D"; simp add: lstate.fields_def)+
qed

lemma reboot_initlog:
  assumes "sb_ok start nlog D" and "head_ok start nlog D"
  shows "\<exists>r. initlog (reboot D) = Ok r \<and> log_live r \<and> v_held (view r) = {} \<and> lh_n r = 0
    \<and> l_start r = start \<and> l_size r = nlog \<and> l_outstanding r = 0 \<and> \<not> l_committing r
    \<and> v_trace (view r) = recover_trace start D
    \<and> (\<forall>b < start. v_blk (view r) b = recovered start D b \<and> v_disk (view r) b = recovered start D b)"
proof -
  have "bc_inv (reboot D)"
    unfolding reboot_def using sb_okD [OF assms(1)] by (intro restart_inv) simp
  moreover have "view (reboot D) = \<lparr>v_blk = D, v_disk = D, v_pinned = {}, v_held = {}, v_trace = []\<rparr>"
    unfolding reboot_def by (simp add: restart_view)
  ultimately obtain r where r: "initlog (reboot D) = Ok r" "bc_inv r"
      "view r = \<lparr>v_blk = writes (recover_trace start D) D, v_disk = writes (recover_trace start D) D,
         v_pinned = {}, v_held = {}, v_trace = [] @ recover_trace start D\<rparr>"
      "l_start r = start" "l_size r = nlog" "l_dev r = ROOTDEV" "lh_n r = 0" "length (lh_block r) = LOGSIZE"
      "l_outstanding r = 0" "\<not> l_committing r"
    using initlog_ok [OF _ reboot_log(3) _ assms] reboot_log(1,2) by metis
  let ?E = "writes (take (length (recover_trace start D)) (recover_trace start D)) D"
  have sb: "sb_ok start nlog ?E"
    using recover_crash [OF assms] by blast
  have "length (D start) = BSIZE"
    using sb_okD [OF assms(1)] sb_ok_start [OF assms(1)] by blast
  then have "head_n start ?E = 0"
    by (simp add: recover_trace_def head_n_def s32_def BSIZE_def)
  then have "log_live r"
    using r sb sb_okD [OF sb] by (simp add: log_live_def log_geom_def logged_def NBUF_def MAXOPBLOCKS_def)
  then show ?thesis
    using r writes_recover [OF assms(2)] by simp
qed

lemma commit_trace_blocks:
  assumes "log_live s" and "(u, b, d) \<in> set (commit_trace s (v_blk (view s)))"
  shows "b \<noteq> 1 \<and> length d = BSIZE"
proof -
  have g: "log_geom s" and inv: "bc_inv s" using assms(1) by (auto simp: log_live_def)
  have "length (v_blk (view s) (lh_block s ! t)) = BSIZE" "lh_block s ! t \<noteq> 1" if "t < nat (lh_n s)" for t
    using bc.size_law [OF inv] geomD(8) [OF g] geomD(10) [OF g that] by auto
  then show ?thesis
    using assms(2) bc.size_law [OF inv geomD(8) [OF g]] geomD(2) [OF g]
    by (auto simp: commit_trace_def log_trace_def Let_def)
qed

lemma commit_live:
  assumes l: "log_live s" "v_held (view s) = {}" and n: "0 < lh_n s"
  shows "\<exists>s'. commit s = Ok s' \<and> log_live s' \<and> lh_n s' = 0 \<and> v_held (view s') = {} \<and> same_params s s'
    \<and> v_trace (view s') = v_trace (view s) @ commit_trace s (v_blk (view s))
    \<and> (\<forall>b < l_start s. v_blk (view s') b = v_blk (view s) b \<and> v_disk (view s') b = v_blk (view s) b)"
proof -
  let ?m = "v_blk (view s)" and ?D = "v_disk (view s)"
  have g: "log_geom s" using l by (simp add: log_live_def)
  obtain s' where s': "commit s = Ok s'" "bc_inv s'" "bstate.more s' = bstate.more (s\<lparr>lh_n := 0\<rparr>)"
      "view s' = (view s)\<lparr>v_blk := writes (commit_trace s ?m) ?m, v_disk := writes (commit_trace s ?m) ?D,
          v_pinned := {}, v_trace := v_trace (view s) @ commit_trace s ?m\<rparr>"
    using commit_ok [OF g _ l(2) _ n] l(1) by (auto simp: log_live_def)
  note f = same_log [OF s'(3)]
  have "sb_ok (l_start s) (l_size s) (writes (commit_trace s ?m) ?D)"
    using l(1) commit_trace_blocks [OF l(1)] by (intro sb_ok_writes) (auto simp: log_live_def)
  moreover have "log_geom s'"
    using g f by (simp add: log_geom_def logged_def)
  ultimately have "log_live s'"
    using s'(2,4) f commit_done [OF l] by (simp add: log_live_def logged_def)
  moreover have "writes (commit_trace s ?m) ?m b = ?m b" if "b < l_start s" for b
    using that committed_home [OF that, of ?m ?m]
    by (simp add: commit_trace_eq writes_home [OF g])
  ultimately show ?thesis
    using s'(1,4) f commit_done [OF l] l(2) by (simp add: same_params_def)
qed


section \<open>Reservations\<close>

lemma log_steps_more [frame]:
  "install_step t s = Ok s' \<Longrightarrow> bstate.more s' = bstate.more s"
  "write_step t s = Ok s' \<Longrightarrow> bstate.more s' = bstate.more s"
  "write_head s = Ok s' \<Longrightarrow> bstate.more s' = bstate.more s"
  unfolding install_step_def write_step_def write_head_def
  by (auto elim!: rbind_OkE split: if_split_asm dest!: bread_more bwrite_more brelse_more)

lemma commit_more:
  assumes "commit s = Ok s'"
  shows "bstate.more s' = bstate.more (if 0 < lh_n s then s\<lparr>lh_n := 0\<rparr> else s)"
proof (cases "0 < lh_n s")
  case True
  then obtain a b c where st: "write_log s = Ok a" "write_head a = Ok b" "install_trans b = Ok c"
      "write_head (c\<lparr>lh_n := 0\<rparr>) = Ok s'"
    using assms by (auto simp: commit_def elim!: rbind_OkE)
  have "bstate.more c = bstate.more s"
    using for_each_frame [of write_step _ s a bstate.more] for_each_frame [of install_step _ b c bstate.more]
      log_steps_more st by (metis install_trans_def write_log_def)
  moreover have "bstate.more s' = bstate.more (c\<lparr>lh_n := 0\<rparr>)"
    using st(4) log_steps_more(3) by blast
  ultimately show ?thesis
    using True by (cases s; cases c) simp
next
  case False
  then show ?thesis using assms by (simp add: commit_def)
qed

text \<open>
  System calls in progress, each with the set of blocks it has logged so far.  The steps are the
  calls of \<^verbatim>\<open>begin_op\<close>, \<^verbatim>\<open>log_write\<close> and \<^verbatim>\<open>end_op\<close> in any order; a system call logs at most
  \<^term>\<open>MAXOPBLOCKS\<close> blocks, and the cache's state is arbitrary at each step.
\<close>

type_synonym ops = "nat \<Rightarrow> nat set option"

inductive op_step :: "'z lstate_scheme \<times> ops \<Rightarrow> 'z lstate_scheme \<times> ops \<Rightarrow> bool" where
  op_begin: "begin_op s = Ok s' \<Longrightarrow> g p = None \<Longrightarrow> op_step (s, g) (s', g(p \<mapsto> {}))"
| op_write: "log_write i s = Ok s' \<Longrightarrow> g p = Some B \<Longrightarrow> b = b_blockno (bufs s i) \<Longrightarrow>
    card (insert b B) \<le> MAXOPBLOCKS \<Longrightarrow> op_step (s, g) (s', g(p \<mapsto> insert b B))"
| op_end: "end_op s = Ok s' \<Longrightarrow> g p = Some B \<Longrightarrow> op_step (s, g) (s', g(p := None))"
| op_cache: "bstate.more s' = bstate.more s \<Longrightarrow> op_step (s, g) (s', g)"

inductive_cases op_stepE: "op_step (s, g) (s', g')"

definition reserved :: "ops \<Rightarrow> nat" where
  "reserved g = (\<Sum>p\<in>dom g. MAXOPBLOCKS - card (the (g p)))"

definition res_inv :: "'z lstate_scheme \<times> ops \<Rightarrow> bool" where
  "res_inv x \<longleftrightarrow> (case x of (s, g) \<Rightarrow>
     finite (dom g) \<and> l_outstanding s = int (card (dom g)) \<and> \<not> l_committing s
     \<and> length (lh_block s) = LOGSIZE \<and> 0 \<le> lh_n s \<and> lh_n s + int (reserved g) \<le> int LOGSIZE
     \<and> (\<forall>p B. g p = Some B \<longrightarrow> finite B \<and> B \<subseteq> set (logged s)))"


lemma reserved_begin:
  assumes "finite (dom g)" and "g p = None"
  shows "reserved (g(p \<mapsto> {})) = reserved g + MAXOPBLOCKS"
proof -
  have "(\<Sum>q\<in>dom g. MAXOPBLOCKS - card (the ((g(p \<mapsto> {})) q))) = reserved g"
    unfolding reserved_def using assms(2) by (intro sum.cong) auto
  then show ?thesis
    using assms by (simp add: reserved_def domIff)
qed

lemma reserved_split:
  assumes "finite (dom g)" and "g p = Some B"
  shows "reserved g = (MAXOPBLOCKS - card B) + reserved (g(p := None))"
proof -
  have "reserved g = (MAXOPBLOCKS - card B) + (\<Sum>q\<in>dom g - {p}. MAXOPBLOCKS - card (the (g q)))"
    unfolding reserved_def using assms by (subst sum.remove [of _ p]) auto
  moreover have "(\<Sum>q\<in>dom g - {p}. MAXOPBLOCKS - card (the (g q))) = reserved (g(p := None))"
    unfolding reserved_def by (intro sum.cong) auto
  ultimately show ?thesis by simp
qed

lemma reserved_le: "reserved g \<le> card (dom g) * MAXOPBLOCKS"
  unfolding reserved_def using sum_bounded_above [of "dom g" _ MAXOPBLOCKS] by simp

lemma res_inv_more:
  "bstate.more s' = bstate.more s \<Longrightarrow> res_inv (s', g) = res_inv (s, g)"
  using same_log [of s' s] by (simp add: res_inv_def logged_def)

lemma log_write_fields:
  assumes w: "log_write i s = Ok s'" and n: "0 \<le> lh_n s" "length (lh_block s) = LOGSIZE"
  defines "b \<equiv> b_blockno (bufs s i)"
  shows "set (logged s') = insert b (set (logged s))"
    "lh_n s' = (if b \<in> set (logged s) then lh_n s else lh_n s + 1)"
    "l_outstanding s' = l_outstanding s" "l_committing s' = l_committing s" "length (lh_block s') = LOGSIZE"
proof -
  define t where "t = s\<lparr>lh_block := (lh_block s)[log_slot b s := b],
      lh_n := if int (log_slot b s) = lh_n s then lh_n s + 1 else lh_n s\<rparr>"
  have s': "s' = pin i t" and len: "nat (lh_n s) < length (lh_block s)"
    using w n by (auto simp: log_write_def Let_def t_def b_def split: if_split_asm)
  note f = same_log [of s' t]
  have lg: "logged s' = logged t" using s' f by (simp add: logged_def)
  note c = log_slot_logged [OF n(1) len, of b, folded t_def]
  show "set (logged s') = insert b (set (logged s))"
    using c lg by (cases "b \<in> set (logged s)") auto
  show "lh_n s' = (if b \<in> set (logged s) then lh_n s else lh_n s + 1)"
    using c s' f by auto
  show "l_outstanding s' = l_outstanding s" "l_committing s' = l_committing s" "length (lh_block s') = LOGSIZE"
    using s' f n(2) by (simp_all add: t_def)
qed


lemma end_op_fields:
  assumes e: "end_op s = Ok s'" and c: "\<not> l_committing s" and n: "0 \<le> lh_n s"
  shows "l_outstanding s' = l_outstanding s - 1" "\<not> l_committing s'" "lh_block s' = lh_block s"
    "lh_n s' = (if l_outstanding s = 1 then 0 else lh_n s)"
proof -
  let ?s1 = "s\<lparr>l_outstanding := l_outstanding s - 1\<rparr>"
  have "l_outstanding s' = l_outstanding s - 1 \<and> \<not> l_committing s' \<and> lh_block s' = lh_block s
      \<and> lh_n s' = (if l_outstanding s = 1 then 0 else lh_n s)"
  proof (cases "l_outstanding s = 1")
    case True
    then obtain t where t: "commit (?s1\<lparr>l_committing := True\<rparr>) = Ok t" "s' = t\<lparr>l_committing := False\<rparr>"
      using e c by (auto simp: end_op_def Let_def elim!: rbind_OkE)
    note f = same_log [OF commit_more [OF t(1)]]
    show ?thesis
      using t(2) f(3,6,7) True n by auto
  next
    case False
    then show ?thesis using e c by (auto simp: end_op_def Let_def split: if_split_asm)
  qed
  then show "l_outstanding s' = l_outstanding s - 1" "\<not> l_committing s'" "lh_block s' = lh_block s"
      "lh_n s' = (if l_outstanding s = 1 then 0 else lh_n s)"
    by auto
qed

lemma begin_step_inv:
  assumes "begin_op s = Ok s'" and "g p = None" and "res_inv (s, g)"
  shows "res_inv (s', g(p \<mapsto> {}))"
proof -
  have s': "s' = s\<lparr>l_outstanding := l_outstanding s + 1\<rparr>"
      "lh_n s + (l_outstanding s + 1) * int MAXOPBLOCKS \<le> int LOGSIZE"
    using assms(1) by (auto simp: begin_op_def split: if_split_asm)
  have i: "finite (dom g)" "l_outstanding s = int (card (dom g))"
    using assms(3) by (auto simp: res_inv_def)
  have "int (reserved (g(p \<mapsto> {}))) \<le> (l_outstanding s + 1) * int MAXOPBLOCKS"
    using reserved_begin [OF i(1) assms(2)] reserved_le [of g] i(2)
    by (simp add: algebra_simps flip: of_nat_mult)
  then show ?thesis
    using assms(2,3) s' i by (auto simp: res_inv_def logged_def domIff split: if_split_asm)
qed

lemma write_step_inv:
  assumes w: "log_write i s = Ok s'" and p: "g p = Some B" "card (insert b B) \<le> MAXOPBLOCKS"
    and b: "b = b_blockno (bufs s i)" and inv: "res_inv (s, g)"
  shows "res_inv (s', g(p \<mapsto> insert b B))"
proof -
  have i: "finite (dom g)" "finite B" "B \<subseteq> set (logged s)" "0 \<le> lh_n s" "length (lh_block s) = LOGSIZE"
    using inv p(1) by (auto simp: res_inv_def)
  note f = log_write_fields [OF w i(4,5), folded b]
  have r: "reserved (g(p \<mapsto> insert b B)) + card (insert b B) = reserved g + card B"
    using reserved_split [OF i(1) p(1)] reserved_split [of "g(p \<mapsto> insert b B)" p "insert b B"] i p(2)
      card_insert_le [of B b] by simp
  have "lh_n s' + int (reserved (g(p \<mapsto> insert b B))) \<le> int LOGSIZE"
  proof (cases "b \<in> B")
    case True
    then show ?thesis
      using r f(2) i(3) inv by (auto simp: insert_absorb res_inv_def)
  next
    case False
    then have "card (insert b B) = card B + 1" using i(2) by simp
    then show ?thesis using r f(2) inv by (auto simp: res_inv_def)
  qed
  moreover have "dom (g(p \<mapsto> insert b B)) = dom g" using p(1) by auto
  moreover have "finite B' \<and> B' \<subseteq> set (logged s')" if "(g(p \<mapsto> insert b B)) q = Some B'" for q B'
  proof (cases "q = p")
    case False
    then have "finite B' \<and> B' \<subseteq> set (logged s)" using that inv by (simp add: res_inv_def)
    then show ?thesis using f(1) by blast
  qed (use that i f(1) in auto)
  ultimately show ?thesis
    using inv f by (simp add: res_inv_def)
qed

lemma end_step_inv:
  assumes e: "end_op s = Ok s'" and p: "g p = Some B" and inv: "res_inv (s, g)"
  shows "res_inv (s', g(p := None))"
proof -
  have i: "finite (dom g)" "l_outstanding s = int (card (dom g))" "\<not> l_committing s" "0 \<le> lh_n s"
    using inv by (auto simp: res_inv_def)
  note f = end_op_fields [OF e i(3,4)]
  have d: "dom (g(p := None)) = dom g - {p}" by auto
  have c: "card (dom g) = Suc (card (dom g - {p}))"
    using card_Suc_Diff1 [of "dom g" p] i(1) domI [of g p B] p by (simp del: card_Diff_insert)
  have r: "reserved (g(p := None)) \<le> reserved g"
    using reserved_split [OF i(1) p] by simp
  show ?thesis
  proof (cases "card (dom g) = 1")
    case True
    then have "dom g - {p} = {}" using c i(1) by simp
    then have "g(p := None) = Map.empty" using d by (metis dom_eq_empty_conv)
    then show ?thesis
      using f i True inv c r by (auto simp: res_inv_def reserved_def)
  next
    case False
    then show ?thesis
      using f i inv c r d by (auto simp: res_inv_def logged_def split: if_split_asm)
  qed
qed

lemma op_step_inv: "op_step x y \<Longrightarrow> res_inv x \<Longrightarrow> res_inv y"
proof (induction rule: op_step.induct)
  case (op_cache s' s g)
  then show ?case using res_inv_more by blast
qed (blast intro: begin_step_inv write_step_inv end_step_inv)+

lemma op_steps_inv: "op_step\<^sup>*\<^sup>* x y \<Longrightarrow> res_inv x \<Longrightarrow> res_inv y"
  by (induction rule: rtranclp_induct) (auto intro: op_step_inv)


lemma end_op_live:
  assumes l: "log_live s" "v_held (view s) = {}" and c: "\<not> l_committing s"
  shows "\<exists>s'. end_op s = Ok s' \<and> log_live s' \<and> \<not> l_committing s' \<and> v_held (view s') = {}
    \<and> l_outstanding s' = l_outstanding s - 1
    \<and> (\<forall>b < l_start s. v_blk (view s') b = v_blk (view s) b)
    \<and> (if l_outstanding s = 1 then lh_n s' = 0 \<and> (\<forall>b < l_start s. v_disk (view s') b = v_blk (view s) b)
       else view s' = view s \<and> lh_n s' = lh_n s)"
proof (cases "l_outstanding s = 1")
  case False
  let ?t = "s\<lparr>l_outstanding := l_outstanding s - 1\<rparr>"
  have "log_live ?t" using l(1) by (simp add: log_live_def log_geom_def logged_def)
  then show ?thesis using False c l by (simp add: end_op_def Let_def)
next
  case True
  let ?t = "s\<lparr>l_outstanding := 0, l_committing := True\<rparr>"
  have t: "log_live ?t" "v_held (view ?t) = {}"
    using l by (simp_all add: log_live_def log_geom_def logged_def)
  show ?thesis
  proof (cases "0 < lh_n s")
    case n: True
    obtain u where u: "commit ?t = Ok u" "log_live u" "lh_n u = 0" "v_held (view u) = {}" "same_params ?t u"
        "\<forall>b < l_start s. v_blk (view u) b = v_blk (view s) b \<and> v_disk (view u) b = v_blk (view s) b"
      using commit_live [OF t] n by auto
    have "log_live (u\<lparr>l_committing := False\<rparr>)"
      using u(2) by (simp add: log_live_def log_geom_def logged_def)
    then show ?thesis using True c u by (simp add: end_op_def Let_def same_params_def)
  next
    case n: False
    then have z: "lh_n s = 0" using l(1) by (simp add: log_live_def log_geom_def)
    have "log_live (s\<lparr>l_outstanding := 0, l_committing := False\<rparr>)"
      using l(1) by (simp add: log_live_def log_geom_def logged_def)
    moreover have "v_disk (view s) b = v_blk (view s) b" if "b < l_start s" for b
      using clean_home [OF l that] z by (simp add: logged_def)
    ultimately show ?thesis using True c z l(2) by (simp add: end_op_def commit_def Let_def)
  qed
qed

section \<open>A small drive\<close>

text \<open>
  A drive with the geometry \<^verbatim>\<open>mkfs\<close> gives it, 1000 blocks of which the last 30 are the log, with
  empty blocks otherwise: the input of the concrete runs.
\<close>

definition demo_disk :: "nat \<Rightarrow> byte list" where
  "demo_disk b =
     (let z = replicate BSIZE 0
      in if b = 1 then put32 (put32 (put32 (put32 z 0 1000) 4 941) 8 200) 12 30 else z)"

lemma demo_sb: "sb_ok 970 30 demo_disk"
  by (auto simp: sb_ok_def demo_disk_def decode_sb_def Let_def BSIZE_def FSSIZE_def s32_def u32_def)

lemma demo_head: "head_n 970 demo_disk = 0" "head_ok 970 30 demo_disk"
proof -
  show n: "head_n 970 demo_disk = 0"
    by (simp add: head_n_def demo_disk_def Let_def get32_def get16_def BSIZE_def s32_def)
  then show "head_ok 970 30 demo_disk"
    using head_ok_0 by simp
qed

text \<open>Boot, begin a system call, log one block.\<close>

lemma demo_run:
  "\<exists>r s1 i s2 s3 s. initlog (reboot demo_disk) = Ok r \<and> begin_op r = Ok s1
     \<and> bread ROOTDEV 5 s1 = Ok (i, s2) \<and> log_write i (setdata i (replicate BSIZE 7) s2) = Ok s3
     \<and> brelse i s3 = Ok s \<and> log_live s \<and> v_held (view s) = {} \<and> lh_n s = 1
     \<and> l_outstanding s = 1 \<and> \<not> l_committing s \<and> l_start s = 970 \<and> l_size s = 30
     \<and> v_blk (view s) 5 = replicate BSIZE 7
     \<and> log_live s1 \<and> log_room s1 \<and> gettable (view s1) 5 \<and> l_start s1 = 970 \<and> lh_n s1 = 0"
proof -
  obtain r where r: "initlog (reboot demo_disk) = Ok r" "log_live r" "v_held (view r) = {}" "lh_n r = 0"
      "l_start r = 970" "l_size r = 30" "l_outstanding r = 0" "\<not> l_committing r"
    using reboot_initlog [OF demo_sb demo_head(2)] by blast
  let ?s = "r\<lparr>l_outstanding := 1\<rparr>"
  have b: "begin_op r = Ok ?s"
    using r by (simp add: begin_op_def MAXOPBLOCKS_def LOGSIZE_def)
  have s: "log_live ?s" "log_room ?s" "gettable (view ?s) 5" "l_start ?s = 970" "lh_n ?s = 0"
    using r by (simp_all add: log_live_def log_geom_def logged_def log_room_def gettable_def
        NBUF_def MAXOPBLOCKS_def FSSIZE_def)
  have "logged ?s = []" using r by (simp add: logged_def)
  then obtain i s1 s2 s3 where "bread ROOTDEV 5 ?s = Ok (i, s1)"
      "log_write i (setdata i (replicate BSIZE 7) s1) = Ok s2" "brelse i s2 = Ok s3" "log_live s3"
      "view s3 = (view ?s)\<lparr>v_blk := (v_blk (view ?s))(5 := replicate BSIZE 7), v_pinned := insert 5 (v_pinned (view ?s))\<rparr>"
      "lh_n s3 = 1" "same_params ?s s3"
    using log_update [OF s(1-3), of "replicate BSIZE 7"] s(4,5) by auto
  then show ?thesis
    using r b s by (intro exI conjI) (assumption | simp add: same_params_def)+
qed


lemma demo_logged:
  "\<exists>s :: lstate. log_live s \<and> v_held (view s) = {} \<and> lh_n s = 1 \<and> l_outstanding s = 1 \<and> \<not> l_committing s
     \<and> l_start s = 970 \<and> v_blk (view s) 5 = replicate BSIZE 7"
proof -
  obtain i and s3 s :: lstate where "brelse i s3 = Ok s" "log_live s" "v_held (view s) = {}" "lh_n s = 1"
      "l_outstanding s = 1" "\<not> l_committing s" "l_start s = 970" "v_blk (view s) 5 = replicate BSIZE 7"
    using demo_run by (elim exE conjE) (rule that)
  then show ?thesis by (intro exI [of _ s] conjI) assumption+
qed

lemma demo_open:
  "\<exists>s :: lstate. log_live s \<and> log_room s \<and> gettable (view s) 5 \<and> l_start s = 970 \<and> lh_n s = 0"
proof -
  obtain i and s1 s2 :: lstate where "bread ROOTDEV 5 s1 = Ok (i, s2)" "log_live s1" "log_room s1" "gettable (view s1) 5"
      "l_start s1 = 970" "lh_n s1 = 0"
    using demo_run by (elim exE conjE) (rule that)
  then show ?thesis by (intro exI [of _ s1] conjI) assumption+
qed

section \<open>Properties\<close>

text \<open>
  C1: a commit is atomic under crashes.  Take a transaction in memory (\<open>log_live\<close>, at least one
  block logged, no buffer held).  \<^verbatim>\<open>commit\<close> returns and leaves the new contents on every home block of
  the drive; its block writes are some sequence \<open>tr\<close>; and if the machine stops after the first \<open>k\<close> of
  them, for any \<open>k\<close>, booting from that drive succeeds and finds on all home blocks the old contents (as
  long as the header was not yet written, that is \<open>k \<le> n\<close>) or on all of them the new contents.
\<close>

theorem commit_crash_atomic:
  assumes "log_live s" and "v_held (view s) = {}" and "0 < lh_n s"
  shows "\<exists>s' tr. commit s = Ok s' \<and> v_trace (view s') = v_trace (view s) @ tr
    \<and> (\<forall>b < l_start s. v_disk (view s') b = v_blk (view s) b)
    \<and> (\<forall>k. \<exists>r. initlog (reboot (writes (take k tr) (v_disk (view s)))) = Ok r
         \<and> (\<forall>b < l_start s. v_blk (view r) b =
              (if k \<le> nat (lh_n s) then v_disk (view s) b else v_blk (view s) b)))"
proof -
  let ?D = "v_disk (view s)" and ?tr = "commit_trace s (v_blk (view s))"
  have "\<exists>r. initlog (reboot (writes (take k ?tr) ?D)) = Ok r
      \<and> (\<forall>b < l_start s. v_blk (view r) b = (if k \<le> nat (lh_n s) then ?D b else v_blk (view s) b))" for k
  proof -
    have sb: "sb_ok (l_start s) (l_size s) (writes (take k ?tr) ?D)"
      using assms(1) commit_trace_blocks [OF assms(1)]
      by (intro sb_ok_writes) (auto simp: log_live_def dest: in_set_takeD)
    note c = commit_crash [OF assms(1,2), of k]
    obtain r where "initlog (reboot (writes (take k ?tr) ?D)) = Ok r"
        "\<forall>b < l_start s. v_blk (view r) b = recovered (l_start s) (writes (take k ?tr) ?D) b"
      using reboot_initlog [OF sb conjunct1 [OF c]] by blast
    then show ?thesis using c by simp
  qed
  then show ?thesis
    using commit_live [OF assms] by blast
qed

theorem commit_crash_atomic_witness:
  "\<exists>s :: lstate. log_live s \<and> v_held (view s) = {} \<and> lh_n s = 1 \<and> l_start s = 970
     \<and> v_blk (view s) 5 = replicate BSIZE 7
     \<and> (\<exists>s' tr. commit s = Ok s' \<and> v_trace (view s') = v_trace (view s) @ tr
          \<and> (\<forall>k. \<exists>r. initlog (reboot (writes (take k tr) (v_disk (view s)))) = Ok r
               \<and> v_blk (view r) 5 = (if k \<le> 1 then v_disk (view s) 5 else replicate BSIZE 7)))"
proof -
  obtain s :: lstate where s: "log_live s" "v_held (view s) = {}" "lh_n s = 1" "l_start s = 970"
      "v_blk (view s) 5 = replicate BSIZE 7"
    using demo_logged by (elim exE conjE) (rule that)
  have n: "0 < lh_n s" using s(3) by simp
  obtain s' tr where c: "commit s = Ok s'" "v_trace (view s') = v_trace (view s) @ tr"
      "\<forall>k. \<exists>r. initlog (reboot (writes (take k tr) (v_disk (view s)))) = Ok r
         \<and> (\<forall>b < l_start s. v_blk (view r) b =
              (if k \<le> nat (lh_n s) then v_disk (view s) b else v_blk (view s) b))"
    using commit_crash_atomic [OF s(1,2) n] by (elim exE conjE) (rule that)
  have "\<exists>r. initlog (reboot (writes (take k tr) (v_disk (view s)))) = Ok r
      \<and> v_blk (view r) 5 = (if k \<le> 1 then v_disk (view s) 5 else replicate BSIZE 7)" for k
    using c(3) [rule_format, of k] s(3-5) by auto
  then show ?thesis using s c(1,2) by blast
qed

text \<open>
  C5: recovery may itself be interrupted any number of times.  On a drive whose super block and log
  header are well formed, \<^verbatim>\<open>initlog\<close> returns with an empty log; and if it is cut short after any number
  \<open>k\<close> of its block writes, the next boot succeeds and gives every home block the same contents.
\<close>

theorem recovery_crash_safe:
  assumes "sb_ok start nlog D" and "head_ok start nlog D"
  shows "\<exists>r. initlog (reboot D) = Ok r \<and> lh_n r = 0 \<and> head_n start (v_disk (view r)) = 0
    \<and> (\<forall>b < start. v_blk (view r) b = recovered start D b)
    \<and> (\<forall>k. \<exists>r'. initlog (reboot (writes (take k (v_trace (view r))) D)) = Ok r'
         \<and> (\<forall>b < start. v_blk (view r') b = v_blk (view r) b))"
proof -
  obtain r where r: "initlog (reboot D) = Ok r" "log_live r" "lh_n r = 0" "l_start r = start"
      "v_trace (view r) = recover_trace start D" "\<forall>b < start. v_blk (view r) b = recovered start D b"
    using reboot_initlog [OF assms] by blast
  have "\<exists>r'. initlog (reboot (writes (take k (recover_trace start D)) D)) = Ok r'
      \<and> (\<forall>b < start. v_blk (view r') b = recovered start D b)" for k
  proof -
    note c = recover_crash [OF assms, of k]
    show ?thesis
      using reboot_initlog [OF conjunct1 [OF c] conjunct1 [OF conjunct2 [OF c]]] c by auto
  qed
  then show ?thesis
    using r by (intro exI [of _ r]) (auto simp: log_live_def)
qed

theorem recovery_crash_safe_witness:
  "sb_ok 970 30 demo_disk \<and> head_ok 970 30 demo_disk
   \<and> (\<exists>r. initlog (reboot demo_disk) = Ok r \<and> lh_n r = 0
        \<and> (\<forall>k. \<exists>r'. initlog (reboot (writes (take k (v_trace (view r))) demo_disk)) = Ok r'
             \<and> v_blk (view r') 1 = v_blk (view r) 1))"
proof -
  obtain r where "initlog (reboot demo_disk) = Ok r" "lh_n r = 0"
      "\<forall>k. \<exists>r'. initlog (reboot (writes (take k (v_trace (view r))) demo_disk)) = Ok r'
         \<and> (\<forall>b < 970. v_blk (view r') b = v_blk (view r) b)"
    using recovery_crash_safe [OF demo_sb demo_head(2)] by blast
  moreover have "(1 :: nat) < 970" by simp
  ultimately show ?thesis using demo_sb demo_head(2) by blast
qed

text \<open>
  C17: \<^verbatim>\<open>end_op\<close> commits exactly when the last system call of the transaction ends.  It never blocks or
  panics, the contents the system calls see stay the same, and afterwards either all of them are on
  the drive and the log is empty (last call) or neither the cache nor the drive has changed.
\<close>

theorem end_op_commits_last:
  assumes "log_live s" and "v_held (view s) = {}" and "\<not> l_committing s"
  shows "\<exists>s'. end_op s = Ok s' \<and> log_live s' \<and> \<not> l_committing s' \<and> l_outstanding s' = l_outstanding s - 1
    \<and> (\<forall>b < l_start s. v_blk (view s') b = v_blk (view s) b)
    \<and> (if l_outstanding s = 1 then lh_n s' = 0 \<and> (\<forall>b < l_start s. v_disk (view s') b = v_blk (view s) b)
       else view s' = view s)"
  using end_op_live [OF assms] by (elim exE) (auto split: if_split_asm)

theorem end_op_commits_last_witness:
  "\<exists>s s' :: lstate. log_live s \<and> v_held (view s) = {} \<and> \<not> l_committing s \<and> l_outstanding s = 1
     \<and> end_op s = Ok s' \<and> lh_n s' = 0 \<and> v_disk (view s') 5 = replicate BSIZE 7"
proof -
  obtain s :: lstate where s: "log_live s" "v_held (view s) = {}" "\<not> l_committing s" "l_outstanding s = 1"
      "l_start s = 970" "v_blk (view s) 5 = replicate BSIZE 7"
    using demo_logged by (elim exE conjE) (rule that)
  then show ?thesis
    using end_op_commits_last [OF s(1-3)] by (rule_tac x = s in exI) (auto simp: s)
qed

text \<open>
  C16: the documented use of the log.  A system call that reads a block, changes it, calls
  \<^verbatim>\<open>log_write\<close> and releases it succeeds while the log has room; every later read sees the new contents,
  the drive is unchanged, and the log grows only if the block was not in the transaction already.
\<close>

theorem log_write_absorbs:
  assumes "log_live s" and "log_room s" and "gettable (view s) b" and "b < l_start s" and "b \<noteq> 1"
    and "length d = BSIZE"
  shows "\<exists>i s1 s2 s3. bread ROOTDEV b s = Ok (i, s1) \<and> getdata s1 i = v_blk (view s) b
    \<and> log_write i (setdata i d s1) = Ok s2 \<and> brelse i s2 = Ok s3 \<and> log_live s3
    \<and> v_blk (view s3) = (v_blk (view s))(b := d) \<and> v_disk (view s3) = v_disk (view s)
    \<and> v_trace (view s3) = v_trace (view s) \<and> v_held (view s3) = v_held (view s)
    \<and> lh_n s3 = (if b \<in> v_pinned (view s) then lh_n s else lh_n s + 1)"
proof -
  have "v_pinned (view s) = set (logged s)" using assms(1) by (simp add: log_live_def)
  then show ?thesis using log_update [OF assms] by (elim exE) (auto simp only: bview.simps, simp_all)
qed

theorem log_write_absorbs_witness:
  "\<exists>(s :: lstate) i s1 s2 s3. log_live s \<and> log_room s \<and> gettable (view s) 5 \<and> lh_n s = 0
     \<and> bread ROOTDEV 5 s = Ok (i, s1) \<and> log_write i (setdata i (replicate BSIZE 9) s1) = Ok s2
     \<and> brelse i s2 = Ok s3 \<and> v_blk (view s3) 5 = replicate BSIZE 9"
proof -
  obtain s :: lstate where s: "log_live s" "log_room s" "gettable (view s) 5" "l_start s = 970" "lh_n s = 0"
    using demo_open by (elim exE conjE) (rule that)
  then show ?thesis
    using log_write_absorbs [OF s(1-3), of "replicate BSIZE 9"] by (rule_tac x = s in exI) (auto simp: s)
qed

text \<open>
  C18: the reservations of \<^verbatim>\<open>begin_op\<close> are enough.  Let system calls begin, log blocks and end in any
  order, each logging at most \<^const>\<open>MAXOPBLOCKS\<close> distinct blocks.  On a drive whose log has more than
  \<^const>\<open>LOGSIZE\<close> blocks, a system call that has logged fewer than \<^const>\<open>MAXOPBLOCKS\<close> blocks can log another
  one: \<^verbatim>\<open>log_write\<close> does not panic.
\<close>

theorem reservation_suffices:
  assumes "op_step\<^sup>*\<^sup>* (s0, Map.empty) (s, g)" and "lh_n s0 = 0" and "l_outstanding s0 = 0"
    and "\<not> l_committing s0" and "length (lh_block s0) = LOGSIZE"
    and "g p = Some B" and "card B < MAXOPBLOCKS" and "int LOGSIZE < l_size s"
  shows "\<exists>s'. log_write i s = Ok s'"
proof -
  have "res_inv (s0, Map.empty)"
    using assms(2-5) by (simp add: res_inv_def reserved_def)
  then have inv: "res_inv (s, g)" using op_steps_inv assms(1) by blast
  then have "finite (dom g)" by (simp add: res_inv_def)
  then have "reserved g > 0"
    using reserved_split [of g p B] assms(6,7) by simp
  moreover have "l_outstanding s \<ge> 1"
    using inv assms(6) card_gt_0_iff [of "dom g"] by (auto simp: res_inv_def)
  ultimately show ?thesis
    using inv assms(6,8) by (auto simp: log_write_def res_inv_def Let_def)
qed

theorem reservation_suffices_witness:
  "\<exists>s s'. op_step\<^sup>*\<^sup>* ((reboot demo_disk)\<lparr>lh_n := 0, l_size := 31\<rparr>, Map.empty) (s, [3 \<mapsto> {}])
     \<and> log_write 0 s = Ok s'"
proof -
  let ?s = "(reboot demo_disk)\<lparr>lh_n := 0, l_size := 31\<rparr>"
  have "begin_op ?s = Ok (?s\<lparr>l_outstanding := 1\<rparr>)"
    by (simp add: begin_op_def reboot_log MAXOPBLOCKS_def LOGSIZE_def)
  then have "op_step\<^sup>*\<^sup>* (?s, Map.empty) (?s\<lparr>l_outstanding := 1\<rparr>, [3 \<mapsto> {}])"
    by (intro r_into_rtranclp op_begin) auto
  then show ?thesis
    using reservation_suffices [of ?s "?s\<lparr>l_outstanding := 1\<rparr>" "[3 \<mapsto> {}]" 3 "{}" 0]
    by (auto simp: reboot_log MAXOPBLOCKS_def LOGSIZE_def)
qed

text \<open>How the functions of \<^verbatim>\<open>fs.c\<close> change a block: read it, change the buffer, log it, release it.\<close>

definition log_block :: "(nat \<Rightarrow> byte list) \<Rightarrow> nat \<Rightarrow> 'z lstate_scheme \<Rightarrow> 'z lstate_scheme res" where
  "log_block new b s =
     rbind (bread ROOTDEV b s) (\<lambda>(i, s). rbind (log_write i (setdata i (new b) s)) (brelse i))"

text \<open>A transaction can grow up to one block less than the log has blocks and the cache has buffers.\<close>

lemma log_blocks:
  assumes "log_live s" and "v_held (view s) = {}" and "1 \<le> l_outstanding s"
    and "distinct (logged s @ bs)" and "\<forall>b\<in>set bs. b < l_start s \<and> b \<noteq> 1"
    and "int (length (logged s @ bs)) < l_size s" and "length (logged s @ bs) < NBUF"
    and "\<forall>b. length (new b) = BSIZE"
  shows "\<exists>s'. for_each (log_block new) bs s = Ok s' \<and> log_live s' \<and> v_held (view s') = {}
    \<and> logged s' = logged s @ bs \<and> same_params s s'"
  using assms
proof (induction bs arbitrary: s)
  case Nil
  then show ?case by (simp add: same_params_def)
next
  case (Cons b bs)
  have g: "log_geom s" "v_pinned (view s) = set (logged s)" using Cons.prems(1) by (auto simp: log_live_def)
  have n: "lh_n s = int (length (logged s))" using geomD(4,9) [OF g(1)] by simp
  have "log_room s" using Cons.prems(3,6,7) n by (simp add: log_room_def)
  moreover have "gettable (view s) b"
    using Cons.prems(2,4,5,7) geomD(8) [OF g(1)] g(2) by (auto simp: gettable_def distinct_card)
  ultimately obtain i s1 s2 s3 where st: "bread ROOTDEV b s = Ok (i, s1)" "log_write i (setdata i (new b) s1) = Ok s2"
      "brelse i s2 = Ok s3" "log_live s3" "v_held (view s3) = {}" "logged s3 = logged s @ [b]" "same_params s s3"
    using log_update [of s b "new b"] Cons.prems by auto
  then have "log_block new b s = Ok s3" by (simp add: log_block_def)
  moreover have "\<exists>s'. for_each (log_block new) bs s3 = Ok s' \<and> log_live s' \<and> v_held (view s') = {}
      \<and> logged s' = logged s3 @ bs \<and> same_params s3 s'"
    using st Cons.prems by (intro Cons.IH) (auto simp: same_params_def)
  ultimately show ?case using st(6,7) by (auto simp: same_params_def)
qed

text \<open>
  C35: the log \<^verbatim>\<open>mkfs\<close> makes is one block short of what \<^verbatim>\<open>begin_op\<close> promises.  Boot from any drive with the super block
  \<^verbatim>\<open>mkfs\<close> writes and an empty log.  Three system calls are admitted at once, which reserves \<^const>\<open>LOGSIZE\<close> blocks, \<^const>\<open>MAXOPBLOCKS\<close> for each.
  Whichever distinct home blocks they change, the first \<open>LOGSIZE - 1\<close> are logged, and the last block of the reservation makes
  \<^verbatim>\<open>log_write\<close> panic.
\<close>

theorem mkfs_log_one_short:
  assumes "decode_sb (D 1) = mkfs_sb" and "\<forall>b < FSSIZE. length (D b) = BSIZE" and "head_n 970 D = 0"
    and "\<forall>b. length (new b) = BSIZE"
  shows "\<exists>r s1 s2 s3. initlog (reboot D) = Ok r \<and> begin_op r = Ok s1 \<and> begin_op s1 = Ok s2 \<and> begin_op s2 = Ok s3
    \<and> 3 * MAXOPBLOCKS = LOGSIZE
    \<and> (\<forall>bs b. distinct (bs @ [b]) \<and> Suc (length bs) = LOGSIZE \<and> (\<forall>c\<in>set (bs @ [b]). 1 < c \<and> c < 970) \<longrightarrow>
         (\<exists>s i s'. for_each (log_block new) bs s3 = Ok s \<and> bread ROOTDEV b s = Ok (i, s')
            \<and> log_write i (setdata i (new b) s') = Panic ''too big a transaction''))"
proof -
  have sb: "sb_ok 970 30 D"
    using assms(1,2) by (simp add: sb_ok_def mkfs_sb_def mkfs_nlog_def Let_def LOGSIZE_def MAXOPBLOCKS_def FSSIZE_def u32_def s32_def)
  then obtain r where r: "initlog (reboot D) = Ok r" "log_live r" "v_held (view r) = {}" "lh_n r = 0"
      "l_start r = 970" "l_size r = 30" "l_outstanding r = 0" "\<not> l_committing r"
    using reboot_initlog [OF sb] head_ok_0 [OF assms(3), of 30] by auto
  let ?s = "\<lambda>n. r\<lparr>l_outstanding := n\<rparr>"
  have b: "begin_op r = Ok (?s 1)" "begin_op (?s 1) = Ok (?s 2)" "begin_op (?s 2) = Ok (?s 3)"
    using r by (simp_all add: begin_op_def MAXOPBLOCKS_def LOGSIZE_def)
  have s3: "log_live (?s 3)" "v_held (view (?s 3)) = {}" "logged (?s 3) = []"
    using r by (simp_all add: log_live_def log_geom_def logged_def)
  have "\<exists>s i s'. for_each (log_block new) bs (?s 3) = Ok s \<and> bread ROOTDEV b s = Ok (i, s')
      \<and> log_write i (setdata i (new b) s') = Panic ''too big a transaction''"
    if "distinct (bs @ [b])" "Suc (length bs) = LOGSIZE" "\<forall>c\<in>set (bs @ [b]). 1 < c \<and> c < 970" for bs b
  proof -
    have "\<exists>s. for_each (log_block new) bs (?s 3) = Ok s \<and> log_live s \<and> v_held (view s) = {}
        \<and> logged s = logged (?s 3) @ bs \<and> same_params (?s 3) s"
      using that s3 r assms(4) by (intro log_blocks) (auto simp: LOGSIZE_def NBUF_def MAXOPBLOCKS_def)
    then obtain s where s: "for_each (log_block new) bs (?s 3) = Ok s" "log_live s" "v_held (view s) = {}"
        "logged s = bs" "same_params (?s 3) s" using s3(3) by auto
    have g: "bc_inv s" "log_geom s" "v_pinned (view s) = set bs" using s(2,4) by (auto simp: log_live_def)
    have "gettable (view s) b"
      using that s(3) g(3) card_length [of bs] by (auto simp: gettable_def FSSIZE_def LOGSIZE_def NBUF_def MAXOPBLOCKS_def)
    then obtain i s' where i: "bread ROOTDEV b s = Ok (i, s')" "bstate.more s' = bstate.more s"
      using bc.bread_law [OF g(1)] by blast
    have "lh_n s = int (length bs)" using geomD(4,9) [OF g(2)] s(4) by simp
    moreover have "int LOGSIZE = int (length bs) + 1" using that(2) by simp
    ultimately have "lh_n s' = int LOGSIZE - 1" "l_size s' = 30"
      using same_log [OF i(2)] s(5) r(6) by (simp_all add: same_params_def)
    then have "log_write i (setdata i (new b) s') = Panic ''too big a transaction''"
      by (simp add: log_write_def setdata_def setbuf_def LOGSIZE_def MAXOPBLOCKS_def)
    with s(1) i(1) show ?thesis by blast
  qed
  with r(1) b show ?thesis
    by (intro exI conjI) (assumption | simp add: LOGSIZE_def MAXOPBLOCKS_def | blast)+
qed

lemma mkfs_sb_eq: "mkfs_sb = \<lparr>sb_size = 1000, sb_nblocks = 941, sb_ninodes = 200, sb_nlog = 30\<rparr>"
  by (simp add: mkfs_sb_def mkfs_nlog_def mkfs_ninodeblocks_def mkfs_nbitmap_def NINODES_def IPB_def DINODE_SIZE_def NDIRECT_def Let_def
      LOGSIZE_def MAXOPBLOCKS_def FSSIZE_def BSIZE_def)

lemma mkfs_disk_ok: "decode_sb (mkfs_disk 1) = mkfs_sb" "length (mkfs_disk b) = BSIZE" "head_n 970 mkfs_disk = 0"
proof -
  show "decode_sb (mkfs_disk 1) = mkfs_sb"
    by (simp add: mkfs_disk_def mkfs_sb_eq decode_sb_def Let_def BSIZE_def u32_def)
  show "length (mkfs_disk b) = BSIZE" by (simp add: mkfs_disk_def Let_def)
  show "head_n 970 mkfs_disk = 0"
    by (simp add: head_n_def mkfs_disk_def Let_def get32_def get16_def BSIZE_def s32_def)
qed

theorem mkfs_log_one_short_witness:
  "\<exists>r s1 s2 s3 s i s'. initlog (reboot mkfs_disk) = Ok r \<and> begin_op r = Ok s1 \<and> begin_op s1 = Ok s2 \<and> begin_op s2 = Ok s3
     \<and> for_each (log_block (\<lambda>_. replicate BSIZE 7)) [40..<69] s3 = Ok s \<and> bread ROOTDEV 69 s = Ok (i, s')
     \<and> log_write i (setdata i (replicate BSIZE 7) s') = Panic ''too big a transaction''"
proof -
  let ?new = "\<lambda>_ :: nat. replicate BSIZE (7 :: byte)"
  have l: "\<forall>b. length (?new b) = BSIZE" "\<forall>b < FSSIZE. length (mkfs_disk b) = BSIZE" using mkfs_disk_ok(2) by simp_all
  from mkfs_log_one_short [OF mkfs_disk_ok(1) l(2) mkfs_disk_ok(3) l(1)] obtain r s1 s2 s3 where
    r: "initlog (reboot mkfs_disk) = Ok r" "begin_op r = Ok s1" "begin_op s1 = Ok s2" "begin_op s2 = Ok s3"
    and p: "\<forall>bs b. distinct (bs @ [b]) \<and> Suc (length bs) = LOGSIZE \<and> (\<forall>c\<in>set (bs @ [b]). 1 < c \<and> c < 970) \<longrightarrow>
         (\<exists>s i s'. for_each (log_block ?new) bs s3 = Ok s \<and> bread ROOTDEV b s = Ok (i, s')
            \<and> log_write i (setdata i (?new b) s') = Panic ''too big a transaction'')"
    by (elim exE conjE)
  have "distinct ([40..<69] @ [69 :: nat]) \<and> Suc (length [40..<69 :: nat]) = LOGSIZE \<and> (\<forall>c\<in>set ([40..<69] @ [69 :: nat]). 1 < c \<and> c < 970)"
    by (auto simp: LOGSIZE_def MAXOPBLOCKS_def)
  with p obtain s i s' where "for_each (log_block ?new) [40..<69] s3 = Ok s" "bread ROOTDEV 69 s = Ok (i, s')"
      "log_write i (setdata i (?new 69) s') = Panic ''too big a transaction''"
    by blast
  with r show ?thesis by blast
qed

end
