(* ===== verification/Fs_Block.thy ===== *)
theory Fs_Block
  imports Log
begin

text \<open>
  The block level of \<^verbatim>\<open>kernel/fs.c\<close>: \<^verbatim>\<open>bzero\<close>, \<^verbatim>\<open>balloc\<close>, \<^verbatim>\<open>bfree\<close> and the inode records inside a block.
  The first part is the code, the second the rules for code that runs inside a transaction (\<open>txn\<close>),
  the third what the allocator does to the free bitmap.
\<close>

section \<open>The code\<close>

definition bzero :: "nat \<Rightarrow> nat \<Rightarrow> 'z lstate_scheme \<Rightarrow> 'z lstate_scheme res" where
  "bzero dev bno s =
     rbind (bread dev bno s) (\<lambda>(bp, s).
     rbind (log_write bp (setdata bp (replicate BSIZE 0) s)) (brelse bp))"

text \<open>Bit \<open>bi\<close> of a bitmap block: \<^verbatim>\<open>data[bi/8] & (1 << (bi % 8))\<close>.\<close>

definition bit_used :: "byte list \<Rightarrow> nat \<Rightarrow> bool" where
  "bit_used d bi \<longleftrightarrow> bit (d ! (bi div 8)) (bi mod 8)"

definition set_used :: "byte list \<Rightarrow> nat \<Rightarrow> byte list" where
  "set_used d bi = d[bi div 8 := set_bit (bi mod 8) (d ! (bi div 8))]"

definition clear_used :: "byte list \<Rightarrow> nat \<Rightarrow> byte list" where
  "clear_used d bi = d[bi div 8 := unset_bit (bi mod 8) (d ! (bi div 8))]"

text \<open>The outer loop of \<^verbatim>\<open>balloc\<close>, over the first block of each bitmap block; the inner one is the search.\<close>

fun balloc_loop :: "nat \<Rightarrow> superblock \<Rightarrow> nat list \<Rightarrow> 'z lstate_scheme \<Rightarrow> (nat \<times> 'z lstate_scheme) res" where
  "balloc_loop dev sb [] s = Panic ''balloc: out of blocks''"
| "balloc_loop dev sb (b # bs) s =
     rbind (bread dev (BBLOCK b (sb_ninodes sb)) s) (\<lambda>(bp, s).
     case List.find (\<lambda>bi. b + bi < sb_size sb \<and> \<not> bit_used (getdata s bp) bi) [0..<BPB] of
       Some bi \<Rightarrow>
         rbind (log_write bp (setdata bp (set_used (getdata s bp) bi) s)) (\<lambda>s.
         rbind (brelse bp s) (\<lambda>s.
         rbind (bzero dev (b + bi) s) (\<lambda>s. Ok (b + bi, s))))
     | None \<Rightarrow> rbind (brelse bp s) (balloc_loop dev sb bs))"

definition balloc :: "nat \<Rightarrow> 'z lstate_scheme \<Rightarrow> (nat \<times> 'z lstate_scheme) res" where
  "balloc dev s =
     rbind (readsb dev s) (\<lambda>(sb, s).
     balloc_loop dev sb (map (\<lambda>k. k * BPB) [0..<(sb_size sb + BPB - 1) div BPB]) s)"

definition bfree :: "nat \<Rightarrow> nat \<Rightarrow> 'z lstate_scheme \<Rightarrow> 'z lstate_scheme res" where
  "bfree dev b s =
     rbind (readsb dev s) (\<lambda>(sb, s).
     rbind (bread dev (BBLOCK b (sb_ninodes sb)) s) (\<lambda>(bp, s).
     let bi = b mod BPB
     in if \<not> bit_used (getdata s bp) bi then Panic ''freeing free block''
        else rbind (log_write bp (setdata bp (clear_used (getdata s bp) bi) s)) (brelse bp)))"

text \<open>\<^verbatim>\<open>struct dinode\<close>, and its position \<^verbatim>\<open>(struct dinode*)bp->data + inum%IPB\<close> in a block.\<close>

record dinode =
  d_type :: int
  d_major :: int
  d_minor :: int
  d_nlink :: int
  d_ownerid :: int
  d_groupid :: int
  d_mode :: nat
  d_size :: nat
  d_addrs :: "nat list"

definition get_dinode :: "byte list \<Rightarrow> nat \<Rightarrow> dinode" where
  "get_dinode d inum =
     (let o' = (inum mod IPB) * DINODE_SIZE
      in \<lparr>d_type = s16 (get16 d o'), d_major = s16 (get16 d (o' + 2)), d_minor = s16 (get16 d (o' + 4)),
          d_nlink = s16 (get16 d (o' + 6)), d_ownerid = s16 (get16 d (o' + 8)),
          d_groupid = s16 (get16 d (o' + 10)), d_mode = get32 d (o' + 12), d_size = get32 d (o' + 16),
          d_addrs = map (\<lambda>k. get32 d (o' + 20 + 4 * k)) [0..<NDIRECT + 1]\<rparr>)"

definition u16 :: "int \<Rightarrow> nat" where "u16 x = nat (x mod 2 ^ 16)"

definition put_addrs :: "nat \<Rightarrow> nat list \<Rightarrow> byte list \<Rightarrow> byte list" where
  "put_addrs o' as d = fold (\<lambda>k d. put32 d (o' + 20 + 4 * k) (as ! k)) [0..<NDIRECT + 1] d"

text \<open>All the fields at once (\<^verbatim>\<open>memset\<close> and then \<^verbatim>\<open>type\<close>, in \<^verbatim>\<open>ialloc\<close>).\<close>

definition zero_dinode :: "nat \<Rightarrow> int \<Rightarrow> byte list \<Rightarrow> byte list" where
  "zero_dinode inum type d =
     (let o' = (inum mod IPB) * DINODE_SIZE in put16 (splice d o' (replicate DINODE_SIZE 0)) o' (u16 type))"


section \<open>Code inside a transaction\<close>

text \<open>
  \<open>txn B r s\<close>: a system call is inside a transaction and can, with the buffers it holds, log the blocks
  of \<open>B\<close> and \<open>r\<close> others (\<^verbatim>\<open>log_write\<close> wants one more slot, even for a block it will absorb).
  \<open>txn_step s s' M\<close>: between the two states the contents became \<open>M\<close>, and nothing else of what the cache
  and the log show has changed.
\<close>

definition txn :: "nat set \<Rightarrow> nat \<Rightarrow> 'z lstate_scheme \<Rightarrow> bool" where
  "txn B r s \<longleftrightarrow> log_live s \<and> 1 \<le> l_outstanding s \<and> finite B
     \<and> int (card (set (logged s) \<union> B) + r + 1) < l_size s
     \<and> card (set (logged s) \<union> B) + r + 1 + card (v_held (view s)) < NBUF"

definition txn_step :: "'z lstate_scheme \<Rightarrow> 'z lstate_scheme \<Rightarrow> (nat \<Rightarrow> byte list) \<Rightarrow> bool" where
  "txn_step s s' M \<longleftrightarrow> v_blk (view s') = M \<and> v_disk (view s') = v_disk (view s)
     \<and> v_held (view s') = v_held (view s) \<and> v_trace (view s') = v_trace (view s)
     \<and> v_pinned (view s) \<subseteq> v_pinned (view s')
     \<and> same_params s s' \<and> (\<forall>j c. holds s j c \<longrightarrow> holds s' j c)"

lemma txn_step_refl [simp]: "txn_step s s (v_blk (view s))"
  by (simp add: txn_step_def same_params_def)

lemma txn_step_trans: "txn_step s t M \<Longrightarrow> txn_step t u M' \<Longrightarrow> txn_step s u M'"
  by (auto simp: txn_step_def same_params_def)

lemma txn_stepD:
  assumes "txn_step s s' M"
  shows "v_blk (view s') = M" "v_held (view s') = v_held (view s)" "l_start s' = l_start s"
    "l_size s' = l_size s" "lstate.more s' = lstate.more s" "holds s j c \<Longrightarrow> holds s' j c"
    "v_disk (view s') = v_disk (view s)" "v_pinned (view s) \<subseteq> v_pinned (view s')"
  using assms by (auto simp: txn_step_def same_params_def)

lemma txn_step_clean:
  "txn_step s s' M \<Longrightarrow> b \<in> v_pinned (view s) \<or> v_blk (view s) b = v_disk (view s) b \<Longrightarrow> M b = v_blk (view s) b \<Longrightarrow>
   b \<in> v_pinned (view s') \<or> v_blk (view s') b = v_disk (view s') b"
  by (auto simp: txn_step_def)

lemma txn_mono:
  assumes "txn B r s" and "q \<le> r" and "A \<subseteq> B"
  shows "txn A q s"
proof -
  have "finite (set (logged s) \<union> B)" "finite A" using assms by (auto simp: txn_def intro: finite_subset)
  moreover from this have "card (set (logged s) \<union> A) \<le> card (set (logged s) \<union> B)"
    using assms(3) by (intro card_mono) auto
  ultimately show ?thesis using assms(1,2) by (auto simp: txn_def)
qed

lemma txnD:
  assumes "txn B r s"
  shows "log_live s" "bc_inv s" "l_start s < FSSIZE" "1 < l_start s"
  using assms geomD(2,8) [of s] by (auto simp: txn_def log_live_def)

lemma txn_size: "txn B r s \<Longrightarrow> b < FSSIZE \<Longrightarrow> length (v_blk (view s) b) = BSIZE"
  using bc.size_law txnD(2) by blast

lemma txn_lh_n:
  assumes "txn B r s"
  shows "nat (lh_n s) = card (set (logged s))" "card (set (logged s)) \<le> card (set (logged s) \<union> B)" "0 \<le> lh_n s"
proof -
  have g: "log_geom s" using txnD(1) [OF assms] by (simp add: log_live_def)
  then show "nat (lh_n s) = card (set (logged s))" "0 \<le> lh_n s"
    using geomD(4) [OF g] by (auto simp: log_geom_def distinct_card)
  show "card (set (logged s)) \<le> card (set (logged s) \<union> B)"
    using assms by (intro card_mono) (auto simp: txn_def)
qed

lemma txn_gettable:
  assumes "txn B r s" and "b < FSSIZE" and "b \<notin> v_held (view s)"
  shows "gettable (view s) b"
proof -
  have "card (v_pinned (view s) \<union> v_held (view s)) \<le> card (set (logged s)) + card (v_held (view s))"
    using card_Un_le [of "v_pinned (view s)" "v_held (view s)"] txnD(1) [OF assms(1)] by (simp add: log_live_def)
  then show ?thesis
    using assms txn_lh_n(2) [OF assms(1)] by (simp add: gettable_def txn_def)
qed

lemma txn_read:
  assumes "txn B r s" and "b < FSSIZE" and "b \<notin> v_held (view s)"
  shows "\<exists>i s1 s2. bread ROOTDEV b s = Ok (i, s1) \<and> getdata s1 i = v_blk (view s) b
    \<and> brelse i s1 = Ok s2 \<and> txn B r s2 \<and> txn_step s s2 (v_blk (view s)) \<and> bstate.more s1 = bstate.more s"
proof -
  obtain i s1 s2 where s2: "bread ROOTDEV b s = Ok (i, s1)" "getdata s1 i = v_blk (view s) b"
      "brelse i s1 = Ok s2" "bc_inv s2" "view s2 = view s" "bstate.more s2 = bstate.more s"
      "\<forall>j c. holds s j c \<longrightarrow> holds s2 j c" "bstate.more s1 = bstate.more s"
    using bc.bread_brelse [OF txnD(2) [OF assms(1)] txn_gettable [OF assms]] by blast
  note f = same_log [OF s2(6)]
  have "log_live s2" "logged s2 = logged s"
    using log_live_cong [OF txnD(1) [OF assms(1)] s2(4,6)] s2(5) f by (simp_all add: logged_def)
  then show ?thesis
    using s2 f assms(1) by (auto simp: txn_def txn_step_def same_params_def)
qed

lemma txn_update:
  assumes t: "txn B r s" and b: "b < l_start s" "b \<noteq> 1" "b \<notin> v_held (view s)" "b \<in> B \<or> 0 < r"
    and d: "length d = BSIZE"
  shows "\<exists>i s1 s2 s3. bread ROOTDEV b s = Ok (i, s1) \<and> getdata s1 i = v_blk (view s) b
    \<and> log_write i (setdata i d s1) = Ok s2 \<and> brelse i s2 = Ok s3
    \<and> txn (insert b B) (if b \<in> B then r else r - 1) s3
    \<and> txn_step s s3 ((v_blk (view s))(b := d)) \<and> bstate.more s1 = bstate.more s"
proof -
  have g: "gettable (view s) b"
    using txn_gettable [OF t] b txnD(3) [OF t] by simp
  have room: "log_room s" using t txn_lh_n [OF t] by (auto simp: txn_def log_room_def)
  obtain i s1 s2 s3 where s3: "bread ROOTDEV b s = Ok (i, s1)" "getdata s1 i = v_blk (view s) b"
      "log_write i (setdata i d s1) = Ok s2" "brelse i s2 = Ok s3" "log_live s3"
      "view s3 = (view s)\<lparr>v_blk := (v_blk (view s))(b := d), v_pinned := insert b (v_pinned (view s))\<rparr>"
      "\<forall>j c. holds s j c \<longrightarrow> holds s3 j c"
      "logged s3 = (if b \<in> set (logged s) then logged s else logged s @ [b])" "same_params s s3"
    using log_update [OF txnD(1) [OF t] room g b(1,2) d] by blast
  have "set (logged s3) \<union> insert b B = insert b (set (logged s) \<union> B)"
    using s3(8) by auto
  then have "card (set (logged s3) \<union> insert b B) + (if b \<in> B then r else r - 1) \<le> card (set (logged s) \<union> B) + r"
    using t b(4) by (auto simp: txn_def card_insert_if insert_absorb)
  moreover have "bstate.more s1 = bstate.more s" using s3(1) bread_more by blast
  moreover have "txn_step s s3 ((v_blk (view s))(b := d))"
    using s3(6,7,9) by (auto simp: txn_step_def)
  moreover have "txn (insert b B) (if b \<in> B then r else r - 1) s3"
  proof -
    have p: "l_outstanding s3 = l_outstanding s" "l_size s3 = l_size s" using s3(9) by (simp_all add: same_params_def)
    have h: "v_held (view s3) = v_held (view s)" using s3(6) by simp
    show ?thesis unfolding txn_def p h using t calculation(1) s3(5) by (auto simp: txn_def)
  qed
  ultimately show ?thesis using s3(1-4) by blast
qed

section \<open>The free bitmap\<close>

lemma length_used [simp]: "length (set_used d i) = length d" "length (clear_used d i) = length d"
  by (simp_all add: set_used_def clear_used_def)

lemma bit_set_used [simp]:
  assumes "i < 8 * length d"
  shows "bit_used (set_used d i) j \<longleftrightarrow> j = i \<or> bit_used d j"
proof -
  have "j div 8 = i div 8 \<Longrightarrow> j mod 8 = i mod 8 \<Longrightarrow> j = i"
    using div_mult_mod_eq [of i 8] div_mult_mod_eq [of j 8] by simp
  moreover have "bit (set_bit (i mod 8) w) (j mod 8) \<longleftrightarrow> j mod 8 = i mod 8 \<or> bit w (j mod 8)" for w :: byte
    by (auto simp: bit_set_bit_iff)
  ultimately show ?thesis
    using assms by (cases "j div 8 = i div 8") (auto simp: bit_used_def set_used_def)
qed

lemma bit_clear_used [simp]:
  assumes "i < 8 * length d"
  shows "bit_used (clear_used d i) j \<longleftrightarrow> j \<noteq> i \<and> bit_used d j"
proof -
  have "j div 8 = i div 8 \<Longrightarrow> j mod 8 = i mod 8 \<Longrightarrow> j = i"
    using div_mult_mod_eq [of i 8] div_mult_mod_eq [of j 8] by simp
  moreover have "bit (unset_bit (i mod 8) w) (j mod 8) \<longleftrightarrow> j mod 8 \<noteq> i mod 8 \<and> bit w (j mod 8)" for w :: byte
    by (auto simp: bit_unset_bit_iff)
  ultimately show ?thesis
    using assms by (cases "j div 8 = i div 8") (auto simp: bit_used_def clear_used_def)
qed

lemma clear_set_used:
  assumes "\<not> bit_used d i" and "i < 8 * length d"
  shows "clear_used (set_used d i) i = d"
proof -
  have "unset_bit (i mod 8) (set_bit (i mod 8) (d ! (i div 8))) = d ! (i div 8)"
    using assms(1) by (intro bit_eqI) (auto simp: bit_used_def bit_set_bit_iff bit_unset_bit_iff)
  then show ?thesis
    using assms(2) by (simp add: clear_used_def set_used_def)
qed

text \<open>
  The bitmap as the file system lays it out: one block, since the drive has at most \<^const>\<open>FSSIZE\<close>
  blocks, in which the blocks up to the bitmap itself and those of the log are marked.
\<close>

definition bitmap_block :: "(nat \<Rightarrow> byte list) \<Rightarrow> nat" where
  "bitmap_block M = sb_ninodes (decode_sb (M 1)) div IPB + 3"

definition used :: "(nat \<Rightarrow> byte list) \<Rightarrow> nat \<Rightarrow> bool" where
  "used M b \<longleftrightarrow> bit_used (M (bitmap_block M)) b"

definition fs_meta :: "nat \<Rightarrow> (nat \<Rightarrow> byte list) \<Rightarrow> bool" where
  "fs_meta start M \<longleftrightarrow> (let size = sb_size (decode_sb (M 1)) in
     start < size \<and> size \<le> FSSIZE \<and> bitmap_block M < start
     \<and> (\<forall>b < size. b \<le> bitmap_block M \<or> start \<le> b \<longrightarrow> used M b))"

lemma fs_metaD:
  assumes "fs_meta start M"
  shows "start < sb_size (decode_sb (M 1))" "sb_size (decode_sb (M 1)) \<le> FSSIZE" "bitmap_block M < start"
    "1 < bitmap_block M"
    "b < sb_size (decode_sb (M 1)) \<Longrightarrow> \<not> used M b \<Longrightarrow> bitmap_block M < b \<and> b < start"
  using assms by (auto simp: fs_meta_def bitmap_block_def Let_def not_less not_le)

lemma bitmap_block_upd [simp]: "b \<noteq> 1 \<Longrightarrow> bitmap_block (M(b := d)) = bitmap_block M"
  by (simp add: bitmap_block_def)

lemma used_upd [simp]: "b \<noteq> 1 \<Longrightarrow> b \<noteq> bitmap_block M \<Longrightarrow> used (M(b := d)) = used M"
  by (simp add: used_def fun_eq_iff)

lemma fs_meta_upd: "b \<noteq> 1 \<Longrightarrow> b \<noteq> bitmap_block M \<Longrightarrow> fs_meta start (M(b := d)) = fs_meta start M"
  by (simp add: fs_meta_def)

lemma used_set:
  assumes "fs_meta start M" and "length (M (bitmap_block M)) = BSIZE" and "b < FSSIZE"
  shows "used (M(bitmap_block M := set_used (M (bitmap_block M)) b)) c \<longleftrightarrow> c = b \<or> used M c"
  using assms fs_metaD(4) [OF assms(1)] by (simp add: used_def BSIZE_def FSSIZE_def)

lemma used_clear:
  assumes "fs_meta start M" and "length (M (bitmap_block M)) = BSIZE" and "b < FSSIZE"
  shows "used (M(bitmap_block M := clear_used (M (bitmap_block M)) b)) c \<longleftrightarrow> c \<noteq> b \<and> used M c"
  using assms fs_metaD(4) [OF assms(1)] by (simp add: used_def BSIZE_def FSSIZE_def)

lemma fs_meta_set:
  assumes "fs_meta start M" and "length (M (bitmap_block M)) = BSIZE" and "b < FSSIZE"
  shows "fs_meta start (M(bitmap_block M := set_used (M (bitmap_block M)) b))"
  using assms(1) used_set [OF assms] fs_metaD(4) [OF assms(1)] by (auto simp: fs_meta_def Let_def)

lemma fs_meta_clear:
  assumes "fs_meta start M" and "length (M (bitmap_block M)) = BSIZE" and "bitmap_block M < b" "b < start"
  shows "fs_meta start (M(bitmap_block M := clear_used (M (bitmap_block M)) b))"
proof -
  have "b < FSSIZE" using assms fs_metaD(1,2) [OF assms(1)] by simp
  then show ?thesis
    using assms used_clear [OF assms(1,2)] fs_metaD(4) [OF assms(1)] by (auto simp: fs_meta_def Let_def)
qed


lemma txn_readsb:
  assumes "txn B r s" and "1 \<notin> v_held (view s)"
  shows "\<exists>s'. readsb ROOTDEV s = Ok (decode_sb (v_blk (view s) 1), s') \<and> txn B r s'
    \<and> txn_step s s' (v_blk (view s))"
proof -
  have "(1 :: nat) < FSSIZE" by (simp add: FSSIZE_def)
  from txn_read [OF assms(1) this assms(2)] show ?thesis
    by (auto simp: readsb_def Let_def)
qed

lemma bzero_ok:
  assumes "txn B r s" and "b < l_start s" "b \<noteq> 1" "b \<notin> v_held (view s)" "b \<in> B \<or> 0 < r"
  shows "\<exists>s'. bzero ROOTDEV b s = Ok s' \<and> txn (insert b B) (if b \<in> B then r else r - 1) s'
    \<and> txn_step s s' ((v_blk (view s))(b := replicate BSIZE 0))"
  using txn_update [OF assms, of "replicate BSIZE 0"] by (auto simp: bzero_def)

lemma balloc_list:
  assumes "0 < sz" and "sz \<le> FSSIZE"
  shows "map (\<lambda>k. k * BPB) [0..<(sz + BPB - 1) div BPB] = [0]"
proof -
  have "(sz + BPB - 1) div BPB = 1"
    using assms by (simp add: BPB_def BSIZE_def FSSIZE_def)
  then show ?thesis by simp
qed

text \<open>What a transaction of the file system works on.\<close>

definition fs_txn :: "nat set \<Rightarrow> nat \<Rightarrow> 'z lstate_scheme \<Rightarrow> bool" where
  "fs_txn B r s \<longleftrightarrow> txn B r s \<and> fs_meta (l_start s) (v_blk (view s)) \<and> bitmap_block (v_blk (view s)) \<in> B
     \<and> 1 \<notin> v_held (view s) \<and> bitmap_block (v_blk (view s)) \<notin> v_held (view s)
     \<and> (\<forall>c\<in>v_held (view s). used (v_blk (view s)) c)"

lemma fs_txnD:
  assumes "fs_txn B r s"
  shows "txn B r s" "fs_meta (l_start s) (v_blk (view s))" "1 \<notin> v_held (view s)"
    "bitmap_block (v_blk (view s)) \<notin> v_held (view s)" "c \<in> v_held (view s) \<Longrightarrow> used (v_blk (view s)) c"
    "length (v_blk (view s) (bitmap_block (v_blk (view s)))) = BSIZE" "bitmap_block (v_blk (view s)) < FSSIZE"
    "bitmap_block (v_blk (view s)) \<in> B"
proof -
  show "bitmap_block (v_blk (view s)) \<in> B" using assms by (simp add: fs_txn_def)
  show *: "txn B r s" "fs_meta (l_start s) (v_blk (view s))" "1 \<notin> v_held (view s)"
    "bitmap_block (v_blk (view s)) \<notin> v_held (view s)" "c \<in> v_held (view s) \<Longrightarrow> used (v_blk (view s)) c"
    using assms by (auto simp: fs_txn_def)
  show "bitmap_block (v_blk (view s)) < FSSIZE"
    using fs_metaD(3) [OF *(2)] txnD(3) [OF *(1)] by simp
  then show "length (v_blk (view s) (bitmap_block (v_blk (view s)))) = BSIZE"
    using txn_size [OF *(1)] by simp
qed

definition mark_used :: "(nat \<Rightarrow> byte list) \<Rightarrow> nat \<Rightarrow> nat \<Rightarrow> byte list" where
  "mark_used M b = M(bitmap_block M := set_used (M (bitmap_block M)) b)"

definition mark_free :: "(nat \<Rightarrow> byte list) \<Rightarrow> nat \<Rightarrow> nat \<Rightarrow> byte list" where
  "mark_free M b = M(bitmap_block M := clear_used (M (bitmap_block M)) b)"

lemma find_first:
  assumes "\<exists>b < n. P b" and "n \<le> m" and "\<And>b. P b \<Longrightarrow> b < n"
  shows "\<exists>b. List.find P [0..<m] = Some b \<and> P b \<and> b < n"
proof -
  obtain b where "P b" "b < n" using assms(1) by blast
  then have "b \<in> set [0..<m]" using assms(2) by auto
  from find_ex [of b _ P, OF this \<open>P b\<close>] obtain c where "List.find P [0..<m] = Some c" by blast
  then show ?thesis using find_SomeD [of P "[0..<m]" c] assms(3) by auto
qed

lemma balloc_ok:
  assumes t: "fs_txn B (Suc r) s" and free: "\<exists>b < sb_size (decode_sb (v_blk (view s) 1)). \<not> used (v_blk (view s)) b"
  defines "M \<equiv> v_blk (view s)"
  shows "\<exists>b s'. balloc ROOTDEV s = Ok (b, s') \<and> fs_txn (insert b B) r s' \<and> \<not> used M b \<and> bitmap_block M < b \<and> b < l_start s
    \<and> txn_step s s' ((mark_used M b)(b := replicate BSIZE 0))"
proof -
  let ?sb = "decode_sb (M 1)" and ?bm = "bitmap_block M"
  note d = fs_txnD [OF t, folded M_def]
  have meta: "?bm \<noteq> 1" "?bm < l_start s" using fs_metaD(3,4) [OF d(2)] by auto
  obtain s1 where s1: "readsb ROOTDEV s = Ok (?sb, s1)" "txn B (Suc r) s1" "txn_step s s1 M"
    using txn_readsb [OF d(1,3)] by (auto simp: M_def)
  note f1 = txn_stepD [OF s1(3)]
  have size: "0 < sb_size ?sb" "sb_size ?sb \<le> FSSIZE" using fs_metaD(1,2) [OF d(2)] by auto
  obtain b where b: "List.find (\<lambda>bi. 0 + bi < sb_size ?sb \<and> \<not> bit_used (M ?bm) bi) [0..<BPB] = Some b"
      "b < sb_size ?sb" "\<not> used M b"
    using find_first [of "sb_size ?sb" "\<lambda>bi. 0 + bi < sb_size ?sb \<and> \<not> bit_used (M ?bm) bi" BPB] free size
    by (auto simp: M_def used_def BPB_def BSIZE_def FSSIZE_def)
  have bb: "?bm < b" "b < l_start s" "b \<noteq> 1" using fs_metaD(4) [OF d(2)] fs_metaD(5) [OF d(2) b(2,3)] by auto
  obtain i s2 s3 s4 where s4: "bread ROOTDEV ?bm s1 = Ok (i, s2)" "getdata s2 i = M ?bm"
      "log_write i (setdata i (set_used (M ?bm) b) s2) = Ok s3" "brelse i s3 = Ok s4" "txn B (Suc r) s4"
      "txn_step s1 s4 (mark_used M b)"
    using txn_update [OF s1(2), of ?bm "set_used (M ?bm) b"] f1 meta d(4,6,8)
    by (auto simp: mark_used_def M_def insert_absorb)
  note f4 = txn_stepD [OF txn_step_trans [OF s1(3) s4(6)]]
  have "b \<notin> v_held (view s)" using d(5) b(3) by auto
  then obtain s5 where "bzero ROOTDEV b s4 = Ok s5" "txn (insert b B) (if b \<in> B then Suc r else Suc r - 1) s5"
      "txn_step s4 s5 ((mark_used M b)(b := replicate BSIZE 0))"
    using bzero_ok [OF s4(5), of b] f4 bb meta fs_metaD(4) [OF d(2)] by auto
  then have s5: "bzero ROOTDEV b s4 = Ok s5" "txn (insert b B) r s5" "txn_step s4 s5 ((mark_used M b)(b := replicate BSIZE 0))"
    using txn_mono [of "insert b B" "if b \<in> B then Suc r else Suc r - 1" s5 r "insert b B"] by auto
  have step: "txn_step s s5 ((mark_used M b)(b := replicate BSIZE 0))"
    using txn_step_trans [OF txn_step_trans [OF s1(3) s4(6)] s5(3)] .
  note f5 = txn_stepD [OF step]
  have code: "balloc ROOTDEV s = Ok (b, s5)"
    using s1(1) s4(1-4) s5(1) b(1) balloc_list [OF size]
    by (simp add: balloc_def BBLOCK_def bitmap_block_def)
  have "b < FSSIZE" using b(2) size by simp
  then have "fs_meta (l_start s) (mark_used M b)" "\<And>c. used (mark_used M b) c \<longleftrightarrow> c = b \<or> used M c"
    using fs_meta_set [OF d(2,6)] used_set [OF d(2,6)] by (auto simp: mark_used_def)
  moreover have "bitmap_block (mark_used M b) = ?bm" using meta by (simp add: mark_used_def)
  ultimately have "fs_txn (insert b B) r s5"
    using s5(2) f5 d(3-5,8) bb meta by (auto simp: fs_txn_def fs_meta_upd)
  then show ?thesis using code b(3) bb step by blast
qed


lemma balloc_full_lemma:
  assumes t: "fs_txn B r s" and full: "\<forall>b < sb_size (decode_sb (v_blk (view s) 1)). used (v_blk (view s)) b"
  shows "balloc ROOTDEV s = Panic ''balloc: out of blocks''"
proof -
  define M where "M = v_blk (view s)"
  let ?sb = "decode_sb (M 1)" and ?bm = "bitmap_block M"
  note d = fs_txnD [OF t, folded M_def]
  obtain s1 where s1: "readsb ROOTDEV s = Ok (?sb, s1)" "txn B r s1" "txn_step s s1 M"
    using txn_readsb [OF d(1,3)] by (auto simp: M_def)
  have size: "0 < sb_size ?sb" "sb_size ?sb \<le> FSSIZE" using fs_metaD(1,2) [OF d(2)] by auto
  have "List.find (\<lambda>bi. 0 + bi < sb_size ?sb \<and> \<not> bit_used (M ?bm) bi) [0..<BPB] = None"
    using full by (auto simp: find_None_iff_all M_def used_def)
  moreover obtain i s2 s3 where "bread ROOTDEV ?bm s1 = Ok (i, s2)" "getdata s2 i = M ?bm" "brelse i s2 = Ok s3"
    using txn_read [OF s1(2), of ?bm] txn_stepD [OF s1(3)] d(4,7) by auto
  ultimately show ?thesis
    using s1(1) balloc_list [OF size] by (simp add: balloc_def BBLOCK_def bitmap_block_def)
qed

lemma bfree_ok:
  assumes t: "fs_txn B r s" and b: "used (v_blk (view s)) b" "bitmap_block (v_blk (view s)) < b" "b < l_start s"
  assumes held: "b \<notin> v_held (view s)"
  shows "\<exists>s'. bfree ROOTDEV b s = Ok s' \<and> fs_txn B r s' \<and> txn_step s s' (mark_free (v_blk (view s)) b)"
proof -
  define M where "M = v_blk (view s)"
  let ?sb = "decode_sb (M 1)" and ?bm = "bitmap_block M"
  note d = fs_txnD [OF t, folded M_def] and b' = b [folded M_def]
  have meta: "?bm \<noteq> 1" "?bm < l_start s" using fs_metaD(3,4) [OF d(2)] by auto
  obtain s1 where s1: "readsb ROOTDEV s = Ok (?sb, s1)" "txn B r s1" "txn_step s s1 M"
    using txn_readsb [OF d(1,3)] by (auto simp: M_def)
  note f1 = txn_stepD [OF s1(3)]
  have fs: "b < FSSIZE" using b'(3) txnD(3) [OF d(1)] by simp
  then have bpb: "b div BPB = 0" "b mod BPB = b" by (simp_all add: BPB_def BSIZE_def FSSIZE_def)
  obtain i s2 s3 s4 where s4: "bread ROOTDEV ?bm s1 = Ok (i, s2)" "getdata s2 i = M ?bm"
      "log_write i (setdata i (clear_used (M ?bm) b) s2) = Ok s3" "brelse i s3 = Ok s4" "txn B r s4"
      "txn_step s1 s4 (mark_free M b)"
    using txn_update [OF s1(2), of ?bm "clear_used (M ?bm) b"] f1 meta d(4,6,8)
    by (auto simp: mark_free_def M_def insert_absorb)
  have step: "txn_step s s4 (mark_free M b)" using txn_step_trans [OF s1(3) s4(6)] .
  note f4 = txn_stepD [OF step]
  have "fs_meta (l_start s) (mark_free M b)" "\<And>c. used (mark_free M b) c \<longleftrightarrow> c \<noteq> b \<and> used M c"
    using fs_meta_clear [OF d(2,6) b'(2,3)] used_clear [OF d(2,6) fs] by (auto simp: mark_free_def)
  moreover have "bitmap_block (mark_free M b) = ?bm" using meta by (simp add: mark_free_def)
  ultimately have "fs_txn B r s4"
    using s4(5) f4 d(3-5,8) held by (auto simp: fs_txn_def)
  moreover have "bfree ROOTDEV b s = Ok s4"
    using s1(1) s4(1-4) b'(1) bpb by (simp add: bfree_def BBLOCK_def bitmap_block_def used_def Let_def)
  ultimately show ?thesis using step by (auto simp: M_def)
qed

section \<open>Inode records in a block\<close>

definition dinode_off :: "nat \<Rightarrow> nat" where "dinode_off inum = (inum mod IPB) * DINODE_SIZE"

lemma dinode_off_bound: "dinode_off inum + 64 \<le> BSIZE"
proof -
  have "inum mod 8 < 8" by simp
  then show ?thesis by (simp add: dinode_off_def IPB_def DINODE_SIZE_def BSIZE_def NDIRECT_def)
qed

lemma dinode_off_apart: "i mod IPB \<noteq> j mod IPB \<Longrightarrow> dinode_off i + 64 \<le> dinode_off j \<or> dinode_off j + 64 \<le> dinode_off i"
  by (auto simp: dinode_off_def DINODE_SIZE_def NDIRECT_def neq_iff)

lemma s16_u16:
  assumes "- (2 ^ 15) \<le> x" and "x < 2 ^ 15"
  shows "s16 (u16 x) = x"
proof (cases "0 \<le> x")
  case True
  then show ?thesis using assms by (simp add: s16_def u16_def)
next
  case False
  have "x mod 65536 = (x + 65536) mod 65536" by simp
  also have "\<dots> = x + 65536" using False assms(1) by (intro mod_pos_pos_trivial) auto
  finally show ?thesis using False assms by (simp add: s16_def u16_def)
qed


section \<open>A drive with a bitmap\<close>

definition demo_fs :: "nat \<Rightarrow> byte list" where
  "demo_fs = demo_disk(28 := fold (\<lambda>b d. set_used d b) ([0..<29] @ [970..<1000]) (replicate BSIZE 0))"

lemma fold_set_used:
  "\<forall>b\<in>set bs. b < 8 * length d \<Longrightarrow> length (fold (\<lambda>b d. set_used d b) bs d) = length d
    \<and> (bit_used (fold (\<lambda>b d. set_used d b) bs d) i \<longleftrightarrow> i \<in> set bs \<or> bit_used d i)"
  by (induction bs arbitrary: d) auto

lemma demo_fs_bitmap:
  "length (demo_fs 28) = BSIZE" "i < 1000 \<Longrightarrow> bit_used (demo_fs 28) i \<longleftrightarrow> i < 29 \<or> 970 \<le> i"
proof -
  define bs :: "nat list" where "bs = [0..<29] @ [970..<1000]"
  have e: "demo_fs 28 = fold (\<lambda>b d. set_used d b) bs (replicate BSIZE 0)"
    unfolding demo_fs_def bs_def by (rule fun_upd_same)
  have "b < 8 * BSIZE" if "b \<in> set bs" for b
    using that unfolding bs_def set_append set_upt BSIZE_def by auto
  then have "\<forall>b\<in>set bs. b < 8 * length (replicate BSIZE (0 :: byte))" by simp
  note f = fold_set_used [OF this]
  show "length (demo_fs 28) = BSIZE" using f unfolding e by simp
  assume i: "i < 1000"
  then have "i div 8 < BSIZE" by (simp add: BSIZE_def)
  then have "\<not> bit_used (replicate BSIZE 0) i" by (simp add: bit_used_def)
  moreover have "i \<in> set bs \<longleftrightarrow> i < 29 \<or> 970 \<le> i" using i unfolding bs_def set_append set_upt by auto
  ultimately show "bit_used (demo_fs 28) i \<longleftrightarrow> i < 29 \<or> 970 \<le> i"
    using f [of i] unfolding e by blast
qed

text \<open>A machine that boots from a drive laid out like this one and begins a system call.\<close>

lemma demo_begin:
  assumes D: "\<forall>b < FSSIZE. length (D b) = BSIZE" "D 1 = demo_disk 1" "D 970 = replicate BSIZE 0"
    and B: "finite B" "28 \<in> B" "card B + r \<le> 20"
    and bm: "\<forall>b < 1000. b \<le> 28 \<or> 970 \<le> b \<longrightarrow> bit_used (D 28) b"
  shows "\<exists>s :: lstate. fs_txn B r s \<and> (\<forall>b < 970. v_blk (view s) b = D b) \<and> v_held (view s) = {} \<and> l_start s = 970"
proof -
  have sb: "sb_ok 970 30 D"
    using demo_sb D by (simp add: sb_ok_def)
  have n: "head_n 970 D = 0"
    using D(3) by (simp add: head_n_def get32_def get16_def BSIZE_def s32_def)
  then have "head_ok 970 30 D" using head_ok_0 by simp
  from reboot_initlog [OF sb this] obtain s :: lstate where s: "log_live s" "v_held (view s) = {}" "lh_n s = 0"
      "l_start s = 970" "l_size s = 30" "l_outstanding s = 0" "\<not> l_committing s"
      "\<forall>b < 970. v_blk (view s) b = recovered 970 D b"
    by blast
  let ?s = "s\<lparr>l_outstanding := 1\<rparr>"
  have blk: "\<forall>b < 970. v_blk (view s) b = D b" using s(8) n by (simp add: recovered_def)
  have sbv: "decode_sb (v_blk (view s) 1) = decode_sb (demo_disk 1)" using blk D(2) by simp
  have "sb_size (decode_sb (demo_disk 1)) = 1000" "sb_ninodes (decode_sb (demo_disk 1)) = 200"
    by (simp_all add: demo_disk_def decode_sb_def Let_def BSIZE_def u32_def)
  then have g: "bitmap_block (v_blk (view s)) = 28" "sb_size (decode_sb (v_blk (view s) 1)) = 1000"
    using sbv by (simp_all add: bitmap_block_def IPB_def BSIZE_def DINODE_SIZE_def NDIRECT_def)
  have "fs_meta 970 (v_blk (view s))"
    using g blk bm by (auto simp: fs_meta_def used_def FSSIZE_def)
  moreover have "logged s = []" using s by (simp add: logged_def)
  ultimately have "fs_txn B r ?s"
    using s g B by (auto simp: fs_txn_def txn_def log_live_def log_geom_def logged_def NBUF_def MAXOPBLOCKS_def)
  then show ?thesis using s blk by (intro exI [of _ ?s]) simp
qed

lemma demo_fs_begin:
  assumes "card B + r \<le> 20" and "finite B" and "28 \<in> B"
  shows "\<exists>s :: lstate. fs_txn B r s \<and> (\<forall>b < 970. v_blk (view s) b = demo_fs b) \<and> v_held (view s) = {} \<and> l_start s = 970"
proof (rule demo_begin [OF _ _ _ assms(2,3,1)])
  show "\<forall>b < FSSIZE. length (demo_fs b) = BSIZE"
    using demo_fs_bitmap(1) demo_sb by (auto simp: demo_fs_def sb_ok_def)
  show "demo_fs 970 = replicate BSIZE 0"
    by (simp add: demo_fs_def demo_disk_def Let_def)
  show "\<forall>b < 1000. b \<le> 28 \<or> 970 \<le> b \<longrightarrow> bit_used (demo_fs 28) b"
    using demo_fs_bitmap(2) by auto
qed (simp add: demo_fs_def)


section \<open>Properties\<close>

lemma balloc_bfree_lemma:
  assumes t: "fs_txn B (Suc r) s" and free: "\<exists>b < sb_size (decode_sb (v_blk (view s) 1)). \<not> used (v_blk (view s)) b"
  defines "M \<equiv> v_blk (view s)"
  shows "\<exists>b s1 s2. balloc ROOTDEV s = Ok (b, s1) \<and> \<not> used M b \<and> bitmap_block M < b \<and> b < l_start s
    \<and> v_blk (view s1) = (mark_used M b)(b := replicate BSIZE 0)
    \<and> (\<forall>c < FSSIZE. used (v_blk (view s1)) c \<longleftrightarrow> c = b \<or> used M c)
    \<and> bfree ROOTDEV b s1 = Ok s2 \<and> v_blk (view s2) = M(b := replicate BSIZE 0)"
proof -
  note d = fs_txnD [OF t, folded M_def]
  obtain b s1 where b: "balloc ROOTDEV s = Ok (b, s1)" "fs_txn (insert b B) r s1" "\<not> used M b"
      "bitmap_block M < b" "b < l_start s" "txn_step s s1 ((mark_used M b)(b := replicate BSIZE 0))"
    using balloc_ok [OF t free] unfolding M_def by blast
  note f1 = txn_stepD [OF b(6)]
  have ne: "bitmap_block M \<noteq> 1" "b \<noteq> 1" using fs_metaD(4) [OF d(2)] b(4) by auto
  have fs: "b < FSSIZE" using b(5) txnD(3) [OF d(1)] by simp
  have bm: "bitmap_block (v_blk (view s1)) = bitmap_block M" using f1(1) ne by (simp add: mark_used_def)
  have u: "used (v_blk (view s1)) c \<longleftrightarrow> c = b \<or> used M c" for c
    using used_set [OF d(2,6) fs] f1(1) ne b(4) by (simp add: mark_used_def)
  have "b \<notin> v_held (view s1)" using d(5) b(3) f1(2) by auto
  then obtain s2 where s2: "bfree ROOTDEV b s1 = Ok s2" "txn_step s1 s2 (mark_free (v_blk (view s1)) b)"
    using bfree_ok [OF b(2), of b] u bm b(4,5) f1(3) by auto
  have "clear_used (set_used (M (bitmap_block M)) b) b = M (bitmap_block M)"
    using b(3) d(6) fs by (intro clear_set_used) (auto simp: used_def BSIZE_def FSSIZE_def)
  then have "mark_free (v_blk (view s1)) b = M(b := replicate BSIZE 0)"
    using f1(1) bm b(4) by (auto simp: mark_free_def mark_used_def fun_eq_iff)
  then show ?thesis using b(1,3-5) f1(1) u s2 txn_stepD(1) [OF s2(2)] by auto
qed

text \<open>
  C19: In a transaction with room for one more block, on a drive with a free block, \<^verbatim>\<open>balloc\<close> returns a block of the
  data area that was free, zeroes it, sets its bit in the bitmap and changes no other bit and no other block; \<^verbatim>\<open>bfree\<close>
  of that block then restores the bitmap exactly.
\<close>

theorem balloc_bfree:
  assumes "fs_txn B (Suc r) s" and "\<exists>b < sb_size (decode_sb (v_blk (view s) 1)). \<not> used (v_blk (view s)) b"
  shows "\<exists>b s1 s2. balloc ROOTDEV s = Ok (b, s1) \<and> \<not> used (v_blk (view s)) b
    \<and> bitmap_block (v_blk (view s)) < b \<and> b < l_start s
    \<and> v_blk (view s1) = (mark_used (v_blk (view s)) b)(b := replicate BSIZE 0)
    \<and> (\<forall>c < FSSIZE. used (v_blk (view s1)) c \<longleftrightarrow> c = b \<or> used (v_blk (view s)) c)
    \<and> bfree ROOTDEV b s1 = Ok s2 \<and> v_blk (view s2) = (v_blk (view s))(b := replicate BSIZE 0)"
  by (rule balloc_bfree_lemma [OF assms])

lemma demo_fs_used:
  assumes "\<forall>b < 970. v_blk (view s) b = demo_fs b"
  shows "sb_size (decode_sb (v_blk (view s) 1)) = 1000" "b < 1000 \<Longrightarrow> used (v_blk (view s)) b \<longleftrightarrow> b < 29 \<or> 970 \<le> b"
proof -
  have "v_blk (view s) 1 = demo_disk 1" "v_blk (view s) 28 = demo_fs 28" using assms by (simp_all add: demo_fs_def)
  moreover have "sb_size (decode_sb (demo_disk 1)) = 1000" "sb_ninodes (decode_sb (demo_disk 1)) = 200"
    by (simp_all add: demo_disk_def decode_sb_def Let_def BSIZE_def u32_def)
  ultimately show "sb_size (decode_sb (v_blk (view s) 1)) = 1000" "b < 1000 \<Longrightarrow> used (v_blk (view s)) b \<longleftrightarrow> b < 29 \<or> 970 \<le> b"
    using demo_fs_bitmap(2) [of b] by (simp_all add: used_def bitmap_block_def IPB_def BSIZE_def DINODE_SIZE_def NDIRECT_def)
qed

theorem balloc_bfree_witness:
  "\<exists>(s :: lstate) b s1 s2. fs_txn {28} 1 s \<and> \<not> used (v_blk (view s)) 29 \<and> balloc ROOTDEV s = Ok (b, s1)
     \<and> \<not> used (v_blk (view s)) b \<and> bfree ROOTDEV b s1 = Ok s2
     \<and> v_blk (view s2) = (v_blk (view s))(b := replicate BSIZE 0)"
proof -
  obtain s :: lstate where s: "fs_txn {28} (Suc 0) s" "\<forall>b < 970. v_blk (view s) b = demo_fs b"
    using demo_fs_begin [of "{28}" "Suc 0"] by auto
  note u = demo_fs_used [OF s(2)]
  have "\<exists>b < sb_size (decode_sb (v_blk (view s) 1)). \<not> used (v_blk (view s)) b"
    using u(1) u(2) [of 29] by (intro exI [of _ 29]) simp
  from balloc_bfree [OF s(1) this] show ?thesis
    using s(1) u(2) [of 29] by (intro exI [of _ s]) auto
qed

text \<open>
  With every bit of the bitmap set, \<^verbatim>\<open>balloc\<close> panics.
\<close>

lemma balloc_out_of_blocks:
  assumes "fs_txn B r s" and "\<forall>b < sb_size (decode_sb (v_blk (view s) 1)). used (v_blk (view s)) b"
  shows "balloc ROOTDEV s = Panic ''balloc: out of blocks''"
  by (rule balloc_full_lemma [OF assms])

lemma balloc_out_of_blocks_witness:
  "\<exists>s :: lstate. fs_txn {28} 1 s \<and> (\<forall>b < sb_size (decode_sb (v_blk (view s) 1)). used (v_blk (view s)) b)
     \<and> balloc ROOTDEV s = Panic ''balloc: out of blocks''"
proof -
  let ?D = "demo_disk(28 := replicate BSIZE (mask 8))"
  have bit: "bit_used (replicate BSIZE (mask 8)) b" if "b < 1000" for b
  proof -
    have "b div 8 < BSIZE" using that by (simp add: BSIZE_def)
    then show ?thesis by (simp add: bit_used_def bit_mask_iff)
  qed
  have len: "\<forall>b < FSSIZE. length (?D b) = BSIZE" using demo_sb by (auto simp: sb_ok_def)
  obtain s :: lstate where s: "fs_txn {28} 1 s" "\<forall>b < 970. v_blk (view s) b = ?D b"
    using demo_begin [OF len, of "{28}" 1] bit by (auto simp: demo_disk_def Let_def)
  have "v_blk (view s) 1 = demo_disk 1" "v_blk (view s) 28 = replicate BSIZE (mask 8)" using s(2) by simp_all
  moreover have "sb_size (decode_sb (demo_disk 1)) = 1000" "sb_ninodes (decode_sb (demo_disk 1)) = 200"
    by (simp_all add: demo_disk_def decode_sb_def Let_def BSIZE_def u32_def)
  ultimately have full: "\<forall>b < sb_size (decode_sb (v_blk (view s) 1)). used (v_blk (view s)) b"
    using bit by (simp add: used_def bitmap_block_def IPB_def DINODE_SIZE_def NDIRECT_def BSIZE_def)
  from balloc_out_of_blocks [OF s(1) full] show ?thesis using s(1) full by blast
qed

end
