(* ===== verification/Fs_Inode.thy ===== *)
theory Fs_Inode
  imports Fs_Block
begin

text \<open>
  The inode level of \<^verbatim>\<open>kernel/fs.c\<close>: the inode cache (\<^verbatim>\<open>iget\<close>, \<^verbatim>\<open>idup\<close>, \<^verbatim>\<open>ilock\<close>, \<^verbatim>\<open>iunlock\<close>, \<^verbatim>\<open>iput\<close>), inodes on
  the drive (\<^verbatim>\<open>ialloc\<close>, \<^verbatim>\<open>iupdate\<close>), and file contents (\<^verbatim>\<open>bmap\<close>, \<^verbatim>\<open>itrunc\<close>, \<^verbatim>\<open>readi\<close>, \<^verbatim>\<open>writei\<close>, \<^verbatim>\<open>stati\<close>).  A
  pointer to a cached inode is its index in \<^verbatim>\<open>icache.inode\<close>.
\<close>

section \<open>State\<close>

record inode =
  i_dev :: nat
  i_inum :: nat
  i_ref :: int
  i_busy :: bool
  i_valid :: bool
  i_type :: int
  i_major :: int
  i_minor :: int
  i_nlink :: int
  i_ownerid :: int
  i_groupid :: int
  i_mode :: nat
  i_size :: nat
  i_addrs :: "nat list"

record istate = lstate +
  inodes :: "nat \<Rightarrow> inode"

definition setinode :: "nat \<Rightarrow> inode \<Rightarrow> 'z istate_scheme \<Rightarrow> 'z istate_scheme" where
  "setinode k ip s = s\<lparr>inodes := (inodes s)(k := ip)\<rparr>"

section \<open>The inode cache\<close>

definition iget :: "nat \<Rightarrow> nat \<Rightarrow> 'z istate_scheme \<Rightarrow> (nat \<times> 'z istate_scheme) res" where
  "iget dev inum s =
     (case List.find (\<lambda>k. i_ref (inodes s k) > 0 \<and> i_dev (inodes s k) = dev \<and> i_inum (inodes s k) = inum)
             [0..<NINODE] of
        Some k \<Rightarrow> Ok (k, setinode k ((inodes s k)\<lparr>i_ref := i_ref (inodes s k) + 1\<rparr>) s)
      | None \<Rightarrow>
          (case List.find (\<lambda>k. i_ref (inodes s k) = 0) [0..<NINODE] of
             None \<Rightarrow> Panic ''iget: no inodes''
           | Some k \<Rightarrow>
               Ok (k, setinode k ((inodes s k)\<lparr>i_dev := dev, i_inum := inum, i_ref := 1, i_busy := False,
                                     i_valid := False\<rparr>) s)))"

definition idup :: "nat \<Rightarrow> 'z istate_scheme \<Rightarrow> 'z istate_scheme" where
  "idup k s = setinode k ((inodes s k)\<lparr>i_ref := i_ref (inodes s k) + 1\<rparr>) s"

text \<open>The two copies between a \<^verbatim>\<open>struct inode\<close> and a \<^verbatim>\<open>struct dinode\<close> in \<^verbatim>\<open>ilock\<close> and \<^verbatim>\<open>iupdate\<close>.\<close>

definition load_dinode :: "dinode \<Rightarrow> inode \<Rightarrow> inode" where
  "load_dinode d ip =
     ip\<lparr>i_type := d_type d, i_major := d_major d, i_minor := d_minor d, i_nlink := d_nlink d,
        i_size := d_size d, i_ownerid := d_ownerid d, i_groupid := d_groupid d, i_mode := d_mode d,
        i_addrs := d_addrs d\<rparr>"

definition store_dinode :: "inode \<Rightarrow> byte list \<Rightarrow> byte list" where
  "store_dinode ip d =
     (let off = dinode_off (i_inum ip);
          d = put16 d off (u16 (i_type ip));
          d = put16 d (off + 2) (u16 (i_major ip));
          d = put16 d (off + 4) (u16 (i_minor ip));
          d = put16 d (off + 6) (u16 (i_nlink ip));
          d = put32 d (off + 16) (i_size ip);
          d = put32 d (off + 12) (i_mode ip)
      in put_addrs off (i_addrs ip) d)"

definition ilock :: "nat \<Rightarrow> 'z istate_scheme \<Rightarrow> 'z istate_scheme res" where
  "ilock k s =
     (if i_ref (inodes s k) < 1 then Panic ''ilock''
      else if i_busy (inodes s k) then Sleeps
      else
        let s = setinode k ((inodes s k)\<lparr>i_busy := True\<rparr>) s
        in if i_valid (inodes s k) then Ok s
           else rbind (bread (i_dev (inodes s k)) (IBLOCK (i_inum (inodes s k))) s) (\<lambda>(bp, s).
             let ip = load_dinode (get_dinode (getdata s bp) (i_inum (inodes s k))) (inodes s k)
             in rbind (brelse bp (setinode k ip s)) (\<lambda>s.
                let s = setinode k ((inodes s k)\<lparr>i_valid := True\<rparr>) s
                in if i_type (inodes s k) = 0 then Panic ''ilock: no type'' else Ok s)))"

definition iunlock :: "nat \<Rightarrow> 'z istate_scheme \<Rightarrow> 'z istate_scheme res" where
  "iunlock k s =
     (if \<not> i_busy (inodes s k) \<or> i_ref (inodes s k) < 1 then Panic ''iunlock''
      else Ok (setinode k ((inodes s k)\<lparr>i_busy := False\<rparr>) s))"

section \<open>Inodes on the drive\<close>

fun ialloc_loop :: "nat \<Rightarrow> int \<Rightarrow> nat list \<Rightarrow> 'z istate_scheme \<Rightarrow> (nat \<times> 'z istate_scheme) res" where
  "ialloc_loop dev type [] s = Panic ''ialloc: no inodes''"
| "ialloc_loop dev type (inum # rest) s =
     rbind (bread dev (IBLOCK inum) s) (\<lambda>(bp, s).
     if d_type (get_dinode (getdata s bp) inum) = 0 then
       rbind (log_write bp (setdata bp (zero_dinode inum type (getdata s bp)) s)) (\<lambda>s.
       rbind (brelse bp s) (iget dev inum))
     else rbind (brelse bp s) (ialloc_loop dev type rest))"

definition ialloc :: "nat \<Rightarrow> int \<Rightarrow> 'z istate_scheme \<Rightarrow> (nat \<times> 'z istate_scheme) res" where
  "ialloc dev type s =
     rbind (readsb dev s) (\<lambda>(sb, s). ialloc_loop dev type [1..<sb_ninodes sb] s)"

definition iupdate :: "nat \<Rightarrow> 'z istate_scheme \<Rightarrow> 'z istate_scheme res" where
  "iupdate k s =
     rbind (bread (i_dev (inodes s k)) (IBLOCK (i_inum (inodes s k))) s) (\<lambda>(bp, s).
     rbind (log_write bp (setdata bp (store_dinode (inodes s k) (getdata s bp)) s)) (brelse bp))"

section \<open>File contents\<close>

definition set_addr :: "nat \<Rightarrow> nat \<Rightarrow> nat \<Rightarrow> 'z istate_scheme \<Rightarrow> 'z istate_scheme" where
  "set_addr k i a s = setinode k ((inodes s k)\<lparr>i_addrs := (i_addrs (inodes s k))[i := a]\<rparr>) s"

text \<open>\<^verbatim>\<open>if((addr = ip->addrs[i]) == 0) ip->addrs[i] = addr = balloc(ip->dev)\<close>\<close>

definition addr_or_alloc :: "nat \<Rightarrow> nat \<Rightarrow> 'z istate_scheme \<Rightarrow> (nat \<times> 'z istate_scheme) res" where
  "addr_or_alloc k i s =
     (let addr = i_addrs (inodes s k) ! i
      in if addr = 0 then rbind (balloc (i_dev (inodes s k)) s) (\<lambda>(a, s). Ok (a, set_addr k i a s))
         else Ok (addr, s))"

definition bmap :: "nat \<Rightarrow> nat \<Rightarrow> 'z istate_scheme \<Rightarrow> (nat \<times> 'z istate_scheme) res" where
  "bmap k bn s =
     (if bn < NDIRECT then addr_or_alloc k bn s
      else
        let bn = bn - NDIRECT
        in if bn < NINDIRECT then
             rbind (addr_or_alloc k NDIRECT s) (\<lambda>(addr, s).
             rbind (bread (i_dev (inodes s k)) addr s) (\<lambda>(bp, s).
             let a = get32 (getdata s bp) (4 * bn)
             in if a = 0 then
                  rbind (balloc (i_dev (inodes s k)) s) (\<lambda>(a, s).
                  rbind (log_write bp (setdata bp (put32 (getdata s bp) (4 * bn) a) s)) (\<lambda>s.
                  rbind (brelse bp s) (\<lambda>s. Ok (a, s))))
                else rbind (brelse bp s) (\<lambda>s. Ok (a, s))))
           else Panic ''bmap: out of range'')"

definition itrunc_direct :: "nat \<Rightarrow> nat \<Rightarrow> 'z istate_scheme \<Rightarrow> 'z istate_scheme res" where
  "itrunc_direct k i s =
     (if i_addrs (inodes s k) ! i \<noteq> 0 then
        rbind (bfree (i_dev (inodes s k)) (i_addrs (inodes s k) ! i) s) (\<lambda>s. Ok (set_addr k i 0 s))
      else Ok s)"

definition itrunc_indirect :: "nat \<Rightarrow> nat \<Rightarrow> nat \<Rightarrow> 'z istate_scheme \<Rightarrow> 'z istate_scheme res" where
  "itrunc_indirect k bp j s =
     (let a = get32 (getdata s bp) (4 * j)
      in if a \<noteq> 0 then bfree (i_dev (inodes s k)) a s else Ok s)"

definition itrunc :: "nat \<Rightarrow> 'z istate_scheme \<Rightarrow> 'z istate_scheme res" where
  "itrunc k s =
     rbind (for_each (itrunc_direct k) [0..<NDIRECT] s) (\<lambda>s.
     rbind (if i_addrs (inodes s k) ! NDIRECT \<noteq> 0 then
              rbind (bread (i_dev (inodes s k)) (i_addrs (inodes s k) ! NDIRECT) s) (\<lambda>(bp, s).
              rbind (for_each (itrunc_indirect k bp) [0..<NINDIRECT] s) (\<lambda>s.
              rbind (brelse bp s) (\<lambda>s.
              rbind (bfree (i_dev (inodes s k)) (i_addrs (inodes s k) ! NDIRECT) s) (\<lambda>s.
              Ok (set_addr k NDIRECT 0 s)))))
            else Ok s) (\<lambda>s.
     iupdate k (setinode k ((inodes s k)\<lparr>i_size := 0\<rparr>) s)))"

definition iput :: "nat \<Rightarrow> 'z istate_scheme \<Rightarrow> 'z istate_scheme res" where
  "iput k s =
     rbind
       (if i_ref (inodes s k) = 1 \<and> i_valid (inodes s k) \<and> i_nlink (inodes s k) = 0 then
          if i_busy (inodes s k) then Panic ''iput busy''
          else rbind (itrunc k (setinode k ((inodes s k)\<lparr>i_busy := True\<rparr>) s)) (\<lambda>s.
               rbind (iupdate k (setinode k ((inodes s k)\<lparr>i_type := 0\<rparr>) s)) (\<lambda>s.
               Ok (setinode k ((inodes s k)\<lparr>i_busy := False, i_valid := False\<rparr>) s)))
        else Ok s)
       (\<lambda>s. Ok (setinode k ((inodes s k)\<lparr>i_ref := i_ref (inodes s k) - 1\<rparr>) s))"

definition iunlockput :: "nat \<Rightarrow> 'z istate_scheme \<Rightarrow> 'z istate_scheme res" where
  "iunlockput k s = rbind (iunlock k s) (iput k)"

record stat =
  st_type :: int
  st_dev :: nat
  st_ino :: nat
  st_nlink :: int
  st_ownerid :: int
  st_groupid :: int
  st_mode :: nat
  st_size :: nat

definition stati :: "inode \<Rightarrow> stat" where
  "stati ip =
     \<lparr>st_type = i_type ip, st_dev = i_dev ip, st_ino = i_inum ip, st_nlink = i_nlink ip,
      st_ownerid = i_ownerid ip, st_groupid = i_groupid ip, st_mode = i_mode ip, st_size = i_size ip\<rparr>"

text \<open>
  The table \<^verbatim>\<open>devsw\<close> of device functions is an argument of the code that calls through it.  A read gives
  the number of bytes, or \<open>-1\<close>, and the bytes.
\<close>

type_synonym 'z devread = "nat \<Rightarrow> nat \<Rightarrow> 'z istate_scheme \<Rightarrow> (int \<times> byte list \<times> 'z istate_scheme) res"
type_synonym 'z devwrite = "nat \<Rightarrow> byte list \<Rightarrow> 'z istate_scheme \<Rightarrow> (int \<times> 'z istate_scheme) res"
type_synonym 'z devsw = "nat \<Rightarrow> 'z devread option \<times> 'z devwrite option"

text \<open>The part of a block from offset \<open>off mod BSIZE\<close> on that is still wanted.\<close>

definition chunk :: "nat \<Rightarrow> nat \<Rightarrow> nat" where
  "chunk off n = min n (BSIZE - off mod BSIZE)"

lemma chunk_pos: "n \<noteq> 0 \<Longrightarrow> 0 < chunk off n"
  by (simp add: chunk_def BSIZE_def)

lemma chunk_le: "chunk off n \<le> n"
  by (simp add: chunk_def)

function readi_loop :: "nat \<Rightarrow> nat \<Rightarrow> nat \<Rightarrow> 'z istate_scheme \<Rightarrow> (byte list \<times> 'z istate_scheme) res" where
  "readi_loop k off n s =
     (if n = 0 then Ok ([], s)
      else
        rbind (bmap k (off div BSIZE) s) (\<lambda>(addr, s).
        rbind (bread (i_dev (inodes s k)) addr s) (\<lambda>(bp, s).
        let m = chunk off n; bytes = take m (drop (off mod BSIZE) (getdata s bp))
        in rbind (brelse bp s) (\<lambda>s.
           rbind (readi_loop k (off + m) (n - m) s) (\<lambda>(rest, s). Ok (bytes @ rest, s))))))"
  by pat_completeness auto
termination
  by (relation "measure (\<lambda>(k, off, n, s). n)") (auto intro!: diff_less chunk_pos)

declare readi_loop.simps [simp del]

definition readi :: "'z devsw \<Rightarrow> nat \<Rightarrow> nat \<Rightarrow> nat \<Rightarrow> 'z istate_scheme \<Rightarrow> (int \<times> byte list \<times> 'z istate_scheme) res" where
  "readi devsw k off n s =
     (let ip = inodes s k
      in if i_type ip = T_DEV then
           if i_major ip < 0 \<or> i_major ip \<ge> int NDEV then Ok (-1, [], s)
           else case fst (devsw (nat (i_major ip))) of
                  None \<Rightarrow> Ok (-1, [], s)
                | Some f \<Rightarrow> f k n s
         else if i_size ip < off \<or> u32 (off + n) < off then Ok (-1, [], s)
         else
           let n = (if i_size ip < off + n then i_size ip - off else n)
           in rbind (readi_loop k off n s) (\<lambda>(bytes, s). Ok (int n, bytes, s)))"

function writei_loop :: "nat \<Rightarrow> nat \<Rightarrow> byte list \<Rightarrow> 'z istate_scheme \<Rightarrow> 'z istate_scheme res" where
  "writei_loop k off src s =
     (if src = [] then Ok s
      else
        rbind (bmap k (off div BSIZE) s) (\<lambda>(addr, s).
        rbind (bread (i_dev (inodes s k)) addr s) (\<lambda>(bp, s).
        let m = chunk off (length src)
        in rbind (log_write bp (setdata bp (splice (getdata s bp) (off mod BSIZE) (take m src)) s)) (\<lambda>s.
           rbind (brelse bp s) (writei_loop k (off + m) (drop m src))))))"
  by pat_completeness auto
termination
  by (relation "measure (\<lambda>(k, off, src, s). length src)") (auto intro!: diff_less chunk_pos)

declare writei_loop.simps [simp del]

definition writei :: "'z devsw \<Rightarrow> nat \<Rightarrow> byte list \<Rightarrow> nat \<Rightarrow> 'z istate_scheme \<Rightarrow> (int \<times> 'z istate_scheme) res" where
  "writei devsw k src off s =
     (let ip = inodes s k; n = length src
      in if i_type ip = T_DEV then
           if i_major ip < 0 \<or> i_major ip \<ge> int NDEV then Ok (-1, s)
           else case snd (devsw (nat (i_major ip))) of
                  None \<Rightarrow> Ok (-1, s)
                | Some f \<Rightarrow> f k src s
         else if i_size ip < off \<or> u32 (off + n) < off then Ok (-1, s)
         else if MAXFILE * BSIZE < off + n then Ok (-1, s)
         else
           rbind (writei_loop k off src s) (\<lambda>s.
           rbind (if 0 < n \<and> i_size (inodes s k) < off + n
                  then iupdate k (setinode k ((inodes s k)\<lparr>i_size := off + n\<rparr>) s) else Ok s) (\<lambda>s.
           Ok (int n, s))))"


section \<open>Frame\<close>

lemma setinode_sel [simp]:
  "inodes (setinode k ip s) = (inodes s)(k := ip)" "istate.more (setinode k ip s) = istate.more s"
  "view (setinode k ip s) = view s" "bc_inv (setinode k ip s) = bc_inv s" "holds (setinode k ip s) = holds s"
  "l_start (setinode k ip s) = l_start s" "l_size (setinode k ip s) = l_size s"
  "l_outstanding (setinode k ip s) = l_outstanding s" "l_committing (setinode k ip s) = l_committing s"
  "l_dev (setinode k ip s) = l_dev s" "lh_n (setinode k ip s) = lh_n s" "lh_block (setinode k ip s) = lh_block s"
proof -
  have "bstate.truncate (setinode k ip s) = bstate.truncate s"
    by (simp add: setinode_def bstate.truncate_def)
  from same_cache [OF this] show "view (setinode k ip s) = view s" "bc_inv (setinode k ip s) = bc_inv s"
    "holds (setinode k ip s) = holds s" .
qed (simp_all add: setinode_def)

lemma setinode_logged [simp]: "logged (setinode k ip s) = logged s"
  by (simp add: logged_def)

lemma setinode_txn [simp]:
  "log_live (setinode k ip s) = log_live s" "txn B r (setinode k ip s) = txn B r s"
  "fs_txn B r (setinode k ip s) = fs_txn B r s"
  by (simp_all add: fs_txn_def txn_def log_live_def log_geom_def)

lemma same_inodes:
  assumes "lstate.more s' = lstate.more s"
  shows "inodes s' = inodes s" "istate.more s' = istate.more s"
  using assms by (cases s; cases s'; simp)+

lemma same_inodes_b:
  assumes "bstate.more s' = bstate.more s"
  shows "inodes s' = inodes s" "istate.more s' = istate.more s"
  using assms by (cases s; cases s'; simp)+

text \<open>A step of the file system: the contents become \<open>M\<close>, the cached inodes \<open>I\<close>.\<close>

definition fs_step :: "'z istate_scheme \<Rightarrow> 'z istate_scheme \<Rightarrow> (nat \<Rightarrow> byte list) \<Rightarrow> (nat \<Rightarrow> inode) \<Rightarrow> bool" where
  "fs_step s s' M I \<longleftrightarrow> v_blk (view s') = M \<and> inodes s' = I \<and> v_disk (view s') = v_disk (view s)
     \<and> v_held (view s') = v_held (view s) \<and> v_trace (view s') = v_trace (view s)
     \<and> v_pinned (view s) \<subseteq> v_pinned (view s') \<and> l_start s' = l_start s \<and> l_size s' = l_size s \<and> l_outstanding s' = l_outstanding s
     \<and> l_committing s' = l_committing s \<and> istate.more s' = istate.more s
     \<and> (\<forall>j c. holds s j c \<longrightarrow> holds s' j c)"

lemma fs_stepI: "txn_step s s' M \<Longrightarrow> fs_step s s' M (inodes s)"
  using same_inodes [of s' s] by (simp add: txn_step_def fs_step_def same_params_def)

lemma fs_step_refl [simp]: "fs_step s s (v_blk (view s)) (inodes s)"
  by (simp add: fs_step_def)

lemma fs_step_trans: "fs_step s t M I \<Longrightarrow> fs_step t u M' I' \<Longrightarrow> fs_step s u M' I'"
  by (auto simp: fs_step_def)

lemma fs_step_setinode: "fs_step s t M I \<Longrightarrow> fs_step s (setinode k ip t) M (I(k := ip))"
  by (auto simp: fs_step_def)

lemma fs_stepD:
  assumes "fs_step s s' M I"
  shows "v_blk (view s') = M" "inodes s' = I" "v_held (view s') = v_held (view s)" "l_start s' = l_start s"
    "holds s j c \<Longrightarrow> holds s' j c" "v_disk (view s') = v_disk (view s)" "v_pinned (view s) \<subseteq> v_pinned (view s')"
    "istate.more s' = istate.more s"
  using assms by (auto simp: fs_step_def)

end
