(* ===== verification/Fs_Dir.thy ===== *)
theory Fs_Dir
  imports Fs_Inode Kstring
begin

text \<open>
  Directories and path names of \<^verbatim>\<open>kernel/fs.c\<close>: \<^verbatim>\<open>namecmp\<close>, \<^verbatim>\<open>dirlookup\<close>, \<^verbatim>\<open>dirlink\<close>, \<^verbatim>\<open>skipelem\<close>, \<^verbatim>\<open>namex\<close>,
  \<^verbatim>\<open>namei\<close> and \<^verbatim>\<open>nameiparent\<close>.  A path is the list of its bytes up to the NUL; the buffer \<^verbatim>\<open>name\<close> is the
  list of its \<^term>\<open>DIRSIZ\<close> bytes.
\<close>

section \<open>The code\<close>

text \<open>What a pointer to the bytes of a list sees: the bytes, then the NUL.\<close>

definition cstr :: "byte list \<Rightarrow> nat \<Rightarrow> byte" where
  "cstr xs i = (if i < length xs then xs ! i else 0)"

definition namecmp :: "(nat \<Rightarrow> byte) \<Rightarrow> (nat \<Rightarrow> byte) \<Rightarrow> int" where
  "namecmp s t = strncmp s t DIRSIZ"

text \<open>\<^verbatim>\<open>struct dirent\<close> as bytes; the name field is filled by \<^verbatim>\<open>strncpy\<close> from the string at \<open>p\<close>.\<close>

definition dirent_inum :: "byte list \<Rightarrow> nat" where
  "dirent_inum de = get16 de 0"

definition name_field :: "(nat \<Rightarrow> byte) \<Rightarrow> byte list" where
  "name_field p = map (strncpy 0 DIRSIZ DIRSIZ (\<lambda>a. if a < DIRSIZ then 0 else p (a - DIRSIZ))) [0..<DIRSIZ]"

definition mk_dirent :: "nat \<Rightarrow> (nat \<Rightarrow> byte) \<Rightarrow> byte list" where
  "mk_dirent inum name = put16 (replicate 2 0) 0 inum @ name_field name"

text \<open>The offsets \<^verbatim>\<open>for(off = 0; off < dp->size; off += sizeof(de))\<close> runs through.\<close>

definition dir_offsets :: "nat \<Rightarrow> nat list" where
  "dir_offsets sz = map (\<lambda>j. j * DIRENT_SIZE) [0..<(sz + DIRENT_SIZE - 1) div DIRENT_SIZE]"

fun dirlookup_loop :: "'z devsw \<Rightarrow> nat \<Rightarrow> (nat \<Rightarrow> byte) \<Rightarrow> nat list \<Rightarrow> 'z istate_scheme
    \<Rightarrow> ((nat \<times> nat) option \<times> 'z istate_scheme) res" where
  "dirlookup_loop devsw dp name [] s = Ok (None, s)"
| "dirlookup_loop devsw dp name (off # offs) s =
     rbind (readi devsw dp off DIRENT_SIZE s) (\<lambda>(r, de, s).
     if r \<noteq> int DIRENT_SIZE then Panic ''dirlink read''
     else if dirent_inum de = 0 then dirlookup_loop devsw dp name offs s
     else if namecmp name (cstr (drop 2 de)) = 0
       then rbind (iget (i_dev (inodes s dp)) (dirent_inum de) s) (\<lambda>(ip, s). Ok (Some (ip, off), s))
     else dirlookup_loop devsw dp name offs s)"

definition dirlookup :: "'z devsw \<Rightarrow> nat \<Rightarrow> (nat \<Rightarrow> byte) \<Rightarrow> 'z istate_scheme
    \<Rightarrow> ((nat \<times> nat) option \<times> 'z istate_scheme) res" where
  "dirlookup devsw dp name s =
     (if i_type (inodes s dp) \<noteq> T_DIR then Panic ''dirlookup not DIR''
      else dirlookup_loop devsw dp name (dir_offsets (i_size (inodes s dp))) s)"

fun dirlink_loop :: "'z devsw \<Rightarrow> nat \<Rightarrow> nat list \<Rightarrow> nat \<Rightarrow> 'z istate_scheme \<Rightarrow> (nat \<times> 'z istate_scheme) res" where
  "dirlink_loop devsw dp [] end_off s = Ok (end_off, s)"
| "dirlink_loop devsw dp (off # offs) end_off s =
     rbind (readi devsw dp off DIRENT_SIZE s) (\<lambda>(r, de, s).
     if r \<noteq> int DIRENT_SIZE then Panic ''dirlink read''
     else if dirent_inum de = 0 then Ok (off, s)
     else dirlink_loop devsw dp offs end_off s)"

definition dirlink :: "'z devsw \<Rightarrow> nat \<Rightarrow> (nat \<Rightarrow> byte) \<Rightarrow> nat \<Rightarrow> 'z istate_scheme \<Rightarrow> (int \<times> 'z istate_scheme) res" where
  "dirlink devsw dp name inum s =
     rbind (dirlookup devsw dp name s) (\<lambda>(r, s).
     case r of
       Some (ip, _) \<Rightarrow> rbind (iput ip s) (\<lambda>s. Ok (-1, s))
     | None \<Rightarrow>
         let offs = dir_offsets (i_size (inodes s dp))
         in rbind (dirlink_loop devsw dp offs (length offs * DIRENT_SIZE) s) (\<lambda>(off, s).
            rbind (writei devsw dp (mk_dirent inum name) off s) (\<lambda>(r, s).
            if r \<noteq> int DIRENT_SIZE then Panic ''dirlink'' else Ok (0, s))))"

definition skipelem :: "byte list \<Rightarrow> byte list \<Rightarrow> (byte list \<times> byte list) option" where
  "skipelem path name =
     (let path = dropWhile (\<lambda>c. c = 47) path
      in if path = [] then None
         else
           let s = takeWhile (\<lambda>c. c \<noteq> 47) path; path = dropWhile (\<lambda>c. c \<noteq> 47) path; len = length s;
               name = (if DIRSIZ \<le> len then take DIRSIZ s else splice name 0 (s @ [0]))
           in Some (dropWhile (\<lambda>c. c = 47) path, name))"

lemma length_dropWhile_less: "xs \<noteq> [] \<Longrightarrow> P (hd xs) \<Longrightarrow> length (dropWhile P xs) < length xs"
  by (cases xs) (auto simp: length_dropWhile_le less_Suc_eq_le)

lemma skipelem_shorter: "skipelem path name = Some (p, n) \<Longrightarrow> length p < length path"
proof -
  assume "skipelem path name = Some (p, n)"
  then have ne: "dropWhile (\<lambda>c. c = 47) path \<noteq> []"
    and p: "p = dropWhile (\<lambda>c. c = 47) (dropWhile (\<lambda>c. c \<noteq> 47) (dropWhile (\<lambda>c. c = 47) path))"
    by (auto simp: skipelem_def Let_def split: if_split_asm)
  have "hd (dropWhile (\<lambda>c. c = 47) path) \<noteq> 47" using hd_dropWhile [OF ne] .
  then have "length (dropWhile (\<lambda>c. c \<noteq> 47) (dropWhile (\<lambda>c. c = 47) path)) < length (dropWhile (\<lambda>c. c = 47) path)"
    using ne by (intro length_dropWhile_less) auto
  then show ?thesis
    unfolding p using length_dropWhile_le [of "\<lambda>c. c = 47" path]
      length_dropWhile_le [of "\<lambda>c. c = 47" "dropWhile (\<lambda>c. c \<noteq> 47) (dropWhile (\<lambda>c. c = 47) path)"]
    by linarith
qed

function namex_loop :: "'z devsw \<Rightarrow> bool \<Rightarrow> nat \<Rightarrow> byte list \<Rightarrow> byte list \<Rightarrow> 'z istate_scheme
    \<Rightarrow> (nat option \<times> byte list \<times> 'z istate_scheme) res" where
  "namex_loop devsw nameiparent ip path name s =
     (case skipelem path name of
        None \<Rightarrow>
          if nameiparent then rbind (iput ip s) (\<lambda>s. Ok (None, name, s)) else Ok (Some ip, name, s)
      | Some (path, name) \<Rightarrow>
          rbind (ilock ip s) (\<lambda>s.
          if i_type (inodes s ip) \<noteq> T_DIR then rbind (iunlockput ip s) (\<lambda>s. Ok (None, name, s))
          else if nameiparent \<and> path = [] then rbind (iunlock ip s) (\<lambda>s. Ok (Some ip, name, s))
          else
            rbind (dirlookup devsw ip (cstr name) s) (\<lambda>(r, s).
            case r of
              None \<Rightarrow> rbind (iunlockput ip s) (\<lambda>s. Ok (None, name, s))
            | Some (next, _) \<Rightarrow>
                rbind (iunlockput ip s) (namex_loop devsw nameiparent next path name))))"
  by pat_completeness auto
termination
  by (relation "measure (\<lambda>(d, np, ip, path, name, s). length path)") (auto dest: skipelem_shorter)

declare namex_loop.simps [simp del]

definition namex :: "'z devsw \<Rightarrow> nat \<Rightarrow> byte list \<Rightarrow> bool \<Rightarrow> byte list \<Rightarrow> 'z istate_scheme
    \<Rightarrow> (nat option \<times> byte list \<times> 'z istate_scheme) res" where
  "namex devsw cwd path nameiparent name s =
     rbind (if path \<noteq> [] \<and> hd path = 47 then iget ROOTDEV ROOTINO s else Ok (cwd, idup cwd s)) (\<lambda>(ip, s).
     namex_loop devsw nameiparent ip path name s)"

definition namei :: "'z devsw \<Rightarrow> nat \<Rightarrow> byte list \<Rightarrow> 'z istate_scheme \<Rightarrow> (nat option \<times> 'z istate_scheme) res" where
  "namei devsw cwd path s =
     rbind (namex devsw cwd path False (replicate DIRSIZ 0) s) (\<lambda>(ip, _, s). Ok (ip, s))"

definition nameiparent :: "'z devsw \<Rightarrow> nat \<Rightarrow> byte list \<Rightarrow> byte list \<Rightarrow> 'z istate_scheme
    \<Rightarrow> (nat option \<times> byte list \<times> 'z istate_scheme) res" where
  "nameiparent devsw cwd path name s = namex devsw cwd path True name s"

end
