(* ===== verification/Fs_Frame.thy ===== *)
theory Fs_Frame
  imports Fs_Dir
begin

text \<open>
  What the operations of the file system leave alone: the part of the kernel's state beyond the inode cache (the
  table of files, the processes).  An operation of the block level also leaves the cached inodes alone.
\<close>

section \<open>Blocks and log\<close>

lemma more_b: "bstate.more s' = bstate.more s \<Longrightarrow> lstate.more s' = lstate.more s"
  by (cases s; cases s'; simp)

lemma lmore_log [simp]:
  "lstate.more (s\<lparr>l_outstanding := a\<rparr>) = lstate.more s" "lstate.more (s\<lparr>l_committing := b\<rparr>) = lstate.more s"
  "lstate.more (s\<lparr>lh_n := c\<rparr>) = lstate.more s" "lstate.more (s\<lparr>lh_block := d\<rparr>) = lstate.more s"
  by (cases s; simp)+

lemma bread_lmore [frame]: "bread dev b s = Ok (i, s') \<Longrightarrow> lstate.more s' = lstate.more s"
  using bread_more more_b by blast

lemma brelse_lmore [frame]: "brelse i s = Ok s' \<Longrightarrow> lstate.more s' = lstate.more s"
  using brelse_more more_b by blast

lemma setdata_lmore [simp]: "lstate.more (setdata i d s) = lstate.more s" "lstate.more (pin i s) = lstate.more s"
  by (rule more_b, simp)+

lemma log_write_lmore [frame]: "log_write i s = Ok s' \<Longrightarrow> lstate.more s' = lstate.more s"
  by (auto simp: log_write_def Let_def split: if_split_asm)

lemma begin_op_lmore [frame]: "begin_op s = Ok s' \<Longrightarrow> lstate.more s' = lstate.more s"
  by (auto simp: begin_op_def split: if_split_asm)

lemma commit_lmore [frame]: "commit s = Ok s' \<Longrightarrow> lstate.more s' = lstate.more s"
  using more_b [OF commit_more, of s s'] by (simp split: if_split_asm)

lemma end_op_lmore [frame]: "end_op s = Ok s' \<Longrightarrow> lstate.more s' = lstate.more s"
  by (auto simp: end_op_def Let_def elim!: rbind_OkE split: if_split_asm dest!: commit_lmore)

lemma readsb_lmore [frame]: "readsb dev s = Ok (sb, s') \<Longrightarrow> lstate.more s' = lstate.more s"
  by (auto simp: readsb_def Let_def elim!: rbind_OkE dest!: bread_lmore brelse_lmore)

lemma bzero_lmore [frame]: "bzero dev b s = Ok s' \<Longrightarrow> lstate.more s' = lstate.more s"
  by (auto simp: bzero_def Let_def elim!: rbind_OkE dest!: bread_lmore brelse_lmore log_write_lmore)

lemma balloc_loop_lmore: "balloc_loop dev sb bs s = Ok (b, s') \<Longrightarrow> lstate.more s' = lstate.more s"
proof (induction dev sb bs s rule: balloc_loop.induct)
  case (2 dev sb b bs s)
  show ?case
    using 2(2) 2(1)
    by (auto elim!: rbind_OkE split: option.split_asm dest!: bread_lmore brelse_lmore log_write_lmore bzero_lmore)
qed simp

lemma balloc_lmore [frame]: "balloc dev s = Ok (b, s') \<Longrightarrow> lstate.more s' = lstate.more s"
  by (auto simp: balloc_def elim!: rbind_OkE dest!: readsb_lmore balloc_loop_lmore)

lemma bfree_lmore [frame]: "bfree dev b s = Ok s' \<Longrightarrow> lstate.more s' = lstate.more s"
  by (auto simp: bfree_def Let_def elim!: rbind_OkE split: if_split_asm dest!: readsb_lmore bread_lmore brelse_lmore log_write_lmore)

lemmas block_lmore = bread_lmore brelse_lmore log_write_lmore begin_op_lmore end_op_lmore readsb_lmore bzero_lmore
  balloc_lmore bfree_lmore

section \<open>Inodes\<close>

text \<open>The same for what lies beyond the inode cache.\<close>

lemmas block_imore = block_lmore [THEN same_inodes(2)]
lemmas block_inodes = block_lmore [THEN same_inodes(1)]

lemma setdata_imore [simp]: "istate.more (setdata i d s) = istate.more s" "inodes (setdata i d s) = inodes s"
  by (rule same_inodes, simp)+

lemma set_addr_imore [simp]: "istate.more (set_addr k i a s) = istate.more s"
  by (simp add: set_addr_def)

lemma iget_imore [frame]: "iget dev inum s = Ok (k, s') \<Longrightarrow> istate.more s' = istate.more s"
  by (auto simp: iget_def split: option.split_asm)

lemma idup_imore [simp]: "istate.more (idup k s) = istate.more s"
  by (simp add: idup_def)

lemma ilock_imore [frame]: "ilock k s = Ok s' \<Longrightarrow> istate.more s' = istate.more s"
  by (auto simp: ilock_def Let_def elim!: rbind_OkE split: if_split_asm dest!: block_imore)

lemma iunlock_imore [frame]: "iunlock k s = Ok s' \<Longrightarrow> istate.more s' = istate.more s"
  by (auto simp: iunlock_def split: if_split_asm)

lemma iupdate_imore [frame]: "iupdate k s = Ok s' \<Longrightarrow> istate.more s' = istate.more s"
  by (auto simp: iupdate_def elim!: rbind_OkE dest!: block_imore)

lemma ialloc_loop_imore: "ialloc_loop dev type is s = Ok (k, s') \<Longrightarrow> istate.more s' = istate.more s"
proof (induction dev type "is" s rule: ialloc_loop.induct)
  case (2 dev type inum rest s)
  show ?case
    using 2(2) 2(1) by (auto elim!: rbind_OkE split: if_split_asm dest!: block_imore iget_imore)
qed simp

lemma ialloc_imore [frame]: "ialloc dev type s = Ok (k, s') \<Longrightarrow> istate.more s' = istate.more s"
  by (auto simp: ialloc_def elim!: rbind_OkE dest!: block_imore ialloc_loop_imore)

lemma addr_or_alloc_imore [frame]: "addr_or_alloc k i s = Ok (a, s') \<Longrightarrow> istate.more s' = istate.more s"
  by (auto simp: addr_or_alloc_def Let_def elim!: rbind_OkE split: if_split_asm dest!: block_imore)

lemma bmap_imore [frame]: "bmap k bn s = Ok (a, s') \<Longrightarrow> istate.more s' = istate.more s"
  by (auto simp: bmap_def Let_def elim!: rbind_OkE split: if_split_asm dest!: block_imore addr_or_alloc_imore)

lemma itrunc_imore [frame]: "itrunc k s = Ok s' \<Longrightarrow> istate.more s' = istate.more s"
proof -
  assume "itrunc k s = Ok s'"
  moreover have "itrunc_direct k i s = Ok t \<Longrightarrow> istate.more t = istate.more s" for i s t
    by (auto simp: itrunc_direct_def elim!: rbind_OkE split: if_split_asm dest!: block_imore)
  note d = for_each_frame [of "itrunc_direct k" _ _ _ istate.more, OF _ this]
  moreover have "itrunc_indirect k bp j s = Ok t \<Longrightarrow> istate.more t = istate.more s" for bp j s t
    by (auto simp: itrunc_indirect_def Let_def split: if_split_asm dest!: block_imore)
  note i = for_each_frame [of "itrunc_indirect k bp" _ _ _ istate.more for bp, OF _ this]
  ultimately show ?thesis
    by (auto simp: itrunc_def elim!: rbind_OkE split: if_split_asm dest!: block_imore iupdate_imore d i)
qed

lemma iput_imore [frame]: "iput k s = Ok s' \<Longrightarrow> istate.more s' = istate.more s"
  by (auto simp: iput_def elim!: rbind_OkE split: if_split_asm dest!: itrunc_imore iupdate_imore)

lemma iunlockput_imore [frame]: "iunlockput k s = Ok s' \<Longrightarrow> istate.more s' = istate.more s"
  by (auto simp: iunlockput_def elim!: rbind_OkE dest!: iunlock_imore iput_imore)

end
