(* ===== verification/Ring.thy ===== *)
theory Ring
  imports Prelude
begin

text \<open>
  Circular buffers indexed by free-running 32-bit counters, as in \<^verbatim>\<open>kernel/pipe.c\<close> and \<^verbatim>\<open>kernel/console.c\<close>.  The
  counters wrap around at \<open>2 ^ 32\<close>; since the buffer size divides \<open>2 ^ 32\<close>, the positions do not jump there.
\<close>

definition ring_contents :: "nat \<Rightarrow> 'a list \<Rightarrow> 32 word \<Rightarrow> 32 word \<Rightarrow> 'a list" where
  "ring_contents N buf r w = map (\<lambda>i. buf ! (unat (r + of_nat i) mod N)) [0..<unat (w - r)]"

lemma length_ring [simp]: "length (ring_contents N buf r w) = unat (w - r)"
  by (simp add: ring_contents_def)

lemma ring_empty: "ring_contents N buf r w = [] \<longleftrightarrow> r = w"
  by (auto simp: ring_contents_def unat_eq_zero)

locale ring =
  fixes N :: nat
  assumes size_pos: "0 < N" and size_less: "N < 2 ^ 32" and size_dvd: "N dvd 2 ^ 32"
begin

lemma index_add: "unat (r + of_nat i :: 32 word) mod N = (unat r + i) mod N"
proof -
  have "unat (r + of_nat i :: 32 word) = (unat r + i) mod 2 ^ 32"
    by (simp add: unat_word_ariths unat_of_nat mod_add_right_eq)
  then show ?thesis using size_dvd by (simp add: mod_mod_cancel)
qed

lemma index_inj_le: "i \<le> j \<Longrightarrow> j < N \<Longrightarrow> (a + i) mod N = (a + j) mod N \<Longrightarrow> i = j"
proof -
  assume ij: "i \<le> j" "j < N" "(a + i) mod N = (a + j) mod N"
  then have "N dvd (a + j) - (a + i)" using mod_eq_dvd_iff_nat [of "a + i" "a + j" N] by simp
  then show "i = j" using ij by (auto dest: dvd_imp_le)
qed

lemma index_inj: "i < N \<Longrightarrow> j < N \<Longrightarrow> (a + i) mod N = (a + j) mod N \<Longrightarrow> i = j"
  using index_inj_le [of i j a] index_inj_le [of j i a] by (cases "i \<le> j") auto

lemma unat_succ:
  assumes "unat (w - r :: 32 word) < N"
  shows "unat (w + 1 - r) = Suc (unat (w - r))"
proof -
  have "w + 1 - r = (w - r) + 1" by simp
  then have "unat (w + 1 - r) = (unat (w - r) + 1) mod 2 ^ 32" by (simp only: unat_word_ariths) simp
  then show ?thesis using assms size_less by simp
qed

text \<open>Storing at the write counter appends, and reading at the read counter takes the oldest element.\<close>

lemma put:
  assumes "unat (w - r) < N" and "length buf = N"
  shows "ring_contents N (buf[unat w mod N := x]) r (w + 1) = ring_contents N buf r w @ [x]"
proof -
  let ?n = "unat (w - r)"
  have w: "unat w mod N = (unat r + ?n) mod N" using index_add [of r ?n] by simp
  have "unat (r + of_nat i) mod N \<noteq> unat w mod N" if "i < ?n" for i
    using that assms(1) index_inj [of i ?n "unat r"] unfolding w index_add by auto
  then have "buf[unat w mod N := x] ! (unat (r + of_nat i) mod N) = buf ! (unat (r + of_nat i) mod N)" if "i < ?n" for i
    using that by (metis nth_list_update_neq)
  moreover have "buf[unat w mod N := x] ! (unat (r + of_nat ?n) mod N) = x"
    using assms(2) size_pos by simp
  ultimately show ?thesis
    unfolding ring_contents_def unat_succ [OF assms(1)] by simp
qed

lemma get:
  assumes "r \<noteq> w"
  shows "ring_contents N buf r w = buf ! (unat r mod N) # ring_contents N buf (r + 1) w"
proof -
  have "0 < unat (w - r)" using assms by (simp add: unat_gt_0)
  moreover have "unat (w - (r + 1)) = unat (w - r) - 1"
  proof -
    have "w - (r + 1) = (w - r) - 1" by simp
    moreover have "w - r \<noteq> 0" using assms by simp
    ultimately show ?thesis using unat_minus_one [of "w - r"] by metis
  qed
  ultimately have n: "unat (w - r) = Suc (unat (w - (r + 1)))" by simp
  have "[0..<Suc n] = 0 # map Suc [0..<n]" for n by (simp add: upt_conv_Cons map_Suc_upt del: upt_Suc)
  then show ?thesis unfolding ring_contents_def n by (simp add: add.assoc)
qed

end

end
