(* ===== verification/Pipe.thy ===== *)
theory Pipe
  imports Ring
begin

text \<open>
  \<^verbatim>\<open>kernel/pipe.c\<close>.  A call runs under the pipe's lock until it returns or sleeps; \<^verbatim>\<open>sleep\<close> releases the lock, and a
  call that is woken up continues where it slept.  (\<^verbatim>\<open>pipealloc\<close>, which also allocates the two files, is in the
  theory of the file table.)
\<close>

section \<open>The code\<close>

definition PIPESIZE :: nat where "PIPESIZE = 512"

record pipe =
  p_data :: "byte list"
  nread :: "32 word"
  nwrite :: "32 word"
  readopen :: bool
  writeopen :: bool

text \<open>
  How a run of a call ends: it returns a number, or it sleeps, having done its loop up to an index.  The flag
  next to it says that the run has called \<^verbatim>\<open>wakeup\<close> for the other end.
\<close>

datatype progress = Returned int | Slept nat

text \<open>\<^verbatim>\<open>p->data[p->nwrite++ % PIPESIZE] = c\<close>\<close>

definition pipe_put :: "byte \<Rightarrow> pipe \<Rightarrow> pipe" where
  "pipe_put c p = p\<lparr>p_data := (p_data p)[unat (nwrite p) mod PIPESIZE := c], nwrite := nwrite p + 1\<rparr>"

fun pipewrite_loop :: "bool \<Rightarrow> int \<Rightarrow> byte list \<Rightarrow> nat \<Rightarrow> pipe \<Rightarrow> progress \<times> bool \<times> pipe" where
  "pipewrite_loop killed n [] i p = (Returned n, True, p)"
| "pipewrite_loop killed n (c # cs) i p =
     (if nwrite p = nread p + of_nat PIPESIZE then
        if \<not> readopen p \<or> killed then (Returned (-1), False, p) else (Slept i, True, p)
      else pipewrite_loop killed n cs (Suc i) (pipe_put c p))"

text \<open>\<^verbatim>\<open>pipewrite\<close> from index \<open>i\<close> on: 0 at the call, later the index where it slept.\<close>

definition pipewrite :: "bool \<Rightarrow> byte list \<Rightarrow> int \<Rightarrow> nat \<Rightarrow> pipe \<Rightarrow> progress \<times> bool \<times> pipe" where
  "pipewrite killed addr n i p = pipewrite_loop killed n (drop i (take (nat n) addr)) i p"

fun piperead_loop :: "nat \<Rightarrow> pipe \<Rightarrow> byte list \<times> pipe" where
  "piperead_loop 0 p = ([], p)"
| "piperead_loop (Suc n) p =
     (if nread p = nwrite p then ([], p)
      else
        let c = p_data p ! (unat (nread p) mod PIPESIZE);
            (cs, p) = piperead_loop n (p\<lparr>nread := nread p + 1\<rparr>)
        in (c # cs, p))"

definition piperead :: "bool \<Rightarrow> int \<Rightarrow> pipe \<Rightarrow> progress \<times> byte list \<times> bool \<times> pipe" where
  "piperead killed n p =
     (if nread p = nwrite p \<and> writeopen p then
        if killed then (Returned (-1), [], False, p) else (Slept 0, [], False, p)
      else
        let (cs, p) = piperead_loop (nat n) p in (Returned (int (length cs)), cs, True, p))"

text \<open>Both ends closed: the page of the pipe is freed (the result).\<close>

definition pipeclose :: "bool \<Rightarrow> pipe \<Rightarrow> bool \<times> pipe" where
  "pipeclose writable p =
     (let p = (if writable then p\<lparr>writeopen := False\<rparr> else p\<lparr>readopen := False\<rparr>)
      in (\<not> readopen p \<and> \<not> writeopen p, p))"

text \<open>What \<^verbatim>\<open>pipealloc\<close> sets in the fresh page.\<close>

definition pipe_init :: "pipe \<Rightarrow> pipe" where
  "pipe_init p = p\<lparr>readopen := True, writeopen := True, nwrite := 0, nread := 0\<rparr>"

section \<open>A pipe is a bounded queue of bytes\<close>

definition pipe_queue :: "pipe \<Rightarrow> byte list" where
  "pipe_queue p = ring_contents PIPESIZE (p_data p) (nread p) (nwrite p)"

definition pipe_ok :: "pipe \<Rightarrow> bool" where
  "pipe_ok p \<longleftrightarrow> length (p_data p) = PIPESIZE \<and> unat (nwrite p - nread p) \<le> PIPESIZE"

interpretation pr: ring PIPESIZE
  by unfold_locales (simp_all add: PIPESIZE_def)

lemma pipe_full_iff: "nwrite p = nread p + of_nat PIPESIZE \<longleftrightarrow> length (pipe_queue p) = PIPESIZE"
proof -
  have "nwrite p = nread p + of_nat PIPESIZE \<longleftrightarrow> nwrite p - nread p = of_nat PIPESIZE" by (auto simp: algebra_simps)
  also have "\<dots> \<longleftrightarrow> unat (nwrite p - nread p) = PIPESIZE"
    by (auto simp: PIPESIZE_def word_unat_eq_iff)
  finally show ?thesis by (simp add: pipe_queue_def)
qed

lemma pipe_empty_iff: "nread p = nwrite p \<longleftrightarrow> pipe_queue p = []"
  by (simp add: pipe_queue_def ring_empty)

lemma pipe_put_ok:
  assumes "pipe_ok p" and "length (pipe_queue p) \<noteq> PIPESIZE"
  shows "pipe_ok (pipe_put c p)" "pipe_queue (pipe_put c p) = pipe_queue p @ [c]"
    "readopen (pipe_put c p) = readopen p" "writeopen (pipe_put c p) = writeopen p" "nread (pipe_put c p) = nread p"
proof -
  have n: "unat (nwrite p - nread p) < PIPESIZE" using assms by (simp add: pipe_ok_def pipe_queue_def)
  show "pipe_ok (pipe_put c p)" using pr.unat_succ [OF n] n assms(1) by (simp add: pipe_ok_def pipe_put_def)
  show "pipe_queue (pipe_put c p) = pipe_queue p @ [c]"
    using pr.put [OF n, of "p_data p" c] assms(1) by (simp add: pipe_queue_def pipe_put_def pipe_ok_def)
qed (simp_all add: pipe_put_def)

text \<open>What a run of \<^verbatim>\<open>pipewrite\<close> does to the queue, in terms of the bytes that are left and the room.\<close>

lemma pipewrite_loop_ok:
  assumes "pipe_ok p"
  shows "\<exists>p'. pipe_ok p' \<and> readopen p' = readopen p \<and> writeopen p' = writeopen p \<and> nread p' = nread p
    \<and> pipe_queue p' = pipe_queue p @ take (PIPESIZE - length (pipe_queue p)) cs
    \<and> pipewrite_loop killed n cs i p =
        (if length cs \<le> PIPESIZE - length (pipe_queue p) then (Returned n, True, p')
         else if \<not> readopen p \<or> killed then (Returned (-1), False, p')
         else (Slept (i + (PIPESIZE - length (pipe_queue p))), True, p'))"
  using assms
proof (induction cs arbitrary: i p)
  case Nil
  then show ?case by auto
next
  case (Cons c cs)
  have le: "length (pipe_queue p) \<le> PIPESIZE" using Cons.prems by (simp add: pipe_ok_def pipe_queue_def)
  show ?case
  proof (cases "length (pipe_queue p) = PIPESIZE")
    case True
    then show ?thesis using Cons.prems pipe_full_iff [of p] by auto
  next
    case False
    note put = pipe_put_ok [OF Cons.prems False, of c]
    have lt: "length (pipe_queue p) < PIPESIZE" using le False by simp
    from Cons.IH [OF put(1), of "Suc i"] show ?thesis
      using False lt pipe_full_iff [of p] put(2-5)
      by (auto simp: Suc_diff_Suc [symmetric] take_Cons' simp del: length_0_conv)
  qed
qed

lemma piperead_loop_ok:
  assumes "pipe_ok p"
  shows "pipe_ok (snd (piperead_loop n p)) \<and> fst (piperead_loop n p) = take n (pipe_queue p)
    \<and> pipe_queue (snd (piperead_loop n p)) = drop n (pipe_queue p)
    \<and> readopen (snd (piperead_loop n p)) = readopen p \<and> writeopen (snd (piperead_loop n p)) = writeopen p"
  using assms
proof (induction n arbitrary: p)
  case (Suc n)
  show ?case
  proof (cases "nread p = nwrite p")
    case True
    then show ?thesis using Suc.prems pipe_empty_iff [of p] by simp
  next
    case False
    let ?p = "p\<lparr>nread := nread p + 1\<rparr>"
    have q: "pipe_queue p = p_data p ! (unat (nread p) mod PIPESIZE) # pipe_queue ?p"
      using pr.get [OF False] by (simp add: pipe_queue_def)
    then have "pipe_ok ?p" using Suc.prems by (auto simp: pipe_ok_def pipe_queue_def dest: arg_cong [of _ _ length])
    from Suc.IH [OF this] show ?thesis using False q by (simp add: case_prod_beta)
  qed
qed simp


section \<open>A writer and a reader\<close>

text \<open>
  One process at each end.  \<open>ps_w\<close> is the call of the writer, if any: its buffer and count, the index it has
  reached and whether it sleeps; \<open>ps_r\<close> is that of the reader.  \<open>ps_sent\<close> and \<open>ps_got\<close> record the bytes the calls
  have put into and taken out of the pipe, \<open>ps_dead\<close> that a call of the writer has failed because it was killed.
\<close>

record psys =
  ps_pipe :: pipe
  ps_w :: "(byte list \<times> int \<times> nat \<times> bool) option"
  ps_r :: "(int \<times> bool) option"
  ps_sent :: "byte list"
  ps_got :: "byte list"
  ps_dead :: bool

definition wake_w :: "bool \<Rightarrow> (byte list \<times> int \<times> nat \<times> bool) option \<Rightarrow> (byte list \<times> int \<times> nat \<times> bool) option" where
  "wake_w woke w = map_option (\<lambda>(addr, n, i, asleep). (addr, n, i, asleep \<and> \<not> woke)) w"

definition wake_r :: "bool \<Rightarrow> (int \<times> bool) option \<Rightarrow> (int \<times> bool) option" where
  "wake_r woke r = map_option (\<lambda>(n, asleep). (n, asleep \<and> \<not> woke)) r"

inductive pipe_step :: "psys \<Rightarrow> psys \<Rightarrow> bool" where
  w_call: "ps_w S = None \<Longrightarrow> writeopen (ps_pipe S) \<Longrightarrow> pipe_step S (S\<lparr>ps_w := Some (addr, n, 0, False)\<rparr>)"
| w_run: "ps_w S = Some (addr, n, i, False) \<Longrightarrow> pipewrite killed addr n i (ps_pipe S) = (res, woke, p) \<Longrightarrow>
    pipe_step S (S\<lparr>ps_pipe := p,
      ps_w := (case res of Returned _ \<Rightarrow> None | Slept j \<Rightarrow> Some (addr, n, j, True)),
      ps_r := wake_r woke (ps_r S),
      ps_sent := ps_sent S @ take (unat (nwrite p - nwrite (ps_pipe S))) (drop i (take (nat n) addr)),
      ps_dead := (ps_dead S \<or> killed \<and> res = Returned (-1))\<rparr>)"
| r_call: "ps_r S = None \<Longrightarrow> readopen (ps_pipe S) \<Longrightarrow> pipe_step S (S\<lparr>ps_r := Some (n, False)\<rparr>)"
| r_run: "ps_r S = Some (n, False) \<Longrightarrow> piperead killed n (ps_pipe S) = (res, cs, woke, p) \<Longrightarrow>
    pipe_step S (S\<lparr>ps_pipe := p,
      ps_r := (case res of Returned _ \<Rightarrow> None | Slept _ \<Rightarrow> Some (n, True)),
      ps_w := wake_w woke (ps_w S), ps_got := ps_got S @ cs\<rparr>)"
| w_close: "ps_w S = None \<Longrightarrow> pipeclose True (ps_pipe S) = (freed, p) \<Longrightarrow>
    pipe_step S (S\<lparr>ps_pipe := p, ps_r := wake_r True (ps_r S)\<rparr>)"
| r_close: "ps_r S = None \<Longrightarrow> pipeclose False (ps_pipe S) = (freed, p) \<Longrightarrow>
    pipe_step S (S\<lparr>ps_pipe := p, ps_w := wake_w True (ps_w S)\<rparr>)"

definition w_asleep :: "psys \<Rightarrow> bool" where
  "w_asleep S \<longleftrightarrow> (\<exists>addr n i. ps_w S = Some (addr, n, i, True))"

definition r_asleep :: "psys \<Rightarrow> bool" where
  "r_asleep S \<longleftrightarrow> (\<exists>n. ps_r S = Some (n, True))"

definition psys_inv :: "psys \<Rightarrow> bool" where
  "psys_inv S \<longleftrightarrow> pipe_ok (ps_pipe S) \<and> ps_sent S = ps_got S @ pipe_queue (ps_pipe S)
     \<and> (w_asleep S \<longrightarrow> length (pipe_queue (ps_pipe S)) = PIPESIZE \<and> readopen (ps_pipe S))
     \<and> (r_asleep S \<longrightarrow> (pipe_queue (ps_pipe S) = [] \<or> ps_dead S) \<and> writeopen (ps_pipe S))
     \<and> (ps_w S \<noteq> None \<longrightarrow> writeopen (ps_pipe S)) \<and> (ps_r S \<noteq> None \<longrightarrow> readopen (ps_pipe S))"

lemma asleep_wake [simp]:
  "w_asleep (S\<lparr>ps_w := wake_w woke (ps_w S)\<rparr>) \<longleftrightarrow> w_asleep S \<and> \<not> woke"
  "r_asleep (S\<lparr>ps_r := wake_r woke (ps_r S)\<rparr>) \<longleftrightarrow> r_asleep S \<and> \<not> woke"
  by (auto simp: w_asleep_def r_asleep_def wake_w_def wake_r_def)

text \<open>The number of bytes a run of the writer has stored, from the write counter.\<close>

lemma stored_count:
  assumes "nread p' = nread p" and "pipe_queue p' = pipe_queue p @ cs"
  shows "unat (nwrite p' - nwrite p) = length cs"
proof -
  have l: "unat (nwrite p' - nread p) = unat (nwrite p - nread p) + length cs"
    using arg_cong [OF assms(2), of length] assms(1) by (simp add: pipe_queue_def)
  have "nwrite p' - nwrite p = (nwrite p' - nread p) - (nwrite p - nread p)" by simp
  also have "unat \<dots> = unat (nwrite p' - nread p) - unat (nwrite p - nread p)"
    using l by (intro unat_sub) (simp add: word_le_nat_alt)
  finally show ?thesis using l by simp
qed

lemma writer_run_inv:
  assumes S: "psys_inv S" and w: "ps_w S = Some (addr, n, i, False)"
    and r: "pipewrite killed addr n i (ps_pipe S) = (res, woke, p)"
  shows "psys_inv (S\<lparr>ps_pipe := p, ps_w := (case res of Returned _ \<Rightarrow> None | Slept j \<Rightarrow> Some (addr, n, j, True)),
      ps_r := wake_r woke (ps_r S),
      ps_sent := ps_sent S @ take (unat (nwrite p - nwrite (ps_pipe S))) (drop i (take (nat n) addr)),
      ps_dead := (ps_dead S \<or> killed \<and> res = Returned (-1))\<rparr>)"
proof -
  let ?q = "pipe_queue (ps_pipe S)" and ?cs = "drop i (take (nat n) addr)"
  have ok: "pipe_ok (ps_pipe S)" using S by (simp add: psys_inv_def)
  then have le: "length ?q \<le> PIPESIZE" by (simp add: pipe_ok_def pipe_queue_def)
  have p: "pipe_ok p" "readopen p = readopen (ps_pipe S)" "writeopen p = writeopen (ps_pipe S)"
      "nread p = nread (ps_pipe S)" "pipe_queue p = ?q @ take (PIPESIZE - length ?q) ?cs"
      "(res, woke) = (if length ?cs \<le> PIPESIZE - length ?q then (Returned n, True)
         else if \<not> readopen (ps_pipe S) \<or> killed then (Returned (-1), False)
         else (Slept (i + (PIPESIZE - length ?q)), True))"
    using pipewrite_loop_ok [OF ok, of ?cs killed n i] r by (auto simp: pipewrite_def split: if_split_asm)
  have st: "take (unat (nwrite p - nwrite (ps_pipe S))) ?cs = take (PIPESIZE - length ?q) ?cs"
    using stored_count [OF p(4,5)] by (simp add: min_def)
  have full: "length (pipe_queue p) = PIPESIZE \<and> readopen p" if "res = Slept j" for j
    using that p(2,5,6) le by (auto split: if_split_asm)
  have dead: "killed \<and> res = Returned (-1)" if "\<not> woke" "r_asleep S"
    using that p(6) S by (auto simp: psys_inv_def r_asleep_def split: if_split_asm)
  show ?thesis
    using S p(1-5) st full dead w
    by (auto simp: psys_inv_def w_asleep_def r_asleep_def wake_r_def split: progress.split)
qed

lemma reader_run_inv:
  assumes S: "psys_inv S" and rd: "ps_r S = Some (n, False)"
    and r: "piperead killed n (ps_pipe S) = (res, cs, woke, p)"
  shows "psys_inv (S\<lparr>ps_pipe := p, ps_r := (case res of Returned _ \<Rightarrow> None | Slept _ \<Rightarrow> Some (n, True)),
      ps_w := wake_w woke (ps_w S), ps_got := ps_got S @ cs\<rparr>)"
proof (cases "nread (ps_pipe S) = nwrite (ps_pipe S) \<and> writeopen (ps_pipe S)")
  case True
  then have "p = ps_pipe S" "cs = []" "\<not> woke" "pipe_queue p = []"
    using r pipe_empty_iff by (auto simp: piperead_def split: if_split_asm)
  moreover have "\<not> w_asleep S" using S calculation by (auto simp: psys_inv_def PIPESIZE_def)
  ultimately show ?thesis
    using S True rd by (auto simp: psys_inv_def w_asleep_def r_asleep_def wake_w_def split: progress.split)
next
  case False
  have "pipe_ok (ps_pipe S)" using S by (simp add: psys_inv_def)
  note l = piperead_loop_ok [OF this, of "nat n"]
  have "res = Returned (int (length cs))" "woke" "piperead_loop (nat n) (ps_pipe S) = (cs, p)"
    using r False by (auto simp: piperead_def split: prod.split_asm)
  then show ?thesis
    using S l by (auto simp: psys_inv_def w_asleep_def r_asleep_def wake_w_def)
qed

lemma pipe_step_inv: "pipe_step S S' \<Longrightarrow> psys_inv S \<Longrightarrow> psys_inv S'"
proof (induction rule: pipe_step.induct)
  case (w_run S addr n i killed res woke p)
  then show ?case using writer_run_inv by blast
next
  case (r_run S n killed res cs woke p)
  then show ?case using reader_run_inv by blast
next
  case (w_close S freed p)
  then show ?case
    by (auto simp: pipeclose_def psys_inv_def pipe_ok_def pipe_queue_def w_asleep_def r_asleep_def wake_r_def)
next
  case (r_close S freed p)
  then show ?case
    by (auto simp: pipeclose_def psys_inv_def pipe_ok_def pipe_queue_def w_asleep_def r_asleep_def wake_w_def)
qed (auto simp: psys_inv_def w_asleep_def r_asleep_def)

lemma pipe_reachable_inv: "pipe_step\<^sup>*\<^sup>* S S' \<Longrightarrow> psys_inv S \<Longrightarrow> psys_inv S'"
  by (induction rule: rtranclp_induct) (auto intro: pipe_step_inv)

definition pipe_start :: "pipe \<Rightarrow> psys" where
  "pipe_start p = \<lparr>ps_pipe = pipe_init p, ps_w = None, ps_r = None, ps_sent = [], ps_got = [], ps_dead = False\<rparr>"

lemma pipe_start_inv: "length (p_data p) = PIPESIZE \<Longrightarrow> psys_inv (pipe_start p)"
  by (simp add: psys_inv_def pipe_start_def pipe_init_def pipe_ok_def pipe_queue_def ring_contents_def
      w_asleep_def r_asleep_def)


section \<open>Properties\<close>

text \<open>
  C8: However the calls at the two ends interleave, sleep, wake up and close, and however often the 32-bit counters
  wrap around: the bytes taken out of a pipe, followed by the bytes in its buffer, are exactly the bytes put in, in
  order, and at most \<^verbatim>\<open>PIPESIZE\<close> bytes are in the buffer.
\<close>

theorem pipe_fifo:
  assumes "length (p_data p) = PIPESIZE" and "pipe_step\<^sup>*\<^sup>* (pipe_start p) S"
  shows "ps_sent S = ps_got S @ pipe_queue (ps_pipe S) \<and> length (pipe_queue (ps_pipe S)) \<le> PIPESIZE"
  using pipe_reachable_inv [OF assms(2) pipe_start_inv [OF assms(1)]]
  by (simp add: psys_inv_def pipe_ok_def pipe_queue_def)

definition demo_pipe :: pipe where
  "demo_pipe = \<lparr>p_data = replicate PIPESIZE 0, nread = 0, nwrite = 0, readopen = False, writeopen = False\<rparr>"

text \<open>A write of \<open>cs\<close> to a fresh pipe.\<close>

lemma demo_write:
  "\<exists>S. pipe_step\<^sup>*\<^sup>* (pipe_start demo_pipe) S \<and> pipe_queue (ps_pipe S) = take PIPESIZE cs \<and> ps_sent S = take PIPESIZE cs
     \<and> (w_asleep S \<longleftrightarrow> PIPESIZE < length cs) \<and> \<not> ps_dead S \<and> ps_r S = None \<and> readopen (ps_pipe S)"
proof -
  let ?S = "pipe_start demo_pipe" and ?n = "int (length cs)"
  have i: "pipe_ok (ps_pipe ?S)" "pipe_queue (ps_pipe ?S) = []" "writeopen (ps_pipe ?S)" "readopen (ps_pipe ?S)"
    using pipe_start_inv [of demo_pipe]
    by (simp_all add: demo_pipe_def psys_inv_def pipe_start_def pipe_init_def pipe_queue_def ring_contents_def)
  obtain p where p: "pipe_queue p = take PIPESIZE cs" "nread p = nread (ps_pipe ?S)" "readopen p"
      "pipewrite False cs ?n 0 (ps_pipe ?S)
        = (if length cs \<le> PIPESIZE then (Returned ?n, True, p) else (Slept PIPESIZE, True, p))"
    using pipewrite_loop_ok [OF i(1), of cs False ?n 0] i by (auto simp: pipewrite_def)
  define res where "res = (if length cs \<le> PIPESIZE then Returned ?n else Slept PIPESIZE)"
  let ?T = "?S\<lparr>ps_w := Some (cs, ?n, 0, False)\<rparr>"
  have c: "pipe_step ?S ?T" using w_call [of ?S cs ?n] i(3) by (simp add: pipe_start_def)
  have "pipewrite False cs ?n 0 (ps_pipe ?T) = (res, True, p)" using p(4) by (simp add: res_def)
  note r = w_run [OF _ this, simplified]
  have "unat (nwrite p - nwrite (ps_pipe ?S)) = length (take PIPESIZE cs)"
    using stored_count [of p "ps_pipe ?S"] p(1,2) i(2) by simp
  then have "take (unat (nwrite p - nwrite (ps_pipe ?S))) cs = take PIPESIZE cs" by (simp add: min_def)
  moreover have "pipe_step\<^sup>*\<^sup>* ?S (?T\<lparr>ps_pipe := p, ps_w := (case res of Returned _ \<Rightarrow> None | Slept j \<Rightarrow> Some (cs, ?n, j, True)),
      ps_r := wake_r True (ps_r ?S),
      ps_sent := ps_sent ?S @ take (unat (nwrite p - nwrite (ps_pipe ?S))) cs, ps_dead := ps_dead ?S\<rparr>)"
    using c r by (simp add: converse_rtranclp_into_rtranclp)
  ultimately show ?thesis
    using p(1,3) by (intro exI conjI) (assumption | auto simp: pipe_start_def w_asleep_def wake_r_def res_def)+
qed

theorem pipe_fifo_witness:
  "\<exists>S. length (p_data demo_pipe) = PIPESIZE \<and> pipe_step\<^sup>*\<^sup>* (pipe_start demo_pipe) S \<and> ps_sent S = [7, 8, 9]
     \<and> ps_sent S = ps_got S @ pipe_queue (ps_pipe S)"
proof -
  obtain S where S: "pipe_step\<^sup>*\<^sup>* (pipe_start demo_pipe) S" "ps_sent S = take PIPESIZE [7, 8, 9]"
    using demo_write [of "[7, 8, 9]"] by blast
  have "length (p_data demo_pipe) = PIPESIZE" by (simp add: demo_pipe_def)
  moreover have "ps_sent S = [7, 8, 9]" using S(2) by (simp add: PIPESIZE_def)
  ultimately show ?thesis using pipe_fifo [of demo_pipe S] S(1) by blast
qed

text \<open>
  C28: Wakeups at the two ends.  A writer that sleeps is woken by every read of at least one byte, which returns data.  A reader that
  sleeps is woken by every write of at least one byte, with the sole exception of a write by a killed process that finds no room
  left and returns \<open>-1\<close>.  As long as no such write has failed (\<open>ps_dead\<close>), a reader sleeps only on an empty pipe, and the two ends
  never sleep at the same time.
\<close>

theorem pipe_no_lost_wakeup:
  assumes "length (p_data p) = PIPESIZE" and "pipe_step\<^sup>*\<^sup>* (pipe_start p) S"
  shows "(\<not> ps_dead S \<longrightarrow> \<not> (w_asleep S \<and> r_asleep S) \<and> (r_asleep S \<longrightarrow> pipe_queue (ps_pipe S) = []))
    \<and> (w_asleep S \<longrightarrow> (\<forall>n > 0. \<exists>cs p'. cs \<noteq> [] \<and> piperead killed n (ps_pipe S) = (Returned (int (length cs)), cs, True, p')))
    \<and> (r_asleep S \<longrightarrow> (\<forall>addr n i. i < nat n \<and> nat n \<le> length addr \<longrightarrow>
         (\<exists>res woke p'. pipewrite killed addr n i (ps_pipe S) = (res, woke, p') \<and> pipe_queue p' \<noteq> []
            \<and> (woke \<or> killed \<and> res = Returned (-1) \<and> length (pipe_queue p') = PIPESIZE))))"
proof -
  have inv: "psys_inv S" using pipe_reachable_inv [OF assms(2) pipe_start_inv [OF assms(1)]] .
  then have ok: "pipe_ok (ps_pipe S)" by (simp add: psys_inv_def)
  have "\<not> ps_dead S \<longrightarrow> \<not> (w_asleep S \<and> r_asleep S) \<and> (r_asleep S \<longrightarrow> pipe_queue (ps_pipe S) = [])"
    using inv by (auto simp: psys_inv_def PIPESIZE_def)
  moreover have "\<exists>cs p'. cs \<noteq> [] \<and> piperead killed n (ps_pipe S) = (Returned (int (length cs)), cs, True, p')"
    if "w_asleep S" "0 < n" for n
  proof -
    have ne: "pipe_queue (ps_pipe S) \<noteq> []" using inv that(1) by (auto simp: psys_inv_def PIPESIZE_def)
    then have "nread (ps_pipe S) \<noteq> nwrite (ps_pipe S)" using pipe_empty_iff by blast
    then have "piperead killed n (ps_pipe S) = (let (cs, p) = piperead_loop (nat n) (ps_pipe S)
        in (Returned (int (length cs)), cs, True, p))" by (simp add: piperead_def)
    then show ?thesis using piperead_loop_ok [OF ok, of "nat n"] ne that(2) by (auto split: prod.splits)
  qed
  moreover have "\<exists>res woke p'. pipewrite killed addr n i (ps_pipe S) = (res, woke, p') \<and> pipe_queue p' \<noteq> []
      \<and> (woke \<or> killed \<and> res = Returned (-1) \<and> length (pipe_queue p') = PIPESIZE)"
    if "r_asleep S" "i < nat n" "nat n \<le> length addr" for addr n i
  proof -
    let ?q = "pipe_queue (ps_pipe S)" and ?cs = "drop i (take (nat n) addr)"
    have o: "readopen (ps_pipe S)" "length ?q \<le> PIPESIZE" using inv that(1) ok
      by (auto simp: psys_inv_def r_asleep_def pipe_ok_def pipe_queue_def)
    have "?cs \<noteq> []" using that(2,3) by simp
    then have "?q @ take (PIPESIZE - length ?q) ?cs \<noteq> []" by (auto simp: PIPESIZE_def)
    moreover obtain p' where p': "pipe_queue p' = ?q @ take (PIPESIZE - length ?q) ?cs"
      "pipewrite killed addr n i (ps_pipe S) =
        (if length ?cs \<le> PIPESIZE - length ?q then (Returned n, True, p')
         else if \<not> readopen (ps_pipe S) \<or> killed then (Returned (-1), False, p')
         else (Slept (i + (PIPESIZE - length ?q)), True, p'))"
      using pipewrite_loop_ok [OF ok, of ?cs killed n i] unfolding pipewrite_def by blast
    ultimately have ne: "pipe_queue p' \<noteq> []" by argo
    have full: "length (pipe_queue p') = PIPESIZE" if "\<not> length ?cs \<le> PIPESIZE - length ?q"
      using that p'(1) o(2) by simp
    show ?thesis
    proof (cases "killed \<and> \<not> length ?cs \<le> PIPESIZE - length ?q")
      case True
      then have "pipewrite killed addr n i (ps_pipe S) = (Returned (-1), False, p')" unfolding p'(2) by argo
      then show ?thesis using ne full True by blast
    next
      case False
      then obtain res where "pipewrite killed addr n i (ps_pipe S) = (res, True, p')" using p'(2) o(1) by metis
      then show ?thesis using ne by blast
    qed
  qed
  ultimately show ?thesis by blast
qed

theorem pipe_no_lost_wakeup_witness:
  "\<exists>S. length (p_data demo_pipe) = PIPESIZE \<and> pipe_step\<^sup>*\<^sup>* (pipe_start demo_pipe) S \<and> w_asleep S
     \<and> (\<exists>cs p'. cs \<noteq> [] \<and> piperead False 1 (ps_pipe S) = (Returned (int (length cs)), cs, True, p'))"
proof -
  obtain S where S: "pipe_step\<^sup>*\<^sup>* (pipe_start demo_pipe) S" "w_asleep S"
    using demo_write [of "replicate (Suc PIPESIZE) 7"] by auto
  have "length (p_data demo_pipe) = PIPESIZE" by (simp add: demo_pipe_def)
  with pipe_no_lost_wakeup [OF this S(1), of False] S show ?thesis by (intro exI [of _ S]) auto
qed

text \<open>
  C36: A killed writer strands the reader.  Whenever the reader sleeps and a writer with more bytes than the pipe has room for is killed,
  its call fills the pipe and returns \<open>-1\<close> without a wakeup: the reader stays asleep on a full pipe.
\<close>

theorem killed_writer_strands_reader:
  assumes "length (p_data p) = PIPESIZE" and "pipe_step\<^sup>*\<^sup>* (pipe_start p) S" and "r_asleep S"
    and "ps_w S = Some (addr, n, i, False)"
    and "PIPESIZE - length (pipe_queue (ps_pipe S)) < length (drop i (take (nat n) addr))"
  shows "\<exists>q S'. pipewrite True addr n i (ps_pipe S) = (Returned (-1), False, q)
    \<and> pipe_step S S' \<and> ps_pipe S' = q \<and> ps_w S' = None \<and> r_asleep S' \<and> length (pipe_queue q) = PIPESIZE \<and> writeopen q"
proof -
  let ?q = "pipe_queue (ps_pipe S)" and ?cs = "drop i (take (nat n) addr)"
  have inv: "psys_inv S" using pipe_reachable_inv [OF assms(2) pipe_start_inv [OF assms(1)]] .
  then have ok: "pipe_ok (ps_pipe S)" "writeopen (ps_pipe S)" "length ?q \<le> PIPESIZE"
    using assms(3) by (auto simp: psys_inv_def pipe_ok_def pipe_queue_def)
  obtain q where q: "pipewrite True addr n i (ps_pipe S) = (Returned (-1), False, q)"
      "pipe_queue q = ?q @ take (PIPESIZE - length ?q) ?cs" "writeopen q"
    using pipewrite_loop_ok [OF ok(1), of ?cs True n i] assms(5) ok(2) unfolding pipewrite_def by auto
  have "length (pipe_queue q) = PIPESIZE" using q(2) assms(5) ok(3) by simp
  moreover obtain S' where "pipe_step S S'" "ps_pipe S' = q" "ps_w S' = None" "ps_r S' = wake_r False (ps_r S)"
    using w_run [OF assms(4) q(1)] by simp
  moreover have "r_asleep S'" using assms(3) calculation(5) by (auto simp: r_asleep_def wake_r_def)
  ultimately show ?thesis using q(1,3) by blast
qed

theorem killed_writer_strands_reader_witness:
  "\<exists>S q S'. pipe_step\<^sup>*\<^sup>* (pipe_start demo_pipe) S \<and> r_asleep S \<and> pipe_queue (ps_pipe S) = []
     \<and> pipe_step S S' \<and> r_asleep S' \<and> ps_pipe S' = q \<and> length (pipe_queue q) = PIPESIZE"
proof -
  let ?p = "pipe_init demo_pipe" and ?S = "pipe_start demo_pipe"
  define cs where "cs = replicate (Suc PIPESIZE) (7 :: byte)"
  let ?R = "?S\<lparr>ps_r := Some (1, False)\<rparr>"
  let ?A = "?S\<lparr>ps_r := Some (1, True)\<rparr>" and ?n = "int (Suc PIPESIZE)"
  let ?B = "?A\<lparr>ps_w := Some (cs, ?n, 0, False)\<rparr>"
  have l: "length (p_data demo_pipe) = PIPESIZE" by (simp add: demo_pipe_def)
  have 1: "pipe_step ?S ?R" using r_call [of ?S 1] by (simp add: pipe_start_def pipe_init_def)
  have "piperead False 1 (ps_pipe ?R) = (Slept 0, [], False, ps_pipe ?R)"
    by (simp add: piperead_def pipe_start_def pipe_init_def)
  from r_run [OF _ this] have 2: "pipe_step ?R ?A" by (simp add: pipe_start_def wake_w_def)
  have 3: "pipe_step ?A ?B" using w_call [of ?A cs ?n] by (simp add: pipe_start_def pipe_init_def)
  have r: "pipe_step\<^sup>*\<^sup>* ?S ?B" using 1 2 3 by (meson rtranclp.rtrancl_refl rtranclp.rtrancl_into_rtrancl)
  have a: "r_asleep ?B" by (simp add: r_asleep_def)
  have e: "pipe_queue (ps_pipe ?B) = []" by (simp add: pipe_start_def pipe_init_def pipe_queue_def ring_contents_def)
  have "PIPESIZE - length (pipe_queue (ps_pipe ?B)) < length (drop 0 (take (nat ?n) cs))"
    by (simp add: cs_def del: replicate_Suc)
  from killed_writer_strands_reader [OF l r a _ this] show ?thesis using r a e by auto
qed

end
