(* ===== verification/File.thy ===== *)
theory File
  imports Fs_Frame Pipe Vm
begin

text \<open>
  \<^verbatim>\<open>kernel/file.c\<close>, the table of open files, and \<^verbatim>\<open>pipealloc\<close> of \<^verbatim>\<open>kernel/pipe.c\<close>, which needs it.  A pointer to a file is
  its index in \<^verbatim>\<open>ftable.file\<close>, a pointer to a pipe the address of its page.  A call that has to wait is \<^const>\<open>Sleeps\<close>.
\<close>

section \<open>State\<close>

datatype fdtype = FD_NONE | FD_PIPE | FD_INODE

record ofile =
  f_type :: fdtype
  f_ref :: int
  f_readable :: bool
  f_writable :: bool
  f_pipe :: nat
  f_ip :: nat
  f_off :: nat

record fstate = istate +
  files :: "nat \<Rightarrow> ofile"
  pipes :: "nat \<Rightarrow> pipe"
  f_mem :: kmem

definition setfile :: "nat \<Rightarrow> ofile \<Rightarrow> 'z fstate_scheme \<Rightarrow> 'z fstate_scheme" where
  "setfile f x s = s\<lparr>files := (files s)(f := x)\<rparr>"

definition setpipe :: "nat \<Rightarrow> pipe \<Rightarrow> 'z fstate_scheme \<Rightarrow> 'z fstate_scheme" where
  "setpipe a p s = s\<lparr>pipes := (pipes s)(a := p)\<rparr>"

section \<open>References\<close>

definition filealloc :: "'z fstate_scheme \<Rightarrow> nat option \<times> 'z fstate_scheme" where
  "filealloc s =
     (case List.find (\<lambda>f. f_ref (files s f) = 0) [0..<NFILE] of
        Some f \<Rightarrow> (Some f, setfile f ((files s f)\<lparr>f_ref := 1\<rparr>) s)
      | None \<Rightarrow> (None, s))"

definition filedup :: "nat \<Rightarrow> 'z fstate_scheme \<Rightarrow> 'z fstate_scheme res" where
  "filedup f s =
     (if f_ref (files s f) < 1 then Panic ''filedup''
      else Ok (setfile f ((files s f)\<lparr>f_ref := f_ref (files s f) + 1\<rparr>) s))"

text \<open>\<^verbatim>\<open>pipeclose\<close> of the pipe at \<open>a\<close>, and its page when both ends are closed.\<close>

definition pipeclose_at :: "nat \<Rightarrow> nat \<Rightarrow> bool \<Rightarrow> 'z fstate_scheme \<Rightarrow> 'z fstate_scheme res" where
  "pipeclose_at kend a writable s =
     (let (freed, p) = pipeclose writable (pipes s a); s = setpipe a p s
      in if freed then rbind (kfree kend a (f_mem s)) (\<lambda>K. Ok (s\<lparr>f_mem := K\<rparr>)) else Ok s)"

text \<open>
  \<^verbatim>\<open>begin_op\<close> may have to wait.  The outcome of \<^verbatim>\<open>fileclose\<close> is then \<^const>\<open>Sleeps\<close>, which does not show that the reference is
  already given up at that point.
\<close>

definition fileclose :: "nat \<Rightarrow> nat \<Rightarrow> 'z fstate_scheme \<Rightarrow> 'z fstate_scheme res" where
  "fileclose kend f s =
     (if f_ref (files s f) < 1 then Panic ''fileclose''
      else
        let s = setfile f ((files s f)\<lparr>f_ref := f_ref (files s f) - 1\<rparr>) s
        in if f_ref (files s f) > 0 then Ok s
           else
             let ff = files s f; s = setfile f ((files s f)\<lparr>f_ref := 0, f_type := FD_NONE\<rparr>) s
             in case f_type ff of
                  FD_PIPE \<Rightarrow> pipeclose_at kend (f_pipe ff) (f_writable ff) s
                | FD_INODE \<Rightarrow> rbind (begin_op s) (\<lambda>s. rbind (iput (f_ip ff) s) end_op)
                | FD_NONE \<Rightarrow> Ok s)"

section \<open>Reading and writing\<close>

definition filestat :: "nat \<Rightarrow> 'z fstate_scheme \<Rightarrow> (int \<times> stat option \<times> 'z fstate_scheme) res" where
  "filestat f s =
     (let ip = f_ip (files s f)
      in if f_type (files s f) = FD_INODE then
           rbind (ilock ip s) (\<lambda>s.
           let st = stati (inodes s ip) in rbind (iunlock ip s) (\<lambda>s. Ok (0, Some st, s)))
         else Ok (-1, None, s))"

text \<open>
  The count and the bytes read.  \<open>killed\<close> is \<^verbatim>\<open>proc->killed\<close>.  A reader of a pipe sleeps only while the pipe is empty, before
  it has taken a byte: the pipe at the sleep is the pipe at the call.
\<close>

definition fileread :: "'z fstate_ext devsw \<Rightarrow> bool \<Rightarrow> nat \<Rightarrow> int \<Rightarrow> 'z fstate_scheme \<Rightarrow> (int \<times> byte list \<times> 'z fstate_scheme) res" where
  "fileread devsw killed f n s =
     (if \<not> f_readable (files s f) then Ok (-1, [], s)
      else
        case f_type (files s f) of
          FD_PIPE \<Rightarrow>
            (case piperead killed n (pipes s (f_pipe (files s f))) of
               (Returned r, cs, _, p) \<Rightarrow> Ok (r, cs, setpipe (f_pipe (files s f)) p s)
             | (Slept _, _, _, _) \<Rightarrow> Sleeps)
        | FD_INODE \<Rightarrow>
            let ip = f_ip (files s f)
            in rbind (ilock ip s) (\<lambda>s.
               rbind (readi devsw ip (f_off (files s f)) (u32 (nat (n mod 2 ^ 32))) s) (\<lambda>(r, cs, s).
               let s = (if r > 0 then setfile f ((files s f)\<lparr>f_off := u32 (f_off (files s f) + nat r)\<rparr>) s else s)
               in rbind (iunlock ip s) (\<lambda>s. Ok (r, cs, s))))
        | FD_NONE \<Rightarrow> Panic ''fileread'')"

text \<open>The most one transaction writes: \<^verbatim>\<open>((LOGSIZE-1-1-2) / 2) * 512\<close>.\<close>

definition filewrite_max :: nat where
  "filewrite_max = ((LOGSIZE - 1 - 1 - 2) div 2) * 512"

text \<open>The loop of \<^verbatim>\<open>filewrite\<close>; the result says whether everything was written.\<close>

function filewrite_loop :: "'z fstate_ext devsw \<Rightarrow> nat \<Rightarrow> byte list \<Rightarrow> 'z fstate_scheme \<Rightarrow> (bool \<times> 'z fstate_scheme) res" where
  "filewrite_loop devsw f src s =
     (if src = [] then Ok (True, s)
      else
        let n1 = min (length src) filewrite_max; ip = f_ip (files s f)
        in rbind (begin_op s) (\<lambda>s.
           rbind (ilock ip s) (\<lambda>s.
           rbind (writei devsw ip (take n1 src) (f_off (files s f)) s) (\<lambda>(r, s).
           let s = (if r > 0 then setfile f ((files s f)\<lparr>f_off := u32 (f_off (files s f) + nat r)\<rparr>) s else s)
           in rbind (iunlock ip s) (\<lambda>s.
              rbind (end_op s) (\<lambda>s.
              if r < 0 then Ok (False, s)
              else if r \<noteq> int n1 then Panic ''short filewrite''
              else filewrite_loop devsw f (drop n1 src) s))))))"
  by pat_completeness auto
termination
  by (relation "measure (\<lambda>(d, f, src, s). length src)")
    (auto simp: filewrite_max_def LOGSIZE_def MAXOPBLOCKS_def)

declare filewrite_loop.simps [simp del]

text \<open>
  A writer to a pipe sleeps when the pipe is full; the state is then the one at the sleep, and the index is where \<^verbatim>\<open>pipewrite\<close>
  goes on when it is woken.
\<close>

definition filewrite :: "'z fstate_ext devsw \<Rightarrow> bool \<Rightarrow> nat \<Rightarrow> byte list \<Rightarrow> int \<Rightarrow> 'z fstate_scheme \<Rightarrow> (progress \<times> 'z fstate_scheme) res" where
  "filewrite devsw killed f addr n s =
     (if \<not> f_writable (files s f) then Ok (Returned (-1), s)
      else
        case f_type (files s f) of
          FD_PIPE \<Rightarrow>
            let (r, _, p) = pipewrite killed addr n 0 (pipes s (f_pipe (files s f)))
            in Ok (r, setpipe (f_pipe (files s f)) p s)
        | FD_INODE \<Rightarrow>
            rbind (filewrite_loop devsw f (take (nat n) addr) s) (\<lambda>(whole, s).
            Ok (Returned (if whole \<and> 0 \<le> n then n else -1), s))
        | FD_NONE \<Rightarrow> Panic ''filewrite'')"

section \<open>Allocation of a pipe\<close>

text \<open>The cleanup of \<^verbatim>\<open>pipealloc\<close> at \<^verbatim>\<open>bad\<close>.\<close>

definition pipealloc_bad :: "nat \<Rightarrow> nat option \<Rightarrow> nat option \<Rightarrow> 'z fstate_scheme \<Rightarrow> ((nat \<times> nat) option \<times> 'z fstate_scheme) res" where
  "pipealloc_bad kend f0 f1 s =
     rbind (case f0 of Some f \<Rightarrow> fileclose kend f s | None \<Rightarrow> Ok s) (\<lambda>s.
     rbind (case f1 of Some f \<Rightarrow> fileclose kend f s | None \<Rightarrow> Ok s) (\<lambda>s.
     Ok (None, s)))"

definition pipealloc :: "nat \<Rightarrow> 'z fstate_scheme \<Rightarrow> ((nat \<times> nat) option \<times> 'z fstate_scheme) res" where
  "pipealloc kend s =
     (case filealloc s of
        (None, s) \<Rightarrow> pipealloc_bad kend None None s
      | (Some f0, s) \<Rightarrow>
          (case filealloc s of
             (None, s) \<Rightarrow> pipealloc_bad kend (Some f0) None s
           | (Some f1, s) \<Rightarrow>
               let (p, K) = kalloc (f_mem s); s = s\<lparr>f_mem := K\<rparr>
               in if p = 0 then pipealloc_bad kend (Some f0) (Some f1) s
                  else
                    let s = setpipe p (pipe_init (pipes s p)) s;
                        s = setfile f0 ((files s f0)\<lparr>f_type := FD_PIPE, f_readable := True, f_writable := False, f_pipe := p\<rparr>) s;
                        s = setfile f1 ((files s f1)\<lparr>f_type := FD_PIPE, f_readable := False, f_writable := True, f_pipe := p\<rparr>) s
                    in Ok (Some (f0, f1), s)))"


section \<open>References\<close>

lemma same_files:
  assumes "istate.more s' = istate.more s"
  shows "files s' = files s" "pipes s' = pipes s" "f_mem s' = f_mem s" "fstate.more s' = fstate.more s"
  using assms by (cases s; cases s'; simp)+

lemma setfile_files [simp]: "files (setfile f x s) = (files s)(f := x)" "files (setpipe a p s) = files s"
  "files (s\<lparr>f_mem := K\<rparr>) = files s"
  by (simp_all add: setfile_def setpipe_def)

lemma fileclose_files:
  assumes "fileclose kend f s = Ok s'"
  shows "files s' = (files s)(f := (files s f)\<lparr>f_ref := f_ref (files s f) - 1,
      f_type := (if f_ref (files s f) = 1 then FD_NONE else f_type (files s f))\<rparr>)" "1 \<le> f_ref (files s f)"
proof -
  have frame: "files t = files s"
    if "begin_op s = Ok a" "iput k a = Ok b" "end_op b = Ok t" for a b t and s :: "'a fstate_scheme" and k
    using that by (auto dest!: block_imore iput_imore dest: same_files)
  show r: "1 \<le> f_ref (files s f)" using assms by (simp add: fileclose_def split: if_split_asm)
  show "files s' = (files s)(f := (files s f)\<lparr>f_ref := f_ref (files s f) - 1,
      f_type := (if f_ref (files s f) = 1 then FD_NONE else f_type (files s f))\<rparr>)"
  proof (cases "f_ref (files s f) = 1")
    case True
    show ?thesis
    proof (cases "f_type (files s f)")
      case FD_INODE
      then show ?thesis using True assms by (auto simp: fileclose_def Let_def elim!: rbind_OkE dest!: frame)
    qed (use True assms in \<open>auto simp: fileclose_def Let_def pipeclose_at_def elim!: rbind_OkE split: prod.split_asm if_split_asm\<close>)
  next
    case False
    then show ?thesis using assms r by (auto simp: fileclose_def Let_def split: if_split_asm)
  qed
qed

text \<open>
  The steps of the holders of references: \<open>U f\<close> counts the references to file \<open>f\<close> that exist.  A holder may change
  every field but the count.
\<close>

inductive file_use :: "nat \<Rightarrow> 'z fstate_scheme \<times> (nat \<Rightarrow> nat) \<Rightarrow> 'z fstate_scheme \<times> (nat \<Rightarrow> nat) \<Rightarrow> bool" for kend where
  fu_alloc: "filealloc s = (Some f, s') \<Longrightarrow> file_use kend (s, U) (s', U(f := U f + 1))"
| fu_full: "filealloc s = (None, s') \<Longrightarrow> file_use kend (s, U) (s', U)"
| fu_dup: "0 < U f \<Longrightarrow> filedup f s = Ok s' \<Longrightarrow> file_use kend (s, U) (s', U(f := U f + 1))"
| fu_close: "0 < U f \<Longrightarrow> fileclose kend f s = Ok s' \<Longrightarrow> file_use kend (s, U) (s', U(f := U f - 1))"
| fu_set: "0 < U f \<Longrightarrow> file_use kend (s, U) (setfile f (x\<lparr>f_ref := f_ref (files s f)\<rparr>) s, U)"

definition refs_ok :: "'z fstate_scheme \<times> (nat \<Rightarrow> nat) \<Rightarrow> bool" where
  "refs_ok = (\<lambda>(s, U). \<forall>f. f_ref (files s f) = int (U f))"

lemma file_use_refs: "file_use kend a b \<Longrightarrow> refs_ok a \<Longrightarrow> refs_ok b"
proof (induction rule: file_use.induct)
  case (fu_alloc s f s' U)
  then show ?case by (auto simp: refs_ok_def filealloc_def find_Some_iff split: option.split_asm)
next
  case (fu_full s s' U)
  then show ?case by (auto simp: refs_ok_def filealloc_def split: option.split_asm)
next
  case (fu_dup U f s s')
  then show ?case by (auto simp: refs_ok_def filedup_def split: if_split_asm)
next
  case (fu_close U f s s')
  then show ?case using fileclose_files(1) [OF fu_close(2)] by (auto simp: refs_ok_def of_nat_diff)
next
  case (fu_set U f s x)
  then show ?case by (auto simp: refs_ok_def)
qed

lemma file_history_refs: "(file_use kend)\<^sup>*\<^sup>* a b \<Longrightarrow> refs_ok a \<Longrightarrow> refs_ok b"
  by (induction rule: rtranclp_induct) (auto intro: file_use_refs)

text \<open>
  C6: Starting from an empty file table, for every history of \<^verbatim>\<open>filealloc\<close>, \<^verbatim>\<open>filedup\<close> and \<^verbatim>\<open>fileclose\<close> in which holders only
  duplicate and close references they have: the count in the table is the number of references; \<^verbatim>\<open>filealloc\<close> hands out
  a file nobody refers to and fails only when all are in use; \<^verbatim>\<open>filedup\<close> of a held reference succeeds; and \<^verbatim>\<open>fileclose\<close> of
  one of several references only counts down.
\<close>

theorem file_references:
  assumes "\<forall>f. f_ref (files s f) = 0" and "(file_use kend)\<^sup>*\<^sup>* (s, \<lambda>_. 0) (s', U)"
  shows "(\<forall>f. f_ref (files s' f) = int (U f))
    \<and> (case fst (filealloc s') of Some f \<Rightarrow> f < NFILE \<and> U f = 0 | None \<Rightarrow> \<forall>f < NFILE. 0 < U f)
    \<and> (\<forall>f. 0 < U f \<longrightarrow> (\<exists>t. filedup f s' = Ok t))
    \<and> (\<forall>f. 1 < U f \<longrightarrow> fileclose kend f s' = Ok (setfile f ((files s' f)\<lparr>f_ref := int (U f) - 1\<rparr>) s'))"
proof -
  have "refs_ok (s, \<lambda>_. 0)" using assms(1) by (simp add: refs_ok_def)
  from file_history_refs [OF assms(2) this] have r: "f_ref (files s' f) = int (U f)" for f by (simp add: refs_ok_def)
  have "case fst (filealloc s') of Some f \<Rightarrow> f < NFILE \<and> U f = 0 | None \<Rightarrow> \<forall>f < NFILE. 0 < U f"
    by (auto simp: filealloc_def r find_None_iff find_Some_iff split: option.split)
  then show ?thesis using r by (auto simp: filedup_def fileclose_def)
qed


text \<open>A machine with idle drives and an empty file table.\<close>

definition demo_files :: fstate where
  "demo_files = \<lparr>bufs = bufs demo_queue, idequeue = [], havedisk1 = True, disk = disk demo_queue, badsect = badsect demo_queue,
     dtrace = [], l_start = 970, l_size = 30, l_outstanding = 0, l_committing = False, l_dev = 1, lh_n = 0, lh_block = [],
     inodes = (\<lambda>_. \<lparr>i_dev = 0, i_inum = 0, i_ref = 0, i_busy = False, i_valid = False, i_type = 0, i_major = 0, i_minor = 0,
       i_nlink = 0, i_ownerid = 0, i_groupid = 0, i_mode = 0, i_size = 0, i_addrs = replicate 11 0\<rparr>),
     files = (\<lambda>_. \<lparr>f_type = FD_NONE, f_ref = 0, f_readable = False, f_writable = False, f_pipe = 0, f_ip = 0, f_off = 0\<rparr>),
     pipes = (\<lambda>_. demo_pipe), f_mem = \<lparr>use_lock = True, freelist = 0, pmem = (\<lambda>_. 0)\<rparr>\<rparr>"

lemma demo_files_refs: "f_ref (files demo_files f) = 0"
  by (simp add: demo_files_def)

lemma demo_files_history:
  "\<exists>s. (file_use 0)\<^sup>*\<^sup>* (demo_files, \<lambda>_. 0) (s, (\<lambda>_. 0)(0 := 2))"
proof -
  have n: "List.find (\<lambda>f. f_ref (files demo_files f) = 0) [0..<NFILE] = Some 0"
    by (simp add: NFILE_def demo_files_refs upt_conv_Cons)
  let ?s = "setfile 0 ((files demo_files 0)\<lparr>f_ref := 1\<rparr>) demo_files"
  have "file_use 0 (demo_files, \<lambda>_. 0) (?s, (\<lambda>_. 0)(0 := 0 + 1))"
    by (rule fu_alloc) (simp add: filealloc_def n)
  moreover have "file_use 0 (?s, (\<lambda>_. 0)(0 := 1)) (setfile 0 ((files ?s 0)\<lparr>f_ref := f_ref (files ?s 0) + 1\<rparr>) ?s,
      ((\<lambda>_. 0)(0 := 1))(0 := ((\<lambda>_. 0)(0 := 1)) (0 :: nat) + 1))"
    by (rule fu_dup [of "(\<lambda>_. 0)(0 := 1)" 0]) (auto simp: filedup_def)
  ultimately show ?thesis by (simp add: numeral_2_eq_2) (meson converse_rtranclp_into_rtranclp r_into_rtranclp)
qed

theorem file_references_witness:
  "\<exists>s :: fstate. f_ref (files s 0) = 2 \<and> fst (filealloc s) \<noteq> Some 0
     \<and> fileclose 0 0 s = Ok (setfile 0 ((files s 0)\<lparr>f_ref := 1\<rparr>) s)"
proof -
  obtain s where h: "(file_use 0)\<^sup>*\<^sup>* (demo_files, \<lambda>_. 0) (s, (\<lambda>_. 0)(0 := 2))"
    using demo_files_history by blast
  have z: "\<forall>f. f_ref (files demo_files f) = 0" by (simp add: demo_files_refs)
  show ?thesis using file_references [OF z h] by (intro exI [of _ s]) (auto split: option.split_asm if_split_asm)
qed

end
