(* ===== verification/Cprintf.thy ===== *)
theory Cprintf
  imports Fs_Dir
begin

text \<open>
  Formatted output: \<^verbatim>\<open>cprintf\<close>, the screen and the serial line of \<^verbatim>\<open>kernel/console.c\<close> and \<^verbatim>\<open>kernel/uart.c\<close>, and \<^verbatim>\<open>printf\<close> of
  \<^verbatim>\<open>ulib/printf.c\<close>.  What is printed is a list of bytes; the screen is the memory of the video card and its cursor.
\<close>

unbundle bit_operations_syntax

definition str :: "string \<Rightarrow> byte list" where
  "str cs = map of_char cs"

section \<open>Numbers and formats\<close>

definition digits :: "byte list" where "digits = str ''0123456789abcdef''"

definition printptr :: "nat \<Rightarrow> byte list" where
  "printptr x = map (\<lambda>i. digits ! ((x * 16 ^ i) mod 2 ^ 64 div 2 ^ 60)) [0..<16]"

text \<open>The loop that fills \<^verbatim>\<open>buf\<close>, for a table \<open>dg\<close> of digits.  The bases are 10 and 16.\<close>

function printint_loop :: "byte list \<Rightarrow> nat \<Rightarrow> nat \<Rightarrow> byte list" where
  "printint_loop dg base x =
     (if base < 2 then []
      else dg ! (x mod base) # (if x div base = 0 then [] else printint_loop dg base (x div base)))"
  by pat_completeness auto
termination
proof (relation "measure (\<lambda>(dg, base, x). x)")
  fix base x :: nat
  assume "\<not> base < 2" "x div base \<noteq> 0"
  then have "0 < x" by (cases x) auto
  with \<open>\<not> base < 2\<close> show "((dg, base, x div base), (dg, base, x)) \<in> measure (\<lambda>(dg, base, x). x)" for dg :: "byte list"
    by simp
qed simp

declare printint_loop.simps [simp del]

definition printint :: "int \<Rightarrow> nat \<Rightarrow> bool \<Rightarrow> byte list" where
  "printint xx base sign =
     (let neg = (sign \<and> xx < 0); x = nat ((if neg then - xx else xx) mod 2 ^ 32)
      in rev (printint_loop digits base x @ (if neg then str ''-'' else [])))"

text \<open>The arguments after the format.  One that is missing or of the wrong kind is not defined by C.\<close>

datatype arg = Arg_int int | Arg_ptr nat | Arg_str "byte list option"

definition print_str :: "byte list option \<Rightarrow> byte list" where
  "print_str s = (case s of None \<Rightarrow> str ''(null)'' | Some t \<Rightarrow> takeWhile (\<lambda>c. c \<noteq> 0) t)"

fun cprintf :: "byte list \<Rightarrow> arg list \<Rightarrow> byte list res" where
  "cprintf [] args = Ok []"
| "cprintf (c # fmt) args =
     (if c \<noteq> of_char CHR ''%'' then rbind (cprintf fmt args) (\<lambda>out. Ok (c # out))
      else
        case fmt of
          [] \<Rightarrow> Ok []
        | d # fmt \<Rightarrow>
            if d = of_char CHR ''d'' then
              (case args of Arg_int i # args \<Rightarrow> rbind (cprintf fmt args) (\<lambda>out. Ok (printint i 10 True @ out)) | _ \<Rightarrow> Undef)
            else if d = of_char CHR ''x'' then
              (case args of Arg_int i # args \<Rightarrow> rbind (cprintf fmt args) (\<lambda>out. Ok (printint i 16 False @ out)) | _ \<Rightarrow> Undef)
            else if d = of_char CHR ''p'' then
              (case args of Arg_ptr p # args \<Rightarrow> rbind (cprintf fmt args) (\<lambda>out. Ok (printptr p @ out)) | _ \<Rightarrow> Undef)
            else if d = of_char CHR ''s'' then
              (case args of Arg_str s # args \<Rightarrow> rbind (cprintf fmt args) (\<lambda>out. Ok (print_str s @ out)) | _ \<Rightarrow> Undef)
            else if d = of_char CHR ''%'' then rbind (cprintf fmt args) (\<lambda>out. Ok (d # out))
            else rbind (cprintf fmt args) (\<lambda>out. Ok (of_char CHR ''%'' # d # out)))"

text \<open>\<^verbatim>\<open>printf\<close> of the user library: its own digits, \<^verbatim>\<open>%p\<close> prints an \<^verbatim>\<open>int\<close>, and there is \<^verbatim>\<open>%c\<close>.\<close>

definition udigits :: "byte list" where "udigits = str ''0123456789ABCDEF''"

definition uprintint :: "int \<Rightarrow> nat \<Rightarrow> bool \<Rightarrow> byte list" where
  "uprintint xx base sign =
     (let neg = (sign \<and> xx < 0); x = nat ((if neg then - xx else xx) mod 2 ^ 32)
      in rev (printint_loop udigits base x @ (if neg then str ''-'' else [])))"

text \<open>\<open>st\<close> is \<^verbatim>\<open>state == '%'\<close>.\<close>

fun uprintf :: "bool \<Rightarrow> byte list \<Rightarrow> arg list \<Rightarrow> byte list res" where
  "uprintf st [] args = Ok []"
| "uprintf False (c # fmt) args =
     (if c = of_char CHR ''%'' then uprintf True fmt args
      else rbind (uprintf False fmt args) (\<lambda>out. Ok (c # out)))"
| "uprintf True (c # fmt) args =
     (if c = of_char CHR ''d'' then
        (case args of Arg_int i # args \<Rightarrow> rbind (uprintf False fmt args) (\<lambda>out. Ok (uprintint i 10 True @ out)) | _ \<Rightarrow> Undef)
      else if c = of_char CHR ''x'' \<or> c = of_char CHR ''p'' then
        (case args of Arg_int i # args \<Rightarrow> rbind (uprintf False fmt args) (\<lambda>out. Ok (uprintint i 16 False @ out)) | _ \<Rightarrow> Undef)
      else if c = of_char CHR ''s'' then
        (case args of Arg_str s # args \<Rightarrow> rbind (uprintf False fmt args) (\<lambda>out. Ok (print_str s @ out)) | _ \<Rightarrow> Undef)
      else if c = of_char CHR ''c'' then
        (case args of Arg_int i # args \<Rightarrow> rbind (uprintf False fmt args) (\<lambda>out. Ok (of_int i # out)) | _ \<Rightarrow> Undef)
      else if c = of_char CHR ''%'' then rbind (uprintf False fmt args) (\<lambda>out. Ok (c # out))
      else rbind (uprintf False fmt args) (\<lambda>out. Ok (of_char CHR ''%'' # c # out)))"

section \<open>The screen and the serial line\<close>

definition BACKSPACE :: nat where "BACKSPACE = 0x100"

text \<open>
  The cells of the screen, the cursor in the video card's registers, whether there is a serial port, what has been
  sent to it, and \<^verbatim>\<open>panicked\<close>.
\<close>

record cons =
  crt :: "nat \<Rightarrow> nat"
  cur :: nat
  uart :: bool
  uart_out :: "byte list"
  panicked :: bool

text \<open>The wait for the transmitter in \<^verbatim>\<open>uartputc\<close> is bounded and has no effect on what is sent.\<close>

definition uartputc :: "nat \<Rightarrow> cons \<Rightarrow> cons" where
  "uartputc c s = (if \<not> uart s then s else s\<lparr>uart_out := uart_out s @ [of_nat c]\<rparr>)"

text \<open>\<open>status\<close> is what the line status register reads as.\<close>

definition uartearlyinit :: "nat \<Rightarrow> cons \<Rightarrow> cons" where
  "uartearlyinit status s =
     (if status = 0xFF then s
      else fold (\<lambda>c. uartputc (unat c)) (str ''xv6...'' @ [10]) (s\<lparr>uart := True\<rparr>))"

definition uartgetc :: "nat \<Rightarrow> nat \<Rightarrow> cons \<Rightarrow> int" where
  "uartgetc status data s = (if \<not> uart s then -1 else if status AND 0x01 = 0 then -1 else int data)"

definition cgaputc :: "nat \<Rightarrow> cons \<Rightarrow> cons res" where
  "cgaputc c s =
     (let (pos, m) =
            (if c = 10 then (cur s + (80 - cur s mod 80), crt s)
             else if c = BACKSPACE then (cur s - 1, crt s)
             else (cur s + 1, (crt s)(cur s := (c AND 0xff) OR 0x0700)))
      in if pos div 80 \<ge> 24 then
           let m = (\<lambda>i. if i < 23 * 80 then m (i + 80) else m i); pos = pos - 80
           in if pos > 24 * 80 then Undef
              else
                let m = (\<lambda>i. if pos \<le> i \<and> i < 24 * 80 then 0 else m i)
                in Ok (s\<lparr>cur := pos mod 2 ^ 16, crt := m(pos := 0x0720)\<rparr>)
         else Ok (s\<lparr>cur := pos mod 2 ^ 16, crt := m(pos := 0x0720)\<rparr>))"

text \<open>After a panic \<^verbatim>\<open>consputc\<close> does not return.\<close>

definition consputc :: "nat \<Rightarrow> cons \<Rightarrow> cons res" where
  "consputc c s =
     (if panicked s then Panic ''panicked''
      else cgaputc c (if c = BACKSPACE then uartputc 8 (uartputc 32 (uartputc 8 s)) else uartputc c s))"

definition consputs :: "byte list \<Rightarrow> cons \<Rightarrow> cons res" where
  "consputs cs s = for_each (\<lambda>c. consputc (unat c)) cs s"


section \<open>Properties\<close>

lemma digits_nth: "d < 10 \<Longrightarrow> digits ! d = of_nat (48 + d)"
  by (auto simp: digits_def str_def numeral_eq_Suc less_Suc_eq)

lemma printint_loop_dec:
  "\<forall>c\<in>set (printint_loop digits 10 x). 48 \<le> c \<and> c \<le> 57"
  "dec_value (cstr (rev (printint_loop digits 10 x))) (length (printint_loop digits 10 x)) = x"
proof (induction x rule: less_induct)
  case (less x)
  let ?d = "digits ! (x mod 10)"
  have d: "?d = of_nat (48 + x mod 10)" by (rule digits_nth) simp
  have u: "unat ?d = 48 + x mod 10" unfolding d unat_of_nat_byte by simp
  have r: "48 \<le> ?d \<and> ?d \<le> 57" using u by (auto simp: word_le_nat_alt)
  have cs: "dec_value (cstr (xs @ [c])) k = dec_value (cstr xs) k" if "k \<le> length xs" for xs c k
    using that by (induction k) (auto simp: cstr_def nth_append)
  have last_c: "cstr (rev xs @ [c]) (length xs) = c" and first_c: "cstr [c] 0 = c" for xs c
    by (simp_all add: cstr_def nth_append)
  have l: "printint_loop digits 10 x = ?d # (if x div 10 = 0 then [] else printint_loop digits 10 (x div 10))"
    by (subst printint_loop.simps) simp
  {
    case 1
    show ?case using less.IH(1) [of "x div 10"] r unfolding l by auto
  next
    case 2
    show ?case using less.IH(2) [of "x div 10"] u unfolding l by (cases "x div 10 = 0") (auto simp: cs last_c first_c)
  }
qed

lemma printint_loop_length:
  "x < base ^ k \<Longrightarrow> 0 < k \<Longrightarrow> length (printint_loop dg base x) \<le> k"
proof (induction k arbitrary: x)
  case (Suc k)
  show ?case
  proof (cases "base < 2 \<or> x div base = 0")
    case False
    then have "x div base < base ^ k" using Suc.prems(1) by (intro less_mult_imp_div_less) (simp add: mult.commute)
    moreover have "0 < k" using False calculation by (cases k) auto
    ultimately show ?thesis using Suc.IH False by (subst printint_loop.simps) simp
  qed (subst printint_loop.simps, auto)
qed simp

text \<open>
  C32: What \<^verbatim>\<open>printint\<close> prints in decimal for a signed number other than the smallest \<^verbatim>\<open>int\<close> (whose negation overflows) is a minus sign
  exactly if the number is negative, followed by decimal digits that have the absolute value of the number, which is also what
  \<^verbatim>\<open>atoi\<close> of the user library reads from them; and it fits into the buffer of 16 characters.
\<close>

theorem printint_atoi:
  assumes "- (2 ^ 31) < n" and "n < 2 ^ 31"
  shows "\<exists>ds. printint n 10 True = (if n < 0 then str ''-'' else []) @ ds
    \<and> ds \<noteq> [] \<and> (\<forall>c\<in>set ds. 48 \<le> c \<and> c \<le> 57) \<and> int (dec_value (cstr ds) (length ds)) = \<bar>n\<bar>
    \<and> atoi (cstr ds) = Some (word_of_int \<bar>n\<bar>) \<and> length (printint n 10 True) \<le> 16"
proof -
  let ?x = "nat \<bar>n\<bar>" and ?l = "printint_loop digits 10 (nat \<bar>n\<bar>)"
  have p: "printint n 10 True = (if n < 0 then str ''-'' else []) @ rev ?l"
    using assms by (auto simp: printint_def Let_def str_def)
  have "atoi_from (cstr (rev ?l)) 0 (of_nat (dec_value (cstr (rev ?l)) 0)) = Some (of_nat (dec_value (cstr (rev ?l)) (0 + length ?l)))"
  proof (rule atoi_from_digits)
    show "\<not> digit_at (cstr (rev ?l)) (0 + length ?l)" by (simp add: digit_at_def cstr_def)
    fix j assume "j < 0 + length ?l"
    then have "cstr (rev ?l) j \<in> set ?l" by (simp add: cstr_def) (metis length_rev nth_mem set_rev)
    then show "digit_at (cstr (rev ?l)) j" using printint_loop_dec(1) by (auto simp: digit_at_def)
  qed
  then have "atoi (cstr (rev ?l)) = Some (word_of_int \<bar>n\<bar>)"
    unfolding atoi_def by (simp add: printint_loop_dec(2))
  moreover have "length ?l \<le> 10" using assms by (intro printint_loop_length) auto
  moreover have "?l \<noteq> []" by (subst printint_loop.simps) simp
  ultimately show ?thesis
    using p printint_loop_dec by (intro exI [of _ "rev ?l"]) (auto simp: str_def)
qed

theorem printint_atoi_witness:
  "\<exists>ds. printint (- 2026) 10 True = str ''-'' @ ds \<and> ds \<noteq> [] \<and> (\<forall>c\<in>set ds. 48 \<le> c \<and> c \<le> 57)
     \<and> atoi (cstr ds) = Some 2026 \<and> length (printint (- 2026) 10 True) \<le> 16"
  using printint_atoi [of "- 2026"] by auto

lemma uartputc_screen [simp]:
  "crt (uartputc c s) = crt s" "cur (uartputc c s) = cur s" "panicked (uartputc c s) = panicked s"
  by (simp_all add: uartputc_def)

lemma cgaputc_screen:
  assumes "cur s < 24 * 80"
  shows "\<exists>s'. cgaputc c s = Ok s' \<and> cur s' < 24 * 80 \<and> (\<forall>i \<ge> 24 * 80. crt s' i = crt s i) \<and> panicked s' = panicked s"
proof -
  have "cur s + (80 - cur s mod 80) = 80 * (cur s div 80 + 1)"
  proof -
    have "c + (80 - r) = 80 * (q + 1)" if "80 * q + r = c" "r < 80" for c q r :: nat using that by auto
    from this [OF mult_div_mod_eq] show ?thesis by simp
  qed
  moreover have "cur s div 80 < 24" using assms by (simp add: less_mult_imp_div_less)
  ultimately have nl: "cur s + (80 - cur s mod 80) \<le> 1920" by simp
  have sc: "x div 80 \<ge> 24 \<longleftrightarrow> x \<ge> 1920" for x :: nat using div_le_mono [of 1920 x 80] less_mult_imp_div_less [of x 24 80] by fastforce
  show ?thesis
  proof (cases "c = 10")
    case True
    show ?thesis unfolding cgaputc_def sc using True nl by (simp add: Let_def)
  next
    case False
    show ?thesis unfolding cgaputc_def sc using False assms by (cases "c = BACKSPACE") (auto simp: Let_def)
  qed
qed

lemma consputc_screen:
  assumes "cur s < 24 * 80" and "\<not> panicked s"
  shows "\<exists>s'. consputc c s = Ok s' \<and> cur s' < 24 * 80 \<and> (\<forall>i \<ge> 24 * 80. crt s' i = crt s i) \<and> \<not> panicked s'"
  using assms cgaputc_screen [of "if c = BACKSPACE then uartputc 8 (uartputc 32 (uartputc 8 s)) else uartputc c s" c]
  by (auto simp: consputc_def split: if_split_asm)

text \<open>
  C11: The console is safe to print on: whatever sequence of characters, newlines and backspaces is printed while the
  kernel has not panicked, every \<^verbatim>\<open>consputc\<close> returns, the cursor stays in the 24 lines that scroll, and no cell of the
  video memory after them changes.
\<close>

theorem console_screen_safe:
  assumes "cur s < 24 * 80" and "\<not> panicked s"
  shows "\<exists>s'. for_each consputc cs s = Ok s' \<and> cur s' < 24 * 80 \<and> (\<forall>i \<ge> 24 * 80. crt s' i = crt s i) \<and> \<not> panicked s'"
  using assms
proof (induction cs arbitrary: s)
  case (Cons c cs)
  obtain t where t: "consputc c s = Ok t" "cur t < 24 * 80" "\<forall>i \<ge> 24 * 80. crt t i = crt s i" "\<not> panicked t"
    using consputc_screen [OF Cons.prems] by blast
  obtain s' where "for_each consputc cs t = Ok s'" "cur s' < 24 * 80" "\<forall>i \<ge> 24 * 80. crt s' i = crt t i" "\<not> panicked s'"
    using Cons.IH [OF t(2,4)] by blast
  then show ?case using t by auto
qed simp

definition demo_cons :: cons where
  "demo_cons = \<lparr>crt = (\<lambda>_. 0x0720), cur = 1900, uart = True, uart_out = [], panicked = False\<rparr>"

theorem console_screen_safe_witness:
  "\<exists>s'. for_each consputc [72, 105, 10, BACKSPACE] demo_cons = Ok s' \<and> cur s' < 1920 \<and> crt s' 2000 = 0x0720"
  using console_screen_safe [of demo_cons "[72, 105, 10, BACKSPACE]"] by (auto simp: demo_cons_def)

end
