(* ===== verification/Proc.thy ===== *)
theory Proc
  imports Spinlock File Cprintf
begin

text \<open>
  \<^verbatim>\<open>kernel/proc.c\<close>: the process table and the operations on it.  A pointer to a process is its index in \<^verbatim>\<open>ptable.proc\<close>; what
  the code does between \<^verbatim>\<open>acquire\<close> and \<^verbatim>\<open>release\<close> of \<^verbatim>\<open>ptable.lock\<close> is one step.  The argument \<open>me\<close> is \<^verbatim>\<open>proc\<close>, the process
  that runs, and \<open>c\<close> the processor it runs on.
\<close>

section \<open>State\<close>

datatype procstate = UNUSED | EMBRYO | SLEEPING | RUNNABLE | RUNNING | ZOMBIE

text \<open>What a process sleeps on: the address of a process, the clock, or another address.\<close>

datatype chan = Chan_proc nat | Chan_ticks | Chan_addr nat

record proc =
  p_sz :: nat
  p_pgdir :: nat
  p_kstack :: nat
  p_state :: procstate
  p_pid :: int
  p_parent :: "nat option"
  p_tf :: nat
  p_context :: nat
  p_chan :: "chan option"
  p_killed :: bool
  p_ofile :: "nat option list"
  p_cwd :: "nat option"
  p_name :: "byte list"

text \<open>What the linker provides: the end of the kernel, two addresses of code, the image of \<^verbatim>\<open>initcode.S\<close>; and the local pages of the processors.\<close>

record kimage =
  img_end :: nat
  img_trapret :: nat
  img_forkret :: nat
  img_initcode :: "byte list"
  img_local :: "nat \<Rightarrow> nat"

text \<open>\<open>onproc\<close> is the per-processor variable \<^verbatim>\<open>proc\<close>, \<open>cr3\<close> the page table register of each processor.\<close>

record kstate = fstate +
  procs :: "nat \<Rightarrow> proc"
  initproc :: "nat option"
  nextpid :: int
  ticks :: nat
  first :: bool
  onproc :: "nat \<Rightarrow> nat option"
  cr3 :: "nat \<Rightarrow> nat"
  kvm :: kvm
  img :: kimage

definition setproc :: "nat \<Rightarrow> proc \<Rightarrow> 'z kstate_scheme \<Rightarrow> 'z kstate_scheme" where
  "setproc p x s = s\<lparr>procs := (procs s)(p := x)\<rparr>"

definition setmem :: "kmem \<Rightarrow> 'z kstate_scheme \<Rightarrow> 'z kstate_scheme" where
  "setmem K s = s\<lparr>f_mem := K\<rparr>"

definition store :: "(mem \<Rightarrow> mem) \<Rightarrow> 'z kstate_scheme \<Rightarrow> 'z kstate_scheme" where
  "store f s = s\<lparr>f_mem := (f_mem s)\<lparr>pmem := f (pmem (f_mem s))\<rparr>\<rparr>"

definition KSTACKSIZE :: nat where "KSTACKSIZE = 4096"

text \<open>\<^verbatim>\<open>struct trapframe\<close> and \<^verbatim>\<open>struct context\<close>: the offsets of the registers.\<close>

definition tf_eax :: nat where "tf_eax = 0"
definition tf_rcx :: nat where "tf_rcx = 16"
definition tf_rdx :: nat where "tf_rdx = 24"
definition tf_rsi :: nat where "tf_rsi = 40"
definition tf_rdi :: nat where "tf_rdi = 48"
definition tf_r8 :: nat where "tf_r8 = 56"
definition tf_r9 :: nat where "tf_r9 = 64"
definition tf_trapno :: nat where "tf_trapno = 120"
definition tf_err :: nat where "tf_err = 128"
definition tf_eip :: nat where "tf_eip = 136"
definition tf_cs :: nat where "tf_cs = 144"
definition tf_eflags :: nat where "tf_eflags = 152"
definition tf_esp :: nat where "tf_esp = 160"
definition tf_ds :: nat where "tf_ds = 168"
definition TF_SIZE :: nat where "TF_SIZE = 176"
definition ctx_ebp :: nat where "ctx_ebp = 48"
definition ctx_eip :: nat where "ctx_eip = 56"
definition CTX_SIZE :: nat where "CTX_SIZE = 64"

definition tf_get :: "nat \<Rightarrow> nat \<Rightarrow> 'z kstate_scheme \<Rightarrow> nat" where
  "tf_get me r s = rd64 (pmem (f_mem s)) (p_tf (procs s me) + r)"

definition tf_set :: "nat \<Rightarrow> nat \<Rightarrow> nat \<Rightarrow> 'z kstate_scheme \<Rightarrow> 'z kstate_scheme" where
  "tf_set me r v s = store (wr64 (p_tf (procs s me) + r) v) s"

text \<open>\<^verbatim>\<open>safestrcpy(name, src, sizeof(name))\<close> for a name of 16 bytes.\<close>

definition set_name :: "byte list \<Rightarrow> (nat \<Rightarrow> byte) \<Rightarrow> byte list" where
  "set_name old src = map (safestrcpy 0 16 16 (\<lambda>a. if a < 16 then cstr old a else src (a - 16))) [0..<16]"

section \<open>Creation\<close>

text \<open>
  \<^verbatim>\<open>nextpid\<close> is an \<^verbatim>\<open>int\<close>: at the largest one, \<^verbatim>\<open>nextpid++\<close> overflows, which C leaves undefined.
\<close>

definition INT_MAX :: int where "INT_MAX = 2 ^ 31 - 1"

definition allocproc :: "'z kstate_scheme \<Rightarrow> (nat option \<times> 'z kstate_scheme) res" where
  "allocproc s =
     (case List.find (\<lambda>p. p_state (procs s p) = UNUSED) [0..<NPROC] of
        None \<Rightarrow> Ok (None, s)
      | Some p \<Rightarrow>
          if INT_MAX \<le> nextpid s then Undef
          else
            let s = setproc p ((procs s p)\<lparr>p_state := EMBRYO, p_pid := nextpid s\<rparr>) (s\<lparr>nextpid := nextpid s + 1\<rparr>);
                (kstack, K) = kalloc (f_mem s);
                s = setproc p ((procs s p)\<lparr>p_kstack := kstack\<rparr>) (setmem K s)
            in if kstack = 0 then Ok (None, setproc p ((procs s p)\<lparr>p_state := UNUSED\<rparr>) s)
               else
                 let sp = kstack + KSTACKSIZE - TF_SIZE; tf = sp;
                     sp = sp - 8; s = store (wr64 sp (img_trapret (img s))) s;
                     sp = sp - CTX_SIZE;
                     s = store (\<lambda>m. wr64 (sp + ctx_eip) (img_forkret (img s)) (memset sp 0 CTX_SIZE m)) s
                 in Ok (Some p, setproc p ((procs s p)\<lparr>p_tf := tf, p_context := sp\<rparr>) s))"

definition userinit :: "'z kstate_ext fstate_ext devsw \<Rightarrow> 'z kstate_scheme \<Rightarrow> 'z kstate_scheme res" where
  "userinit devsw s =
     rbind (allocproc s) (\<lambda>(r, s).
     case r of
       None \<Rightarrow> Undef
     | Some p \<Rightarrow>
         let s = s\<lparr>initproc := Some p\<rparr>
         in rbind (setupkvm (k_pdpt (kvm s)) (f_mem s)) (\<lambda>(pgdir, K).
            let s = setproc p ((procs s p)\<lparr>p_pgdir := pgdir\<rparr>) (setmem K s)
            in if pgdir = 0 then Panic ''userinit: out of memory?''
               else
                 rbind (inituvm pgdir (img_initcode (img s)) (f_mem s)) (\<lambda>K.
                 let s = setproc p ((procs s p)\<lparr>p_sz := PGSIZE\<rparr>) (setmem K s);
                     s = store (memset (p_tf (procs s p)) 0 TF_SIZE) s;
                     s = tf_set p tf_cs (4 * 8 + 3) s;
                     s = tf_set p tf_ds (5 * 8 + 3) s;
                     s = tf_set p tf_eflags 0x200 s;
                     s = tf_set p tf_esp PGSIZE s;
                     s = tf_set p tf_eip 0 s;
                     s = setproc p ((procs s p)\<lparr>p_name := set_name (p_name (procs s p)) (cstr (str ''initcode''))\<rparr>) s
                 in rbind (namei devsw 0 (str ''/'') s) (\<lambda>(cwd, s).
                    Ok (setproc p ((procs s p)\<lparr>p_cwd := cwd, p_state := RUNNABLE\<rparr>) s)))))"

text \<open>\<^verbatim>\<open>switchuvm(p)\<close> on processor \<open>c\<close>, which takes the stack from \<^verbatim>\<open>proc\<close>.\<close>

definition k_switchuvm :: "nat \<Rightarrow> nat \<Rightarrow> nat \<Rightarrow> 'z kstate_scheme \<Rightarrow> 'z kstate_scheme res" where
  "k_switchuvm c me p s =
     rbind (switchuvm (img_local (img s) c) (p_pgdir (procs s p)) (p_kstack (procs s me)) (f_mem s)) (\<lambda>(pml4, K).
     Ok ((setmem K s)\<lparr>cr3 := (cr3 s)(c := pml4)\<rparr>))"

text \<open>\<^verbatim>\<open>sz\<close> is an \<^verbatim>\<open>uint\<close> here, as are the results of the calls.\<close>

definition growproc :: "nat \<Rightarrow> nat \<Rightarrow> int \<Rightarrow> 'z kstate_scheme \<Rightarrow> (int \<times> 'z kstate_scheme) res" where
  "growproc c me n s =
     (let sz = u32 (p_sz (procs s me)); newsz = nat ((int sz + n) mod 2 ^ 32); pgdir = p_pgdir (procs s me);
          kend = img_end (img s)
      in rbind (if n > 0 then rbind (allocuvm kend pgdir sz newsz (f_mem s)) (\<lambda>(sz, K). Ok (u32 sz, K))
                else if n < 0 then deallocuvm kend pgdir sz newsz (f_mem s)
                else Ok (sz, f_mem s)) (\<lambda>(sz, K).
         let s = setmem K s
         in if n \<noteq> 0 \<and> sz = 0 then Ok (-1, s)
            else rbind (k_switchuvm c me me (setproc me ((procs s me)\<lparr>p_sz := sz\<rparr>) s)) (\<lambda>s. Ok (0, s))))"

text \<open>The loop of \<^verbatim>\<open>fork\<close> over the open files.\<close>

definition fork_file :: "nat \<Rightarrow> nat \<Rightarrow> nat \<Rightarrow> 'z kstate_scheme \<Rightarrow> 'z kstate_scheme res" where
  "fork_file me np i s =
     (case p_ofile (procs s me) ! i of
        None \<Rightarrow> Ok s
      | Some f \<Rightarrow> rbind (filedup f s) (\<lambda>s.
          Ok (setproc np ((procs s np)\<lparr>p_ofile := (p_ofile (procs s np))[i := Some f]\<rparr>) s)))"

text \<open>
  \<^verbatim>\<open>fork\<close> from the copy of the size on.  The new process is \<^verbatim>\<open>EMBRYO\<close> until the end; until then the others can do no more to its
  entry than to mark it killed.  \<^verbatim>\<open>fork\<close> is one step here, and the states in between are not seen.
\<close>

definition fork_copy :: "nat \<Rightarrow> nat \<Rightarrow> 'z kstate_scheme \<Rightarrow> (int \<times> 'z kstate_scheme) res" where
  "fork_copy me np s =
     (let s = setproc np ((procs s np)\<lparr>p_sz := p_sz (procs s me), p_parent := Some me\<rparr>) s;
          s = store (memmove (p_tf (procs s np)) (p_tf (procs s me)) TF_SIZE) s;
          s = tf_set np tf_eax 0 s
      in rbind (for_each (fork_file me np) [0..<NOFILE] s) (\<lambda>s.
         case p_cwd (procs s me) of
           None \<Rightarrow> Undef
         | Some cwd \<Rightarrow>
             let s = idup cwd s;
                 s = setproc np ((procs s np)\<lparr>p_cwd := Some cwd,
                       p_name := set_name (p_name (procs s np)) (cstr (p_name (procs s me)))\<rparr>) s;
                 pid = p_pid (procs s np)
             in Ok (pid, setproc np ((procs s np)\<lparr>p_state := RUNNABLE\<rparr>) s)))"

definition fork :: "nat \<Rightarrow> 'z kstate_scheme \<Rightarrow> (int \<times> 'z kstate_scheme) res" where
  "fork me s =
     rbind (allocproc s) (\<lambda>(r, s).
     case r of
       None \<Rightarrow> Ok (-1, s)
     | Some np \<Rightarrow>
         rbind (copyuvm (img_end (img s)) (k_pdpt (kvm s)) (p_pgdir (procs s me)) (u32 (p_sz (procs s me))) (f_mem s)) (\<lambda>(pgdir, K).
         let s = setproc np ((procs s np)\<lparr>p_pgdir := pgdir\<rparr>) (setmem K s)
         in if pgdir = 0 then
              rbind (kfree (img_end (img s)) (p_kstack (procs s np)) (f_mem s)) (\<lambda>K.
              Ok (-1, setproc np ((procs s np)\<lparr>p_kstack := 0, p_state := UNUSED\<rparr>) (setmem K s)))
            else fork_copy me np s))"

section \<open>Sleep and wakeup\<close>

definition wakeup1 :: "chan \<Rightarrow> 'z kstate_scheme \<Rightarrow> 'z kstate_scheme" where
  "wakeup1 ch s =
     s\<lparr>procs := \<lambda>p. if p < NPROC \<and> p_state (procs s p) = SLEEPING \<and> p_chan (procs s p) = Some ch
                    then (procs s p)\<lparr>p_state := RUNNABLE\<rparr> else procs s p\<rparr>"

definition wakeup :: "chan \<Rightarrow> 'z kstate_scheme \<Rightarrow> 'z kstate_scheme" where
  "wakeup ch s = wakeup1 ch s"

text \<open>\<^verbatim>\<open>sched\<close>: its checks, for the lock of the table and the processor \<open>x\<close> number \<open>c\<close>; if they pass the processor goes to its scheduler.\<close>

definition sched :: "nat \<Rightarrow> spinlock \<Rightarrow> cpu \<Rightarrow> nat \<Rightarrow> 'z kstate_scheme \<Rightarrow> unit res" where
  "sched c ptlock x me s =
     (if \<not> holding c ptlock then Panic ''sched ptable.lock''
      else if ncli x \<noteq> 1 then Panic ''sched locks''
      else if p_state (procs s me) = RUNNING then Panic ''sched running''
      else if c_if x then Panic ''sched interruptible''
      else Ok ())"

text \<open>\<^verbatim>\<open>sleep\<close> up to the switch to the scheduler, and what it does when the process runs again.\<close>

definition sleep :: "chan \<Rightarrow> nat \<Rightarrow> 'z kstate_scheme \<Rightarrow> 'z kstate_scheme" where
  "sleep ch me s = setproc me ((procs s me)\<lparr>p_chan := Some ch, p_state := SLEEPING\<rparr>) s"

definition sleep_done :: "nat \<Rightarrow> 'z kstate_scheme \<Rightarrow> 'z kstate_scheme" where
  "sleep_done me s = setproc me ((procs s me)\<lparr>p_chan := None\<rparr>) s"

definition yield :: "nat \<Rightarrow> 'z kstate_scheme \<Rightarrow> 'z kstate_scheme" where
  "yield me s = setproc me ((procs s me)\<lparr>p_state := RUNNABLE\<rparr>) s"

definition kill :: "int \<Rightarrow> 'z kstate_scheme \<Rightarrow> int \<times> 'z kstate_scheme" where
  "kill pid s =
     (case List.find (\<lambda>p. p_pid (procs s p) = pid) [0..<NPROC] of
        None \<Rightarrow> (-1, s)
      | Some p \<Rightarrow>
          let x = (procs s p)\<lparr>p_killed := True\<rparr>
          in (0, setproc p (if p_state x = SLEEPING then x\<lparr>p_state := RUNNABLE\<rparr> else x) s))"

section \<open>Exit and wait\<close>

definition exit_file :: "nat \<Rightarrow> nat \<Rightarrow> 'z kstate_scheme \<Rightarrow> 'z kstate_scheme res" where
  "exit_file me fd s =
     (case p_ofile (procs s me) ! fd of
        None \<Rightarrow> Ok s
      | Some f \<Rightarrow> rbind (fileclose (img_end (img s)) f s) (\<lambda>s.
          Ok (setproc me ((procs s me)\<lparr>p_ofile := (p_ofile (procs s me))[fd := None]\<rparr>) s)))"

text \<open>One process of the loop that passes the children to \<^verbatim>\<open>init\<close>.\<close>

definition reparent :: "nat \<Rightarrow> nat \<Rightarrow> 'z kstate_scheme \<Rightarrow> 'z kstate_scheme" where
  "reparent me p s =
     (if p_parent (procs s p) = Some me then
        let s = setproc p ((procs s p)\<lparr>p_parent := initproc s\<rparr>) s
        in if p_state (procs s p) = ZOMBIE
           then (case initproc s of Some i \<Rightarrow> wakeup1 (Chan_proc i) s | None \<Rightarrow> s) else s
      else s)"

text \<open>
  \<^verbatim>\<open>exit\<close> in two parts.  In the first the process closes its files and drops its directory, for which it may have to wait; the second,
  under \<^verbatim>\<open>ptable.lock\<close>, changes the process table.  \<open>exit\<close> is the run in which the first part does not have to wait.
\<close>

definition exit_close :: "nat \<Rightarrow> 'z kstate_scheme \<Rightarrow> 'z kstate_scheme res" where
  "exit_close me s =
     rbind (for_each (exit_file me) [0..<NOFILE] s) (\<lambda>s.
     rbind (begin_op s) (\<lambda>s.
     case p_cwd (procs s me) of
       None \<Rightarrow> Undef
     | Some cwd \<Rightarrow>
         rbind (iput cwd s) (\<lambda>s.
         rbind (end_op s) (\<lambda>s.
         Ok (setproc me ((procs s me)\<lparr>p_cwd := None\<rparr>) s)))))"

definition exit_table :: "nat \<Rightarrow> 'z kstate_scheme \<Rightarrow> 'z kstate_scheme" where
  "exit_table me s =
     (let s = (case p_parent (procs s me) of Some q \<Rightarrow> wakeup1 (Chan_proc q) s | None \<Rightarrow> s);
          s = fold (reparent me) [0..<NPROC] s
      in setproc me ((procs s me)\<lparr>p_state := ZOMBIE\<rparr>) s)"

definition exit :: "nat \<Rightarrow> 'z kstate_scheme \<Rightarrow> 'z kstate_scheme res" where
  "exit me s =
     (if initproc s = Some me then Panic ''init exiting''
      else rbind (exit_close me s) (\<lambda>s. Ok (exit_table me s)))"

text \<open>\<^verbatim>\<open>wait\<close> between two sleeps: the identifier or \<open>-1\<close>, or \<^const>\<open>None\<close> when the process goes to sleep.\<close>

definition wait :: "nat \<Rightarrow> 'z kstate_scheme \<Rightarrow> (int option \<times> 'z kstate_scheme) res" where
  "wait me s =
     (case List.find (\<lambda>p. p_parent (procs s p) = Some me \<and> p_state (procs s p) = ZOMBIE) [0..<NPROC] of
        Some p \<Rightarrow>
          let pid = p_pid (procs s p)
          in rbind (kfree (img_end (img s)) (p_kstack (procs s p)) (f_mem s)) (\<lambda>K.
             let s = setproc p ((procs s p)\<lparr>p_kstack := 0\<rparr>) (setmem K s)
             in rbind (freevm (img_end (img s)) (p_pgdir (procs s p)) (f_mem s)) (\<lambda>K.
                Ok (Some pid, setproc p ((procs s p)\<lparr>p_state := UNUSED, p_pid := 0, p_parent := None,
                   p_name := (p_name (procs s p))[0 := 0], p_killed := False\<rparr>) (setmem K s))))
      | None \<Rightarrow>
          if (\<forall>p < NPROC. p_parent (procs s p) \<noteq> Some me) \<or> p_killed (procs s me) then Ok (Some (-1), s)
          else Ok (None, sleep (Chan_proc me) me s))"

section \<open>Scheduling\<close>

text \<open>\<^verbatim>\<open>scheduler\<close> at entry \<open>p\<close> of the table, up to the switch; and after the switch back.\<close>

definition scheduler_at :: "nat \<Rightarrow> nat \<Rightarrow> 'z kstate_scheme \<Rightarrow> 'z kstate_scheme res" where
  "scheduler_at c p s =
     (let s = s\<lparr>onproc := (onproc s)(c := Some p)\<rparr>
      in rbind (k_switchuvm c p p s) (\<lambda>s. Ok (setproc p ((procs s p)\<lparr>p_state := RUNNING\<rparr>) s)))"

definition scheduler_back :: "nat \<Rightarrow> 'z kstate_scheme \<Rightarrow> 'z kstate_scheme" where
  "scheduler_back c s = s\<lparr>cr3 := (cr3 s)(c := switchkvm (kvm s)), onproc := (onproc s)(c := None)\<rparr>"

text \<open>
  One round of \<^verbatim>\<open>scheduler\<close> over the entries \<open>ps\<close>; \<open>run p\<close> is what happens from the switch to \<open>p\<close> until it switches back.
  The result lists the processes that ran.
\<close>

fun scheduler :: "nat \<Rightarrow> (nat \<Rightarrow> 'z kstate_scheme \<Rightarrow> 'z kstate_scheme) \<Rightarrow> nat list \<Rightarrow> 'z kstate_scheme \<Rightarrow> (nat list \<times> 'z kstate_scheme) res" where
  "scheduler c run [] s = Ok ([], s)"
| "scheduler c run (p # ps) s =
     (if p_state (procs s p) \<noteq> RUNNABLE then scheduler c run ps s
      else rbind (scheduler_at c p s) (\<lambda>s.
           rbind (scheduler c run ps (scheduler_back c (run p s))) (\<lambda>(ran, s). Ok (p # ran, s))))"

definition forkret :: "'z kstate_scheme \<Rightarrow> 'z kstate_scheme res" where
  "forkret s = (if first s then initlog (s\<lparr>first := False\<rparr>) else Ok s)"

section \<open>The process listing\<close>

definition state_name :: "procstate \<Rightarrow> byte list" where
  "state_name st =
     (case st of
        UNUSED \<Rightarrow> str ''???'' | EMBRYO \<Rightarrow> str ''embryo'' | SLEEPING \<Rightarrow> str ''sleep '' | RUNNABLE \<Rightarrow> str ''runble''
      | RUNNING \<Rightarrow> str ''run   '' | ZOMBIE \<Rightarrow> str ''zombie'')"

definition procdump_line :: "mem \<Rightarrow> proc \<Rightarrow> byte list res" where
  "procdump_line m p =
     (if p_state p = UNUSED then Ok []
      else
        rbind (cprintf (str ''%d %s %s'') [Arg_int (p_pid p), Arg_str (Some (state_name (p_state p))), Arg_str (Some (p_name p))]) (\<lambda>a.
        rbind (if p_state p = SLEEPING then
                 Ok (concat (map (\<lambda>pc. str '' '' @ printptr pc)
                       (takeWhile (\<lambda>pc. pc \<noteq> 0) (getstackpcs m (rd64 m (p_context p + ctx_ebp))))))
               else Ok []) (\<lambda>b.
        Ok (a @ b @ [10]))))"

definition procdump :: "'z kstate_scheme \<Rightarrow> byte list res" where
  "procdump s =
     for_each (\<lambda>p out. rbind (procdump_line (pmem (f_mem s)) (procs s p)) (\<lambda>l. Ok (out @ l))) [0..<NPROC] []"

end
