(* ===== verification/Proc_Inv.thy ===== *)
theory Proc_Inv
  imports Proc
begin

text \<open>
  The process table as an abstract state machine: the state, the parent, the identifier and the channel of each
  process.  The operations of \<^verbatim>\<open>kernel/proc.c\<close> are steps of the machine, and an invariant of its steps gives that no
  process is orphaned, that identifiers are unique, and that no parent misses the exit of a child.
\<close>

section \<open>The abstract process table\<close>

record pent =
  e_state :: procstate
  e_parent :: "nat option"
  e_pid :: int
  e_chan :: "chan option"

record ptab =
  pt_init :: "nat option"
  pt_next :: int
  pt :: "nat \<Rightarrow> pent"

definition pent_of :: "proc \<Rightarrow> pent" where
  "pent_of p = \<lparr>e_state = p_state p, e_parent = p_parent p, e_pid = p_pid p, e_chan = p_chan p\<rparr>"

definition ptab_of :: "'z kstate_scheme \<Rightarrow> ptab" where
  "ptab_of s = \<lparr>pt_init = initproc s, pt_next = nextpid s, pt = \<lambda>p. pent_of (procs s p)\<rparr>"

definition set_ent_of :: "nat \<Rightarrow> pent \<Rightarrow> ptab \<Rightarrow> ptab" where
  "set_ent_of p e t = t\<lparr>pt := (pt t)(p := e)\<rparr>"

definition pt_wake :: "chan \<Rightarrow> ptab \<Rightarrow> ptab" where
  "pt_wake ch t = t\<lparr>pt := \<lambda>p. if p < NPROC \<and> e_state (pt t p) = SLEEPING \<and> e_chan (pt t p) = Some ch
                             then (pt t p)\<lparr>e_state := RUNNABLE\<rparr> else pt t p\<rparr>"

definition pt_reparent :: "nat \<Rightarrow> nat \<Rightarrow> ptab \<Rightarrow> ptab" where
  "pt_reparent me p t =
     (if e_parent (pt t p) = Some me then
        let t = set_ent_of p ((pt t p)\<lparr>e_parent := pt_init t\<rparr>) t
        in if e_state (pt t p) = ZOMBIE then (case pt_init t of Some i \<Rightarrow> pt_wake (Chan_proc i) t | None \<Rightarrow> t) else t
      else t)"

definition pt_exit :: "nat \<Rightarrow> ptab \<Rightarrow> ptab" where
  "pt_exit me t =
     (let t = (case e_parent (pt t me) of Some q \<Rightarrow> pt_wake (Chan_proc q) t | None \<Rightarrow> t);
          t = fold (pt_reparent me) [0..<NPROC] t
      in set_ent_of me ((pt t me)\<lparr>e_state := ZOMBIE\<rparr>) t)"

inductive pt_step :: "ptab \<Rightarrow> ptab \<Rightarrow> bool" where
  st_refl: "pt_step t t"
| st_pid: "p < NPROC \<Longrightarrow> e_state (pt t p) = UNUSED \<Longrightarrow> pt_next t < INT_MAX
    \<Longrightarrow> pt_step t (set_ent_of p ((pt t p)\<lparr>e_pid := pt_next t\<rparr>) (t\<lparr>pt_next := pt_next t + 1\<rparr>))"
| st_fork: "p < NPROC \<Longrightarrow> e_state (pt t p) = UNUSED \<Longrightarrow> pt_next t < INT_MAX
    \<Longrightarrow> me < NPROC \<Longrightarrow> e_state (pt t me) = RUNNING
    \<Longrightarrow> pt_step t (set_ent_of p ((pt t p)\<lparr>e_pid := pt_next t, e_state := RUNNABLE, e_parent := Some me\<rparr>) (t\<lparr>pt_next := pt_next t + 1\<rparr>))"
| st_exit: "me < NPROC \<Longrightarrow> e_state (pt t me) = RUNNING \<Longrightarrow> pt_init t \<noteq> Some me \<Longrightarrow> pt_step t (pt_exit me t)"
| st_reap: "p < NPROC \<Longrightarrow> e_state (pt t p) = ZOMBIE
    \<Longrightarrow> pt_step t (set_ent_of p ((pt t p)\<lparr>e_state := UNUSED, e_pid := 0, e_parent := None\<rparr>) t)"
| st_wait: "me < NPROC \<Longrightarrow> e_state (pt t me) = RUNNING
    \<Longrightarrow> \<forall>p < NPROC. e_parent (pt t p) = Some me \<longrightarrow> e_state (pt t p) \<noteq> ZOMBIE
    \<Longrightarrow> pt_step t (set_ent_of me ((pt t me)\<lparr>e_chan := Some (Chan_proc me), e_state := SLEEPING\<rparr>) t)"
| st_sleep: "me < NPROC \<Longrightarrow> e_state (pt t me) = RUNNING \<Longrightarrow> \<forall>q. ch \<noteq> Chan_proc q
    \<Longrightarrow> pt_step t (set_ent_of me ((pt t me)\<lparr>e_chan := Some ch, e_state := SLEEPING\<rparr>) t)"
| st_awake: "me < NPROC \<Longrightarrow> e_state (pt t me) = RUNNING \<Longrightarrow> pt_step t (set_ent_of me ((pt t me)\<lparr>e_chan := None\<rparr>) t)"
| st_wakeup: "pt_step t (pt_wake ch t)"
| st_state: "p < NPROC \<Longrightarrow> {a, b} \<subseteq> {SLEEPING, RUNNABLE, RUNNING} \<Longrightarrow> e_state (pt t p) = a \<Longrightarrow> b \<noteq> SLEEPING
    \<Longrightarrow> pt_step t (set_ent_of p ((pt t p)\<lparr>e_state := b\<rparr>) t)"

section \<open>The invariant\<close>

definition alive :: "pent \<Rightarrow> bool" where
  "alive e \<longleftrightarrow> e_state e \<in> {SLEEPING, RUNNABLE, RUNNING}"

definition tree_ok :: "ptab \<Rightarrow> bool" where
  "tree_ok t \<longleftrightarrow> (\<exists>i. pt_init t = Some i \<and> i < NPROC \<and> alive (pt t i)
     \<and> (\<forall>p < NPROC. p \<noteq> i \<and> e_state (pt t p) \<noteq> UNUSED \<longrightarrow>
          (\<exists>q < NPROC. q \<noteq> p \<and> e_parent (pt t p) = Some q \<and> alive (pt t q))))
     \<and> (\<forall>p < NPROC. e_state (pt t p) = UNUSED \<longrightarrow> e_parent (pt t p) = None)"

definition pids_ok :: "ptab \<Rightarrow> bool" where
  "pids_ok t \<longleftrightarrow> 0 < pt_next t \<and> pt_next t \<le> INT_MAX \<and> (\<forall>p < NPROC. e_pid (pt t p) < pt_next t)
     \<and> (\<forall>p < NPROC. e_state (pt t p) \<noteq> UNUSED \<longrightarrow> 0 < e_pid (pt t p))
     \<and> (\<forall>p < NPROC. \<forall>q < NPROC. e_state (pt t p) \<noteq> UNUSED \<and> e_state (pt t q) \<noteq> UNUSED \<and> e_pid (pt t p) = e_pid (pt t q) \<longrightarrow> p = q)"

text \<open>A parent is \<^verbatim>\<open>init\<close> or older than its child, so that parents form no cycle.\<close>

definition age_ok :: "ptab \<Rightarrow> bool" where
  "age_ok t \<longleftrightarrow> (\<forall>p < NPROC. e_state (pt t p) \<noteq> UNUSED \<and> pt_init t \<noteq> Some p \<longrightarrow>
     (\<forall>q. e_parent (pt t p) = Some q \<longrightarrow> pt_init t = Some q \<or> e_pid (pt t q) < e_pid (pt t p)))"

text \<open>A process that sleeps in \<^verbatim>\<open>wait\<close> has no child to collect.\<close>

definition wait_ok :: "ptab \<Rightarrow> bool" where
  "wait_ok t \<longleftrightarrow> (\<forall>q < NPROC. e_state (pt t q) = SLEEPING \<and> e_chan (pt t q) = Some (Chan_proc q) \<longrightarrow>
     (\<forall>p < NPROC. e_parent (pt t p) = Some q \<longrightarrow> e_state (pt t p) \<noteq> ZOMBIE))"

lemmas pt_defs = set_ent_of_def pt_wake_def alive_def

lemma pt_wake_sel [simp]:
  "pt_init (pt_wake ch t) = pt_init t" "pt_next (pt_wake ch t) = pt_next t"
  "e_parent (pt (pt_wake ch t) p) = e_parent (pt t p)" "e_pid (pt (pt_wake ch t) p) = e_pid (pt t p)"
  "e_chan (pt (pt_wake ch t) p) = e_chan (pt t p)"
  "e_state (pt (pt_wake ch t) p) = ZOMBIE \<longleftrightarrow> e_state (pt t p) = ZOMBIE"
  "e_state (pt (pt_wake ch t) p) = UNUSED \<longleftrightarrow> e_state (pt t p) = UNUSED"
  "e_state (pt (pt_wake ch t) p) = RUNNING \<longleftrightarrow> e_state (pt t p) = RUNNING"
  "e_state (pt (pt_wake ch t) p) = SLEEPING \<longleftrightarrow> e_state (pt t p) = SLEEPING \<and> \<not> (p < NPROC \<and> e_chan (pt t p) = Some ch)"
  "alive (pt (pt_wake ch t) p) \<longleftrightarrow> alive (pt t p)"
  by (auto simp: pt_defs)

lemma set_ent_sel [simp]:
  "pt (set_ent_of p e t) = (pt t)(p := e)" "pt_init (set_ent_of p e t) = pt_init t" "pt_next (set_ent_of p e t) = pt_next t"
  by (simp_all add: set_ent_of_def)

lemma pids_ok_cong:
  assumes "pids_ok t" and "\<And>p. e_pid (pt u p) = e_pid (pt t p)"
    and "\<And>p. e_state (pt u p) = UNUSED \<longleftrightarrow> e_state (pt t p) = UNUSED" and "pt_next u = pt_next t"
  shows "pids_ok u"
  using assms(1) unfolding pids_ok_def assms(2-4) .

lemma pt_wake_ok:
  "tree_ok t \<Longrightarrow> tree_ok (pt_wake ch t)" "pids_ok t \<Longrightarrow> pids_ok (pt_wake ch t)" "age_ok t \<Longrightarrow> age_ok (pt_wake ch t)"
  "wait_ok t \<Longrightarrow> wait_ok (pt_wake ch t)"
  by (auto simp: tree_ok_def pids_ok_def age_ok_def wait_ok_def)

text \<open>\<open>reparented\<close>: what holds after the loop of \<^verbatim>\<open>exit\<close> has passed the entries below \<open>n\<close>.\<close>

definition reparented :: "nat \<Rightarrow> nat \<Rightarrow> ptab \<Rightarrow> bool" where
  "reparented me n t \<longleftrightarrow> tree_ok t \<and> pids_ok t \<and> age_ok t \<and> wait_ok t \<and> e_state (pt t me) = RUNNING \<and> pt_init t \<noteq> Some me
     \<and> (\<forall>p < n. e_parent (pt t p) \<noteq> Some me)
     \<and> (\<forall>q. e_parent (pt t me) = Some q \<longrightarrow> q < NPROC \<and> \<not> (e_state (pt t q) = SLEEPING \<and> e_chan (pt t q) = Some (Chan_proc q)))"

lemma tree_okD:
  assumes "tree_ok t"
  shows "\<exists>i. pt_init t = Some i \<and> i < NPROC \<and> alive (pt t i)"
    "p < NPROC \<Longrightarrow> pt_init t \<noteq> Some p \<Longrightarrow> e_state (pt t p) \<noteq> UNUSED
      \<Longrightarrow> \<exists>q < NPROC. q \<noteq> p \<and> e_parent (pt t p) = Some q \<and> alive (pt t q)"
    "p < NPROC \<Longrightarrow> e_state (pt t p) = UNUSED \<Longrightarrow> e_parent (pt t p) = None"
  using assms by (auto simp: tree_ok_def)

lemma tree_okI:
  assumes "pt_init t = Some i" "i < NPROC" "alive (pt t i)"
    and "\<And>p. p < NPROC \<Longrightarrow> p \<noteq> i \<Longrightarrow> e_state (pt t p) \<noteq> UNUSED
      \<Longrightarrow> \<exists>q < NPROC. q \<noteq> p \<and> e_parent (pt t p) = Some q \<and> alive (pt t q)"
    and "\<And>p. p < NPROC \<Longrightarrow> e_state (pt t p) = UNUSED \<Longrightarrow> e_parent (pt t p) = None"
  shows "tree_ok t"
  using assms by (auto simp: tree_ok_def)

lemma reparent_step:
  assumes r: "reparented me n t" and n: "n < NPROC" and me: "me < NPROC"
  shows "reparented me (Suc n) (pt_reparent me n t)"
proof (cases "e_parent (pt t n) = Some me")
  case False
  then show ?thesis using r by (auto simp: reparented_def pt_reparent_def less_Suc_eq)
next
  case True
  have T: "tree_ok t" and P: "pids_ok t" and A: "age_ok t" and W: "wait_ok t" and R: "e_state (pt t me) = RUNNING" and I: "pt_init t \<noteq> Some me"
    and Q: "\<And>p. p < n \<Longrightarrow> e_parent (pt t p) \<noteq> Some me"
    and S: "\<And>q. e_parent (pt t me) = Some q \<Longrightarrow> q < NPROC \<and> \<not> (e_state (pt t q) = SLEEPING \<and> e_chan (pt t q) = Some (Chan_proc q))"
    using r by (auto simp: reparented_def)
  obtain i where i: "pt_init t = Some i" "i < NPROC" "alive (pt t i)" "i \<noteq> me" using tree_okD(1) [OF T] I by auto
  let ?t = "set_ent_of n ((pt t n)\<lparr>e_parent := Some i\<rparr>) t"
  have ne: "n \<noteq> me" using tree_okD(2) [OF T me I] R True by auto
  have alive: "alive (pt ?t p) = alive (pt t p)" for p by (simp add: alive_def)
  let ?u = "if e_state (pt t n) = ZOMBIE then pt_wake (Chan_proc i) ?t else ?t"
  have "tree_ok ?t"
  proof (rule tree_okI)
    show "pt_init ?t = Some i" "i < NPROC" using i by simp_all
    show "alive (pt ?t i)" unfolding alive using i by simp
    fix p assume p: "p < NPROC" 
    { assume "p \<noteq> i" "e_state (pt ?t p) \<noteq> UNUSED"
      then show "\<exists>q < NPROC. q \<noteq> p \<and> e_parent (pt ?t p) = Some q \<and> alive (pt ?t q)"
        unfolding alive using tree_okD(2) [OF T p] i by (cases "p = n") auto }
    assume u: "e_state (pt ?t p) = UNUSED"
    then have "p \<noteq> n" using tree_okD(3) [OF T n] True by auto
    then show "e_parent (pt ?t p) = None" using tree_okD(3) [OF T p] u by simp
  qed
  moreover have "pids_ok ?t" using P by (rule pids_ok_cong) auto
  moreover have "age_ok ?t" using A i by (auto simp: age_ok_def)
  moreover have "wait_ok ?u"
    using W by (auto simp: wait_ok_def)
  ultimately have ok: "tree_ok ?u \<and> pids_ok ?u \<and> age_ok ?u \<and> wait_ok ?u" using pt_wake_ok(1,2,3) [of ?t] by simp
  have u: "pt_reparent me n t = ?u" using True i by (simp add: pt_reparent_def)
  show ?thesis unfolding u reparented_def using ok R I Q S i ne by (auto simp: less_Suc_eq)
qed


lemma reparent_all:
  assumes "reparented me 0 t" and "me < NPROC"
  shows "n \<le> NPROC \<Longrightarrow> reparented me n (fold (pt_reparent me) [0..<n] t)"
  by (induction n) (simp_all add: assms reparent_step)

text \<open>The update of one entry.\<close>

lemma tree_ok_upd:
  assumes t: "tree_ok t" and p: "p < NPROC"
    and a: "alive (pt t p) \<Longrightarrow> alive e \<or> (pt_init t \<noteq> Some p \<and> (\<forall>r < NPROC. e_parent (pt t r) \<noteq> Some p))"
    and b: "e_state e \<noteq> UNUSED \<Longrightarrow> pt_init t \<noteq> Some p \<Longrightarrow> \<exists>q < NPROC. q \<noteq> p \<and> e_parent e = Some q \<and> alive (pt t q)"
    and c: "e_state e = UNUSED \<Longrightarrow> e_parent e = None"
  shows "tree_ok (set_ent_of p e t)"
proof -
  obtain i where i: "pt_init t = Some i" "i < NPROC" "alive (pt t i)" using tree_okD(1) [OF t] by blast
  show ?thesis
  proof (rule tree_okI)
    show "pt_init (set_ent_of p e t) = Some i" "i < NPROC" using i by simp_all
    show "alive (pt (set_ent_of p e t) i)" using i a by auto
    fix r assume r: "r < NPROC"
    { assume "r \<noteq> i" "e_state (pt (set_ent_of p e t) r) \<noteq> UNUSED"
      show "\<exists>q < NPROC. q \<noteq> r \<and> e_parent (pt (set_ent_of p e t) r) = Some q \<and> alive (pt (set_ent_of p e t) q)"
      proof (cases "r = p")
        case True
        obtain q where "q < NPROC" "q \<noteq> p" "e_parent e = Some q" "alive (pt t q)"
          using b \<open>r \<noteq> i\<close> \<open>e_state (pt (set_ent_of p e t) r) \<noteq> UNUSED\<close> i True by auto
        then show ?thesis using True by auto
      next
        case False
        obtain q where "q < NPROC" "q \<noteq> r" "e_parent (pt t r) = Some q" "alive (pt t q)"
          using tree_okD(2) [OF t r] \<open>r \<noteq> i\<close> \<open>e_state (pt (set_ent_of p e t) r) \<noteq> UNUSED\<close> i False by auto
        then show ?thesis using False a r by (intro exI [of _ q]) auto
      qed }
    assume "e_state (pt (set_ent_of p e t) r) = UNUSED"
    then show "e_parent (pt (set_ent_of p e t) r) = None" using c tree_okD(3) [OF t r] by (cases "r = p") auto
  qed
qed

lemma pids_ok_upd:
  assumes "pids_ok t" and "e_pid e < pt_next t" and "e_state e \<noteq> UNUSED \<Longrightarrow> 0 < e_pid e"
    and "\<And>q. q < NPROC \<Longrightarrow> q \<noteq> p \<Longrightarrow> e_state e \<noteq> UNUSED \<Longrightarrow> e_state (pt t q) \<noteq> UNUSED \<Longrightarrow> e_pid (pt t q) \<noteq> e_pid e"
  shows "pids_ok (set_ent_of p e t)"
  unfolding pids_ok_def
proof (intro conjI allI impI)
  fix q r
  note t = assms(1) [unfolded pids_ok_def]
  show "0 < pt_next (set_ent_of p e t)" "pt_next (set_ent_of p e t) \<le> INT_MAX" using t by simp_all
  assume q: "q < NPROC"
  show "e_pid (pt (set_ent_of p e t) q) < pt_next (set_ent_of p e t)" using t q assms(2) by (cases "q = p") simp_all
  { assume "e_state (pt (set_ent_of p e t) q) \<noteq> UNUSED"
    then show "0 < e_pid (pt (set_ent_of p e t) q)" using t q assms(3) by (cases "q = p") simp_all }
  assume r: "r < NPROC" "e_state (pt (set_ent_of p e t) q) \<noteq> UNUSED \<and> e_state (pt (set_ent_of p e t) r) \<noteq> UNUSED
    \<and> e_pid (pt (set_ent_of p e t) q) = e_pid (pt (set_ent_of p e t) r)"
  show "q = r"
  proof (cases "q = p \<or> r = p")
    case True
    then show ?thesis using assms(4) [of q] assms(4) [of r] q r by (cases "q = r") auto
  next
    case False
    then have "e_state (pt t q) \<noteq> UNUSED" "e_state (pt t r) \<noteq> UNUSED" "e_pid (pt t q) = e_pid (pt t r)" using r by auto
    then show ?thesis using t q r by blast
  qed
qed

lemma pids_ok_next: "pids_ok t \<Longrightarrow> pt_next t < INT_MAX \<Longrightarrow> pids_ok (t\<lparr>pt_next := pt_next t + 1\<rparr>)"
  unfolding pids_ok_def by fastforce

lemma pids_okD:
  assumes "pids_ok t" and "p < NPROC"
  shows "e_pid (pt t p) < pt_next t" "e_state (pt t p) \<noteq> UNUSED \<Longrightarrow> 0 < e_pid (pt t p)" "0 < pt_next t"
    "q < NPROC \<Longrightarrow> e_state (pt t p) \<noteq> UNUSED \<Longrightarrow> e_state (pt t q) \<noteq> UNUSED \<Longrightarrow> e_pid (pt t p) = e_pid (pt t q) \<Longrightarrow> p = q"
  using assms unfolding pids_ok_def by auto

lemma age_ok_upd:
  assumes "age_ok t" and "e_pid e \<le> e_pid (pt t p) \<or> (\<forall>r < NPROC. pt_init t \<noteq> Some r \<longrightarrow> e_parent (pt t r) \<noteq> Some p)"
    and "\<And>q. e_state e \<noteq> UNUSED \<Longrightarrow> pt_init t \<noteq> Some p \<Longrightarrow> e_parent e = Some q
      \<Longrightarrow> q \<noteq> p \<and> (pt_init t = Some q \<or> e_pid (pt t q) < e_pid e)"
  shows "age_ok (set_ent_of p e t)"
  unfolding age_ok_def
proof (intro allI impI)
  fix r q
  assume r: "r < NPROC" "e_state (pt (set_ent_of p e t) r) \<noteq> UNUSED \<and> pt_init (set_ent_of p e t) \<noteq> Some r"
    "e_parent (pt (set_ent_of p e t) r) = Some q"
  show "pt_init (set_ent_of p e t) = Some q \<or> e_pid (pt (set_ent_of p e t) q) < e_pid (pt (set_ent_of p e t) r)"
  proof (cases "r = p")
    case True
    then show ?thesis using assms(3) [of q] r by auto
  next
    case False
    then have "pt_init t = Some q \<or> e_pid (pt t q) < e_pid (pt t r)" using assms(1) r by (auto simp: age_ok_def)
    then show ?thesis using assms(2) r False by (cases "q = p") auto
  qed
qed

text \<open>Nobody is the child of a process that is not alive.\<close>

lemma no_child:
  assumes "tree_ok t" and "\<not> alive (pt t p)" and "r < NPROC" and "pt_init t \<noteq> Some r"
  shows "e_parent (pt t r) \<noteq> Some p"
  using tree_okD(2,3) [OF assms(1,3)] assms(2,4) by (cases "e_state (pt t r) = UNUSED") auto

lemma wait_ok_upd:
  assumes "wait_ok t"
    and "e_state e = SLEEPING \<Longrightarrow> e_chan e = Some (Chan_proc p) \<Longrightarrow>
      \<forall>r < NPROC. r \<noteq> p \<longrightarrow> e_parent (pt t r) = Some p \<longrightarrow> e_state (pt t r) \<noteq> ZOMBIE"
    and "\<And>q. e_state e = ZOMBIE \<Longrightarrow> e_parent e = Some q \<Longrightarrow> \<not> (e_state (pt t q) = SLEEPING \<and> e_chan (pt t q) = Some (Chan_proc q))"
  shows "wait_ok (set_ent_of p e t)"
  unfolding wait_ok_def
proof (intro allI impI)
  fix q r
  assume q: "q < NPROC" "e_state (pt (set_ent_of p e t) q) = SLEEPING \<and> e_chan (pt (set_ent_of p e t) q) = Some (Chan_proc q)"
    and r: "r < NPROC" "e_parent (pt (set_ent_of p e t) r) = Some q"
  show "e_state (pt (set_ent_of p e t) r) \<noteq> ZOMBIE"
  proof (cases "r = p")
    case True
    then show ?thesis using assms(3) [of q] q r by (cases "q = p") auto
  next
    case False
    then show ?thesis using assms(1,2) q r unfolding wait_ok_def by (cases "q = p") auto
  qed
qed

definition proc_inv :: "ptab \<Rightarrow> bool" where
  "proc_inv t \<longleftrightarrow> tree_ok t \<and> pids_ok t \<and> age_ok t \<and> wait_ok t"

lemma proc_inv_upd:
  assumes "proc_inv t" and "p < NPROC" and "e_pid e = e_pid (pt t p)" and "e_parent e = e_parent (pt t p)"
    and "alive (pt t p)" and "alive e"
    and "e_state e = SLEEPING \<Longrightarrow> e_chan e = Some (Chan_proc p) \<Longrightarrow>
      \<forall>r < NPROC. r \<noteq> p \<longrightarrow> e_parent (pt t r) = Some p \<longrightarrow> e_state (pt t r) \<noteq> ZOMBIE"
  shows "proc_inv (set_ent_of p e t)"
proof -
  have u: "e_state (pt t p) \<noteq> UNUSED" "e_state e \<noteq> UNUSED" "e_state e \<noteq> ZOMBIE" using assms(5,6) by (auto simp: alive_def)
  have i: "tree_ok t" "pids_ok t" "wait_ok t" "age_ok t" using assms(1) by (auto simp: proc_inv_def)
  have "tree_ok (set_ent_of p e t)"
    using i(1) assms(2) by (rule tree_ok_upd) (use assms(4,6) u tree_okD(2) [OF i(1) assms(2)] in auto)
  moreover have "pids_ok (set_ent_of p e t)"
    using i(2) by (rule pids_ok_cong) (use assms(3) u in auto)
  moreover have "age_ok (set_ent_of p e t)"
    using i(4) by (rule age_ok_upd) (use assms(2-4) u i(1,4) tree_okD(2) [OF i(1) assms(2)] in \<open>auto simp: age_ok_def\<close>)
  moreover have "wait_ok (set_ent_of p e t)"
    using i(3) by (rule wait_ok_upd) (use assms(7) u in auto)
  ultimately show ?thesis by (simp add: proc_inv_def)
qed

lemma pt_exit_ok:
  assumes inv: "proc_inv t" and me: "me < NPROC" and R: "e_state (pt t me) = RUNNING" and I: "pt_init t \<noteq> Some me"
  shows "proc_inv (pt_exit me t)"
proof -
  have i: "tree_ok t" "pids_ok t" "age_ok t" "wait_ok t" using inv by (auto simp: proc_inv_def)
  obtain q where q: "q < NPROC" "e_parent (pt t me) = Some q" using tree_okD(2) [OF i(1) me I] R by auto
  define u where "u = fold (pt_reparent me) [0..<NPROC] (pt_wake (Chan_proc q) t)"
  have "reparented me 0 (pt_wake (Chan_proc q) t)"
    using q R I i by (auto simp: reparented_def intro: pt_wake_ok)
  from reparent_all [OF this me order_refl] have r: "reparented me NPROC u" by (simp add: u_def)
  then have u: "tree_ok u" "pids_ok u" "wait_ok u" "e_state (pt u me) = RUNNING" "pt_init u \<noteq> Some me"
      "\<forall>p < NPROC. e_parent (pt u p) \<noteq> Some me"
    by (simp_all add: reparented_def)
  let ?e = "(pt u me)\<lparr>e_state := ZOMBIE\<rparr>"
  have "tree_ok (set_ent_of me ?e u)"
    using u(1) me by (rule tree_ok_upd) (use u(4,5,6) tree_okD(2) [OF u(1) me] in auto)
  moreover have "pids_ok (set_ent_of me ?e u)"
    using u(2) by (rule pids_ok_cong) (use u(4) in auto)
  moreover have "age_ok (set_ent_of me ?e u)"
    using r u(4) by (auto simp: reparented_def age_ok_def)
  moreover have "wait_ok (set_ent_of me ?e u)"
    using u(3) by (rule wait_ok_upd) (use r in \<open>auto simp: reparented_def\<close>)
  ultimately show ?thesis by (simp add: proc_inv_def pt_exit_def q u_def Let_def)
qed

lemma pt_step_inv: "pt_step t t' \<Longrightarrow> proc_inv t \<Longrightarrow> proc_inv t'"
proof (induction rule: pt_step.induct)
  case (st_pid p t)
  then have i: "tree_ok t" "pids_ok t" "wait_ok t" "age_ok t" by (auto simp: proc_inv_def)
  let ?t = "t\<lparr>pt_next := pt_next t + 1\<rparr>"
  have i': "tree_ok ?t" "pids_ok ?t" "wait_ok ?t" "age_ok ?t"
    using i pids_ok_next st_pid(3) by (auto simp: tree_ok_def wait_ok_def age_ok_def)
  show ?case unfolding proc_inv_def
  proof (intro conjI)
    show "tree_ok (set_ent_of p ((pt t p)\<lparr>e_pid := pt_next t\<rparr>) ?t)"
      using i'(1) st_pid(1) by (rule tree_ok_upd) (use st_pid(2) tree_okD(3) [OF i(1) st_pid(1)] in \<open>auto simp: alive_def\<close>)
    show "pids_ok (set_ent_of p ((pt t p)\<lparr>e_pid := pt_next t\<rparr>) ?t)"
      using i'(2) by (rule pids_ok_upd) (use st_pid(2) in auto)
    show "age_ok (set_ent_of p ((pt t p)\<lparr>e_pid := pt_next t\<rparr>) ?t)"
      using i'(4) by (rule age_ok_upd) (use st_pid(2) no_child [OF i(1)] in \<open>auto simp: alive_def\<close>)
    show "wait_ok (set_ent_of p ((pt t p)\<lparr>e_pid := pt_next t\<rparr>) ?t)"
      using i'(3) by (rule wait_ok_upd) (use st_pid(2) in auto)
  qed
next
  case (st_fork p t me)
  then have i: "tree_ok t" "pids_ok t" "wait_ok t" "age_ok t" by (auto simp: proc_inv_def)
  let ?t = "t\<lparr>pt_next := pt_next t + 1\<rparr>"
    and ?e = "(pt t p)\<lparr>e_pid := pt_next t, e_state := RUNNABLE, e_parent := Some me\<rparr>"
  have i': "tree_ok ?t" "pids_ok ?t" "wait_ok ?t" "age_ok ?t"
    using i pids_ok_next st_fork(3) by (auto simp: tree_ok_def wait_ok_def age_ok_def)
  have ne: "me \<noteq> p" "alive (pt ?t me)" using st_fork(2,5) by (auto simp: alive_def)
  show ?case unfolding proc_inv_def
  proof (intro conjI)
    show "tree_ok (set_ent_of p ?e ?t)"
      using i'(1) st_fork(1) by (rule tree_ok_upd) (use st_fork(4) ne in \<open>auto simp: alive_def\<close>)
    show "pids_ok (set_ent_of p ?e ?t)"
      using i'(2) by (rule pids_ok_upd) (use pids_okD [OF i(2)] st_fork(1) in force)+
    show "age_ok (set_ent_of p ?e ?t)"
      using i'(4) by (rule age_ok_upd)
        (use st_fork(2) ne no_child [OF i(1)] pids_okD(1) [OF i(2) st_fork(4)] in \<open>auto simp: alive_def\<close>)
    show "wait_ok (set_ent_of p ?e ?t)"
      using i'(3) by (rule wait_ok_upd) auto
  qed
next
  case (st_reap p t)
  then have i: "tree_ok t" "pids_ok t" "wait_ok t" "age_ok t" by (auto simp: proc_inv_def)
  let ?e = "(pt t p)\<lparr>e_state := UNUSED, e_pid := 0, e_parent := None\<rparr>"
  have "tree_ok (set_ent_of p ?e t)"
    using i(1) st_reap(1) by (rule tree_ok_upd) (use st_reap(2) in \<open>auto simp: alive_def\<close>)
  moreover have "pids_ok (set_ent_of p ?e t)"
    using i(2) by (rule pids_ok_upd) (use pids_okD(3) [OF i(2) st_reap(1)] in auto)
  moreover have "age_ok (set_ent_of p ?e t)"
    using i(4) by (rule age_ok_upd) (use st_reap(2) no_child [OF i(1)] in \<open>auto simp: alive_def\<close>)
  moreover have "wait_ok (set_ent_of p ?e t)"
    using i(3) by (rule wait_ok_upd) auto
  ultimately show ?case by (simp add: proc_inv_def)
next
  case (st_wakeup t ch)
  then show ?case by (simp add: proc_inv_def pt_wake_ok)
qed (auto intro!: proc_inv_upd pt_exit_ok simp: alive_def)


section \<open>The code refines the abstract table\<close>

lemma same_procs:
  assumes "fstate.more s' = fstate.more s"
  shows "procs s' = procs s" "initproc s' = initproc s" "nextpid s' = nextpid s" "img s' = img s" "ptab_of s' = ptab_of s"
  using assms by (cases s; cases s'; simp add: ptab_of_def)+

lemma ptab_of_sel [simp]:
  "pt (ptab_of s) p = pent_of (procs s p)" "pt_init (ptab_of s) = initproc s" "pt_next (ptab_of s) = nextpid s"
  by (simp_all add: ptab_of_def)

lemma pent_of_sel [simp]:
  "e_state (pent_of x) = p_state x" "e_parent (pent_of x) = p_parent x" "e_pid (pent_of x) = p_pid x" "e_chan (pent_of x) = p_chan x"
  by (simp_all add: pent_of_def)

lemma ptab_of_upd [simp]:
  "ptab_of (setmem K s) = ptab_of s" "ptab_of (store f s) = ptab_of s" "ptab_of (tf_set p r v s) = ptab_of s"
  "ptab_of (setproc p x s) = set_ent_of p (pent_of x) (ptab_of s)"
  "ptab_of (s\<lparr>nextpid := n\<rparr>) = (ptab_of s)\<lparr>pt_next := n\<rparr>" "ptab_of (s\<lparr>onproc := O1\<rparr>) = ptab_of s" "ptab_of (s\<lparr>cr3 := C1\<rparr>) = ptab_of s"
  by (simp_all add: ptab_of_def setmem_def store_def tf_set_def setproc_def set_ent_of_def fun_eq_iff)

lemma k_sel [simp]:
  "procs (setmem K s) = procs s" "procs (store f s) = procs s" "procs (tf_set p r v s) = procs s"
  "procs (setproc p x s) = (procs s)(p := x)" "nextpid (setproc p x s) = nextpid s" "nextpid (setmem K s) = nextpid s"
  "initproc (setproc p x s) = initproc s" "initproc (setmem K s) = initproc s" "f_mem (setproc p x s) = f_mem s" "f_mem (setmem K s) = K"
  "img (setproc p x s) = img s" "img (setmem K s) = img s" "img (store f s) = img s" "img (tf_set p r v s) = img s"
  by (simp_all add: setmem_def store_def tf_set_def setproc_def)

lemma set_ent_same [simp]: "set_ent_of p (pt t p) t = t" "set_ent_of p e (set_ent_of p e' t) = set_ent_of p e t"
  by (simp_all add: set_ent_of_def)

lemma set_ent_id: "pent_of x = pent_of (procs s p) \<Longrightarrow> set_ent_of p (pent_of x) (ptab_of s) = ptab_of s"
  using set_ent_same(1) [of p "ptab_of s"] by simp

lemma filedup_fmore: "filedup f s = Ok s' \<Longrightarrow> fstate.more s' = fstate.more s"
  by (auto simp: filedup_def setfile_def split: if_split_asm)

lemma begin_fmore: "begin_op s = Ok s' \<Longrightarrow> fstate.more s' = fstate.more s"
  and end_fmore: "end_op s = Ok s' \<Longrightarrow> fstate.more s' = fstate.more s"
  and iput_fmore: "iput k s = Ok s' \<Longrightarrow> fstate.more s' = fstate.more s"
  and idup_fmore: "fstate.more (idup k s) = fstate.more s"
  by (auto dest!: block_imore iput_imore dest: same_files) (simp add: idup_def setinode_def)

lemma fileclose_fmore:
  assumes "fileclose kend f s = Ok s'"
  shows "fstate.more s' = fstate.more s"
proof -
  have set: "fstate.more (setfile f x t) = fstate.more t" "fstate.more (setpipe a p t) = fstate.more t" for f x a p and t :: "'a fstate_scheme"
    by (simp_all add: setfile_def setpipe_def)
  show ?thesis using assms
    by (auto simp: fileclose_def Let_def pipeclose_at_def set elim!: rbind_OkE
        dest!: begin_fmore end_fmore iput_fmore split: if_split_asm fdtype.split_asm prod.split_asm)
qed

lemma find_upt: "List.find P [0..<n] = Some p \<Longrightarrow> p < n \<and> P p"
  by (auto simp: find_Some_iff)

lemma allocproc_ptab:
  assumes "allocproc s = Ok (r, s')"
  shows "case r of
      None \<Rightarrow> pt_step (ptab_of s) (ptab_of s')
    | Some p \<Rightarrow> p < NPROC \<and> p_state (procs s p) = UNUSED \<and> nextpid s < INT_MAX
        \<and> procs s' = (procs s)(p := procs s' p)
        \<and> ptab_of s' = set_ent_of p ((pt (ptab_of s) p)\<lparr>e_state := EMBRYO, e_pid := nextpid s\<rparr>) ((ptab_of s)\<lparr>pt_next := nextpid s + 1\<rparr>)"
proof (cases "List.find (\<lambda>p. p_state (procs s p) = UNUSED) [0..<NPROC]")
  case None
  then show ?thesis using assms by (auto simp: allocproc_def intro: st_refl)
next
  case (Some p)
  note p = find_upt [OF Some]
  have n: "nextpid s < INT_MAX" using assms Some by (simp add: allocproc_def split: if_split_asm)
  obtain k K where k: "kalloc (f_mem s) = (k, K)" by fastforce
  show ?thesis
  proof (cases "k = 0")
    case True
    then have "r = None" "ptab_of s' = set_ent_of p ((pt (ptab_of s) p)\<lparr>e_pid := pt_next (ptab_of s)\<rparr>) ((ptab_of s)\<lparr>pt_next := pt_next (ptab_of s) + 1\<rparr>)"
      using assms Some k p n by (auto simp: allocproc_def Let_def pent_of_def)
    then show ?thesis using st_pid [of p "ptab_of s"] p n by simp
  next
    case False
    then have "r = Some p" "procs s' = (procs s)(p := procs s' p)"
        "ptab_of s' = set_ent_of p ((pt (ptab_of s) p)\<lparr>e_state := EMBRYO, e_pid := nextpid s\<rparr>) ((ptab_of s)\<lparr>pt_next := nextpid s + 1\<rparr>)"
      using assms Some k n by (auto simp: allocproc_def Let_def pent_of_def)
    then show ?thesis using p n by simp
  qed
qed


lemma fork_file_ptab:
  assumes "fork_file me np i s = Ok s'"
  shows "ptab_of s' = ptab_of s"
proof (cases "p_ofile (procs s me) ! i")
  case (Some f)
  obtain t where t: "filedup f s = Ok t" "s' = setproc np ((procs t np)\<lparr>p_ofile := (p_ofile (procs t np))[i := Some f]\<rparr>) t"
    using assms Some by (auto simp: fork_file_def elim!: rbind_OkE)
  have "ptab_of s' = ptab_of t" unfolding t(2) ptab_of_upd by (rule set_ent_id) (simp add: pent_of_def)
  then show ?thesis using same_procs(5) [OF filedup_fmore [OF t(1)]] by simp
qed (use assms in \<open>simp add: fork_file_def\<close>)

lemma fork_copy_ptab:
  assumes "fork_copy me np s = Ok (r, s')"
  shows "ptab_of s' = set_ent_of np ((pent_of (procs s np))\<lparr>e_state := RUNNABLE, e_parent := Some me\<rparr>) (ptab_of s)"
proof -
  define s2 where "s2 = (let s = setproc np ((procs s np)\<lparr>p_sz := p_sz (procs s me), p_parent := Some me\<rparr>) s;
          s = store (memmove (p_tf (procs s np)) (p_tf (procs s me)) TF_SIZE) s in tf_set np tf_eax 0 s)"
  have s2: "ptab_of s2 = set_ent_of np ((pent_of (procs s np))\<lparr>e_parent := Some me\<rparr>) (ptab_of s)"
    by (simp add: s2_def Let_def) (simp add: pent_of_def)
  obtain s3 cwd where s3: "for_each (fork_file me np) [0..<NOFILE] s2 = Ok s3"
    and s': "s' = (let s = idup cwd s3;
             s = setproc np ((procs s np)\<lparr>p_cwd := Some cwd, p_name := set_name (p_name (procs s np)) (cstr (p_name (procs s me)))\<rparr>) s
           in setproc np ((procs s np)\<lparr>p_state := RUNNABLE\<rparr>) s)"
    using assms unfolding fork_copy_def s2_def Let_def by (auto elim!: rbind_OkE split: option.split_asm)
  have e: "ptab_of s3 = ptab_of s2" using s3 by (rule for_each_frame) (rule fork_file_ptab)
  have i: "procs (idup cwd s3) = procs s3" "ptab_of (idup cwd s3) = ptab_of s3"
    using same_procs [OF idup_fmore] by auto
  have p3: "pent_of (procs s3 np) = (pent_of (procs s np))\<lparr>e_parent := Some me\<rparr>"
    using arg_cong [OF e, of "\<lambda>t. pt t np"] s2 by simp
  have "ptab_of s' = set_ent_of np ((pent_of (procs s3 np))\<lparr>e_state := RUNNABLE\<rparr>) (ptab_of s3)"
    using i by (simp add: s' Let_def) (simp add: pent_of_def)
  then show ?thesis unfolding p3 e s2 by (simp add: pent_of_def)
qed

lemma fork_ptab:
  assumes f: "fork me s = Ok (r, s')" and me: "me < NPROC" "p_state (procs s me) = RUNNING"
  shows "pt_step (ptab_of s) (ptab_of s')"
proof -
  obtain q s1 where al: "allocproc s = Ok (q, s1)" using f by (auto simp: fork_def elim!: rbind_OkE)
  note a = allocproc_ptab [OF al]
  show ?thesis
  proof (cases q)
    case None
    then show ?thesis using f a al by (simp add: fork_def)
  next
    case (Some np)
    let ?t = "(ptab_of s)\<lparr>pt_next := nextpid s + 1\<rparr>" and ?e = "pent_of (procs s np)"
    have np: "np < NPROC" "p_state (procs s np) = UNUSED"
        "ptab_of s1 = set_ent_of np (?e\<lparr>e_state := EMBRYO, e_pid := nextpid s\<rparr>) ?t" "nextpid s < INT_MAX"
      using a Some by auto
    have n1: "pent_of ((procs s1 np)\<lparr>p_pgdir := d\<rparr>) = ?e\<lparr>e_state := EMBRYO, e_pid := nextpid s\<rparr>" for d
      using arg_cong [OF np(3), of "\<lambda>t. pt t np"] by (simp add: pent_of_def)
    obtain d K where c: "copyuvm (img_end (img s1)) (k_pdpt (kvm s1)) (p_pgdir (procs s1 me)) (u32 (p_sz (procs s1 me))) (f_mem s1) = Ok (d, K)"
      using f al Some by (auto simp: fork_def elim!: rbind_OkE)
    let ?s = "setproc np ((procs s1 np)\<lparr>p_pgdir := d\<rparr>) (setmem K s1)"
    show ?thesis
    proof (cases "d = 0")
      case True
      then obtain K' where "s' = setproc np ((procs ?s np)\<lparr>p_kstack := 0, p_state := UNUSED\<rparr>) (setmem K' ?s)"
        using f al Some c by (auto simp: fork_def Let_def elim!: rbind_OkE)
      then have "ptab_of s' = set_ent_of np ((pent_of (procs ?s np))\<lparr>e_state := UNUSED\<rparr>) (ptab_of ?s)"
        by (simp add: pent_of_def)
      then have "ptab_of s' = set_ent_of np (?e\<lparr>e_pid := nextpid s\<rparr>) ?t"
        using np(2,3) n1 [of d] by (simp add: pent_of_def)
      then show ?thesis using st_pid [of np "ptab_of s"] np by simp
    next
      case False
      then have "fork_copy me np ?s = Ok (r, s')" using f al Some c by (simp add: fork_def)
      from fork_copy_ptab [OF this] np(3) n1
      have "ptab_of s' = set_ent_of np (?e\<lparr>e_pid := nextpid s, e_state := RUNNABLE, e_parent := Some me\<rparr>) ?t" by simp
      then show ?thesis using st_fork [of np "ptab_of s" me] np me by simp
    qed
  qed
qed


lemma wakeup1_ptab [simp]: "ptab_of (wakeup1 ch s) = pt_wake ch (ptab_of s)"
  by (simp add: ptab_of_def wakeup1_def pt_wake_def fun_eq_iff pent_of_def)

lemma reparent_ptab: "ptab_of (reparent me p s) = pt_reparent me p (ptab_of s)"
  by (auto simp: reparent_def pt_reparent_def Let_def pent_of_def split: option.split)

lemma fold_reparent_ptab: "ptab_of (fold (reparent me) ps s) = fold (pt_reparent me) ps (ptab_of s)"
  by (induction ps arbitrary: s) (simp_all add: reparent_ptab)

lemma exit_file_ptab:
  assumes "exit_file me fd s = Ok s'"
  shows "ptab_of s' = ptab_of s"
proof (cases "p_ofile (procs s me) ! fd")
  case (Some f)
  obtain t where t: "fileclose (img_end (img s)) f s = Ok t" "s' = setproc me ((procs t me)\<lparr>p_ofile := (p_ofile (procs t me))[fd := None]\<rparr>) t"
    using assms Some by (auto simp: exit_file_def elim!: rbind_OkE)
  have "ptab_of s' = ptab_of t" unfolding t(2) ptab_of_upd by (rule set_ent_id) (simp add: pent_of_def)
  then show ?thesis using same_procs(5) [OF fileclose_fmore [OF t(1)]] by simp
qed (use assms in \<open>simp add: exit_file_def\<close>)

lemma exit_close_ptab:
  assumes "exit_close me s = Ok s'"
  shows "ptab_of s' = ptab_of s"
proof -
  obtain a b cwd c t where st: "for_each (exit_file me) [0..<NOFILE] s = Ok a" "begin_op a = Ok b" "iput cwd b = Ok c" "end_op c = Ok t"
    and s': "s' = setproc me ((procs t me)\<lparr>p_cwd := None\<rparr>) t"
    using assms unfolding exit_close_def by (auto elim!: rbind_OkE split: option.split_asm)
  have "ptab_of a = ptab_of s" using st(1) by (rule for_each_frame) (rule exit_file_ptab)
  then have t: "ptab_of t = ptab_of s"
    using same_procs(5) [OF begin_fmore [OF st(2)]] same_procs(5) [OF iput_fmore [OF st(3)]] same_procs(5) [OF end_fmore [OF st(4)]] by simp
  show ?thesis unfolding s' t [symmetric] ptab_of_upd by (rule set_ent_id) (simp add: pent_of_def)
qed

lemma exit_table_ptab: "ptab_of (exit_table me s) = pt_exit me (ptab_of s)"
proof -
  have par: "p_parent (procs s me) = e_parent (pt (ptab_of s) me)" by (simp add: pent_of_def)
  define v where "v = fold (reparent me) [0..<NPROC] (case p_parent (procs s me) of Some q \<Rightarrow> wakeup1 (Chan_proc q) s | None \<Rightarrow> s)"
  have v: "ptab_of v = fold (pt_reparent me) [0..<NPROC]
      (case e_parent (pt (ptab_of s) me) of Some q \<Rightarrow> pt_wake (Chan_proc q) (ptab_of s) | None \<Rightarrow> ptab_of s)"
    unfolding v_def par fold_reparent_ptab by (simp split: option.split)
  have "exit_table me s = setproc me ((procs v me)\<lparr>p_state := ZOMBIE\<rparr>) v" by (simp add: exit_table_def v_def Let_def)
  then have "ptab_of (exit_table me s) = set_ent_of me ((pt (ptab_of v) me)\<lparr>e_state := ZOMBIE\<rparr>) (ptab_of v)" by (simp add: pent_of_def)
  then show ?thesis unfolding v by (simp add: pt_exit_def Let_def)
qed

lemma exit_ptab:
  assumes "exit me s = Ok s'"
  shows "ptab_of s' = pt_exit me (ptab_of s)" "initproc s \<noteq> Some me"
proof -
  show "initproc s \<noteq> Some me" using assms by (auto simp: exit_def)
  then obtain t where "exit_close me s = Ok t" "s' = exit_table me t" using assms by (auto simp: exit_def elim!: rbind_OkE)
  then show "ptab_of s' = pt_exit me (ptab_of s)" using exit_close_ptab exit_table_ptab by metis
qed

lemma wait_ptab:
  assumes w: "wait me s = Ok (r, s')" and me: "me < NPROC" "p_state (procs s me) = RUNNING"
  shows "pt_step (ptab_of s) (ptab_of s')"
proof (cases "List.find (\<lambda>p. p_parent (procs s p) = Some me \<and> p_state (procs s p) = ZOMBIE) [0..<NPROC]")
  case None
  then have z: "\<forall>p < NPROC. p_parent (procs s p) = Some me \<longrightarrow> p_state (procs s p) \<noteq> ZOMBIE" by (auto simp: find_None_iff)
  have "ptab_of (sleep (Chan_proc me) me s) = set_ent_of me ((pt (ptab_of s) me)\<lparr>e_chan := Some (Chan_proc me), e_state := SLEEPING\<rparr>) (ptab_of s)"
    by (simp add: sleep_def) (simp add: pent_of_def)
  then show ?thesis using w None z me st_wait [of me "ptab_of s"]
    by (auto simp: wait_def intro: st_refl split: if_split_asm)
next
  case (Some p)
  note p = find_upt [OF Some]
  obtain K K' where s': "s' = setproc p ((procs s p)\<lparr>p_kstack := 0, p_state := UNUSED, p_pid := 0, p_parent := None,
       p_name := (p_name (procs s p))[0 := 0], p_killed := False\<rparr>) (setmem K' (setproc p ((procs s p)\<lparr>p_kstack := 0\<rparr>) (setmem K s)))"
    using w Some by (auto simp: wait_def Let_def elim!: rbind_OkE)
  have "ptab_of s' = set_ent_of p ((pt (ptab_of s) p)\<lparr>e_state := UNUSED, e_pid := 0, e_parent := None\<rparr>) (ptab_of s)"
    unfolding s' by (simp add: pent_of_def)
  then show ?thesis using st_reap [of p "ptab_of s"] p by simp
qed


text \<open>
  The steps of the kernel as far as the process table goes.  \<^verbatim>\<open>exit\<close> is one step, or several: the first part as steps that leave the table
  alone and sleep, then \<open>exit_table\<close>.  In \<open>ks_other\<close> a process works on everything else: files, memory, its own size and image.  No code but \<^verbatim>\<open>wait\<close> sleeps on the address of a process.
\<close>

inductive kernel_step :: "'z kstate_scheme \<Rightarrow> 'z kstate_scheme \<Rightarrow> bool" where
  ks_fork: "me < NPROC \<Longrightarrow> p_state (procs s me) = RUNNING \<Longrightarrow> fork me s = Ok (r, s') \<Longrightarrow> kernel_step s s'"
| ks_exit: "me < NPROC \<Longrightarrow> p_state (procs s me) = RUNNING \<Longrightarrow> exit me s = Ok s' \<Longrightarrow> kernel_step s s'"
| ks_exit_table: "me < NPROC \<Longrightarrow> p_state (procs s me) = RUNNING \<Longrightarrow> initproc s \<noteq> Some me \<Longrightarrow> kernel_step s (exit_table me s)"
| ks_wait: "me < NPROC \<Longrightarrow> p_state (procs s me) = RUNNING \<Longrightarrow> wait me s = Ok (r, s') \<Longrightarrow> kernel_step s s'"
| ks_sleep: "me < NPROC \<Longrightarrow> p_state (procs s me) = RUNNING \<Longrightarrow> \<forall>q. ch \<noteq> Chan_proc q \<Longrightarrow> kernel_step s (sleep ch me s)"
| ks_sleep_done: "me < NPROC \<Longrightarrow> p_state (procs s me) = RUNNING \<Longrightarrow> kernel_step s (sleep_done me s)"
| ks_yield: "me < NPROC \<Longrightarrow> p_state (procs s me) = RUNNING \<Longrightarrow> kernel_step s (yield me s)"
| ks_wakeup: "kernel_step s (wakeup ch s)"
| ks_kill: "kill pid s = (r, s') \<Longrightarrow> kernel_step s s'"
| ks_sched: "p < NPROC \<Longrightarrow> p_state (procs s p) = RUNNABLE \<Longrightarrow> scheduler_at c p s = Ok s' \<Longrightarrow> kernel_step s s'"
| ks_back: "kernel_step s (scheduler_back c s)"
| ks_other: "ptab_of s' = ptab_of s \<Longrightarrow> kernel_step s s'"

lemma kill_ptab:
  assumes "kill pid s = (r, s')"
  shows "pt_step (ptab_of s) (ptab_of s')"
proof (cases "List.find (\<lambda>p. p_pid (procs s p) = pid) [0..<NPROC]")
  case None
  then show ?thesis using assms by (auto simp: kill_def intro: st_refl)
next
  case (Some p)
  note p = find_upt [OF Some]
  show ?thesis
  proof (cases "p_state (procs s p) = SLEEPING")
    case True
    then have "ptab_of s' = set_ent_of p ((pt (ptab_of s) p)\<lparr>e_state := RUNNABLE\<rparr>) (ptab_of s)"
      using assms Some by (auto simp: kill_def Let_def pent_of_def)
    then show ?thesis using st_state [of p SLEEPING RUNNABLE "ptab_of s"] p True by simp
  next
    case False
    then have "ptab_of s' = set_ent_of p (pent_of ((procs s p)\<lparr>p_killed := True\<rparr>)) (ptab_of s)"
      using assms Some by (auto simp: kill_def Let_def)
    also have "\<dots> = ptab_of s" by (rule set_ent_id) (simp add: pent_of_def)
    finally show ?thesis by (simp add: st_refl)
  qed
qed

lemma kernel_step_refines: "kernel_step s s' \<Longrightarrow> pt_step (ptab_of s) (ptab_of s')"
proof (induction rule: kernel_step.induct)
  case (ks_exit me s s')
  then show ?case using exit_ptab [OF ks_exit(3)] st_exit [of me "ptab_of s"] by simp
next
  case (ks_exit_table me s)
  then show ?case using st_exit [of me "ptab_of s"] by (simp add: exit_table_ptab)
next
  case (ks_sleep me s ch)
  have "ptab_of (sleep ch me s) = set_ent_of me ((pt (ptab_of s) me)\<lparr>e_chan := Some ch, e_state := SLEEPING\<rparr>) (ptab_of s)"
    by (simp add: sleep_def) (simp add: pent_of_def)
  then show ?case using ks_sleep st_sleep [of me "ptab_of s" ch] by simp
next
  case (ks_sleep_done me s)
  have "ptab_of (sleep_done me s) = set_ent_of me ((pt (ptab_of s) me)\<lparr>e_chan := None\<rparr>) (ptab_of s)"
    by (simp add: sleep_done_def) (simp add: pent_of_def)
  then show ?case using ks_sleep_done st_awake [of me "ptab_of s"] by simp
next
  case (ks_yield me s)
  have "ptab_of (yield me s) = set_ent_of me ((pt (ptab_of s) me)\<lparr>e_state := RUNNABLE\<rparr>) (ptab_of s)"
    by (simp add: yield_def) (simp add: pent_of_def)
  then show ?case using ks_yield st_state [of me RUNNING RUNNABLE "ptab_of s"] by simp
next
  case (ks_sched p s c s')
  then obtain K cr where "s' = setproc p ((procs s p)\<lparr>p_state := RUNNING\<rparr>) ((setmem K (s\<lparr>onproc := (onproc s)(c := Some p)\<rparr>))\<lparr>cr3 := cr\<rparr>)"
    by (auto simp: scheduler_at_def k_switchuvm_def Let_def elim!: rbind_OkE)
  then have "ptab_of s' = set_ent_of p ((pt (ptab_of s) p)\<lparr>e_state := RUNNING\<rparr>) (ptab_of s)" by (simp add: pent_of_def)
  then show ?case using ks_sched st_state [of p RUNNABLE RUNNING "ptab_of s"] by simp
qed (auto intro: fork_ptab wait_ptab kill_ptab st_refl st_wakeup simp: wakeup_def scheduler_back_def)

lemma kernel_steps_inv: "kernel_step\<^sup>*\<^sup>* s s' \<Longrightarrow> proc_inv (ptab_of s) \<Longrightarrow> proc_inv (ptab_of s')"
  by (induction rule: rtranclp_induct) (auto intro: pt_step_inv kernel_step_refines)


lemma iget_procs: "iget dev i s = Ok (k, s') \<Longrightarrow> procs s' = procs s \<and> ptab_of s' = ptab_of s"
  by (auto dest!: iget_imore same_files(4) dest: same_procs)

text \<open>The first process: from an empty table \<^verbatim>\<open>userinit\<close> leads to a table that satisfies the invariant.\<close>

lemma userinit_inv:
  assumes u: "userinit devsw s = Ok s'" and n: "nextpid s = 1"
    and e: "\<forall>p. p_state (procs s p) = UNUSED \<and> p_parent (procs s p) = None \<and> p_pid (procs s p) = 0"
  shows "proc_inv (ptab_of s')"
proof -
  obtain p s1 where al: "allocproc s = Ok (Some p, s1)"
    using u by (auto simp: userinit_def elim!: rbind_OkE split: option.split_asm)
  have p: "p < NPROC" and s1: "ptab_of s1 = set_ent_of p ((pt (ptab_of s) p)\<lparr>e_state := EMBRYO, e_pid := 1\<rparr>) ((ptab_of s)\<lparr>pt_next := 2\<rparr>)"
    using allocproc_ptab [OF al] n by auto
  have root: "namei devsw 0 (str ''/'') t = rbind (iget ROOTDEV ROOTINO t) (\<lambda>(ip, t). Ok (Some ip, t))" for t :: "'a kstate_scheme"
    by (simp add: namei_def namex_def str_def namex_loop.simps skipelem_def Let_def case_prod_unfold)
  let ?t = "(ptab_of s1)\<lparr>pt_init := Some p\<rparr>"
  have set1: "ptab_of (t\<lparr>initproc := i\<rparr>) = (ptab_of t)\<lparr>pt_init := i\<rparr>" for t :: "'a kstate_scheme" and i by (simp add: ptab_of_def)
  have "ptab_of s' = set_ent_of p ((pt ?t p)\<lparr>e_state := RUNNABLE\<rparr>) ?t"
    using u al unfolding userinit_def root
    by (auto simp: Let_def set1 pent_of_def elim!: rbind_OkE dest!: iget_procs split: if_split_asm)
  then show ?thesis using p s1 e
    by (auto simp: proc_inv_def tree_ok_def pids_ok_def age_ok_def wait_ok_def alive_def pent_of_def INT_MAX_def split: if_split_asm)
qed


section \<open>Properties\<close>

text \<open>\<open>child_of s p q\<close>: process \<open>p\<close> has the parent \<open>q\<close>.\<close>

definition child_of :: "'z kstate_scheme \<Rightarrow> nat \<Rightarrow> nat \<Rightarrow> bool" where
  "child_of s p q \<longleftrightarrow> p_parent (procs s p) = Some q"

lemma reaches_init:
  assumes inv: "proc_inv (ptab_of s)" and i: "initproc s = Some i"
  shows "p < NPROC \<Longrightarrow> p_state (procs s p) \<noteq> UNUSED \<Longrightarrow> (child_of s)\<^sup>*\<^sup>* p i"
proof (induction "nat (p_pid (procs s p))" arbitrary: p rule: less_induct)
  case less
  show ?case
  proof (cases "p = i")
    case False
    have I: "tree_ok (ptab_of s)" "pids_ok (ptab_of s)" "age_ok (ptab_of s)"
      using inv by (auto simp: proc_inv_def)
    from tree_okD(2) [OF I(1) less.prems(1)] less.prems(2) False i obtain q where
      q: "q < NPROC" "p_parent (procs s p) = Some q" "p_state (procs s q) \<noteq> UNUSED" "alive (pt (ptab_of s) q)"
      by (auto simp: alive_def)
    have step: "child_of s p q" using q(2) by (simp add: child_of_def)
    have "(child_of s)\<^sup>*\<^sup>* q i"
    proof (cases "q = i")
      case False
      then have "p_pid (procs s q) < p_pid (procs s p)"
        using I(3) less.prems q i \<open>p \<noteq> i\<close> by (auto simp: age_ok_def)
      moreover have "0 < p_pid (procs s q)" using pids_okD(2) [OF I(2) q(1)] q(3) by simp
      ultimately show ?thesis using less.hyps [of q] q by auto
    qed simp
    with step show ?thesis by (rule converse_rtranclp_into_rtranclp)
  qed simp
qed

text \<open>
  C3: From a table that satisfies the invariant, for instance after \<^verbatim>\<open>userinit\<close>, whatever the sequence of \<^verbatim>\<open>fork\<close>, \<^verbatim>\<open>exit\<close>, \<^verbatim>\<open>wait\<close>,
  \<^verbatim>\<open>sleep\<close>, \<^verbatim>\<open>wakeup\<close>, \<^verbatim>\<open>kill\<close>, \<^verbatim>\<open>yield\<close> and scheduling, as long as \<^verbatim>\<open>nextpid++\<close> has not overflowed: \<^verbatim>\<open>init\<close> is alive; every other
  process, zombies included, has a living parent other than itself, so that each zombie can be collected; the chain of parents
  leads from every process to \<^verbatim>\<open>init\<close>, so that the processes form a tree; and the identifiers of the processes are positive
  numbers of type \<^verbatim>\<open>int\<close>, and distinct.
\<close>

theorem process_tree:
  assumes "proc_inv (ptab_of s)" and "kernel_step\<^sup>*\<^sup>* s s'"
  shows "(\<exists>i < NPROC. initproc s' = Some i \<and> p_state (procs s' i) \<in> {SLEEPING, RUNNABLE, RUNNING}
      \<and> (\<forall>p < NPROC. p \<noteq> i \<and> p_state (procs s' p) \<noteq> UNUSED \<longrightarrow>
           (\<exists>q < NPROC. q \<noteq> p \<and> p_parent (procs s' p) = Some q \<and> p_state (procs s' q) \<in> {SLEEPING, RUNNABLE, RUNNING})
           \<and> (child_of s')\<^sup>*\<^sup>* p i))
    \<and> (\<forall>p < NPROC. p_state (procs s' p) \<noteq> UNUSED \<longrightarrow> 0 < p_pid (procs s' p) \<and> p_pid (procs s' p) \<le> INT_MAX)
    \<and> (\<forall>p < NPROC. \<forall>q < NPROC. p_state (procs s' p) \<noteq> UNUSED \<and> p_state (procs s' q) \<noteq> UNUSED
         \<and> p_pid (procs s' p) = p_pid (procs s' q) \<longrightarrow> p = q)"
proof -
  note inv = kernel_steps_inv [OF assms(2,1)]
  then have T: "tree_ok (ptab_of s')" and P: "pids_ok (ptab_of s')" by (simp_all add: proc_inv_def)
  obtain i where i: "initproc s' = Some i" "i < NPROC" "p_state (procs s' i) \<in> {SLEEPING, RUNNABLE, RUNNING}"
    using tree_okD(1) [OF T] by (auto simp: alive_def)
  have "\<exists>q < NPROC. q \<noteq> p \<and> p_parent (procs s' p) = Some q \<and> p_state (procs s' q) \<in> {SLEEPING, RUNNABLE, RUNNING}"
    if "p < NPROC" "p \<noteq> i" "p_state (procs s' p) \<noteq> UNUSED" for p
    using tree_okD(2) [OF T that(1)] that i by (auto simp: alive_def)
  moreover have "p_pid (procs s' p) \<le> INT_MAX" if "p < NPROC" for p
    using P that by (force simp: pids_ok_def)
  ultimately show ?thesis
    using i reaches_init [OF inv i(1)] pids_okD(2,4) [OF P] by auto
qed

text \<open>
  C7: No exit is missed.  In every reachable state a process that sleeps in \<^verbatim>\<open>wait\<close> has no zombie child: \<^verbatim>\<open>exit\<close> wakes the parent, and
  \<^verbatim>\<open>init\<close> when it hands over a zombie, and \<^verbatim>\<open>wait\<close> looks at all children before it sleeps.
\<close>

theorem wait_misses_no_exit:
  assumes "proc_inv (ptab_of s)" and "kernel_step\<^sup>*\<^sup>* s s'" and "q < NPROC"
    and "p_state (procs s' q) = SLEEPING" and "p_chan (procs s' q) = Some (Chan_proc q)"
  shows "\<forall>p < NPROC. p_parent (procs s' p) = Some q \<longrightarrow> p_state (procs s' p) \<noteq> ZOMBIE"
  using kernel_steps_inv [OF assms(2,1)] assms(3-5) unfolding proc_inv_def wait_ok_def by auto

text \<open>A machine on which \<^verbatim>\<open>init\<close> runs and has a child.\<close>

definition demo_proc :: "procstate \<Rightarrow> int \<Rightarrow> nat option \<Rightarrow> proc" where
  "demo_proc st pid par = \<lparr>p_sz = 4096, p_pgdir = 0, p_kstack = 0, p_state = st, p_pid = pid, p_parent = par, p_tf = 0, p_context = 0,
     p_chan = None, p_killed = False, p_ofile = replicate 16 None, p_cwd = Some 0, p_name = replicate 16 0\<rparr>"

definition demo_kernel :: kstate where
  "demo_kernel = fstate.extend demo_files
     \<lparr>procs = (\<lambda>p. if p = 0 then demo_proc RUNNING 1 None else if p = 1 then demo_proc RUNNABLE 2 (Some 0) else demo_proc UNUSED 0 None),
      initproc = Some 0, nextpid = 3, ticks = 0, first = False, onproc = (\<lambda>_. None), cr3 = (\<lambda>_. 0),
      kvm = \<lparr>k_pml4 = 0, k_pdpt = 0, k_iopgdir = 0, k_pgdir0 = 0, k_pgdir1 = 0\<rparr>,
      img = \<lparr>img_end = 0, img_trapret = 0, img_forkret = 0, img_initcode = [], img_local = (\<lambda>_. 0)\<rparr>\<rparr>"

lemma demo_kernel_sel [simp]:
  "procs demo_kernel = (\<lambda>p. if p = 0 then demo_proc RUNNING 1 None else if p = 1 then demo_proc RUNNABLE 2 (Some 0) else demo_proc UNUSED 0 None)"
  "initproc demo_kernel = Some 0" "nextpid demo_kernel = 3" "f_mem demo_kernel = \<lparr>use_lock = True, freelist = 0, pmem = (\<lambda>_. 0)\<rparr>"
  by (simp_all add: demo_kernel_def fstate.extend_def demo_files_def)

lemma demo_kernel_inv: "proc_inv (ptab_of demo_kernel)"
  by (auto simp: proc_inv_def tree_ok_def pids_ok_def age_ok_def wait_ok_def alive_def demo_proc_def NPROC_def INT_MAX_def)

lemma demo_wait: "kernel_step\<^sup>*\<^sup>* demo_kernel (sleep (Chan_proc 0) 0 demo_kernel)"
proof -
  have "List.find (\<lambda>p. p_parent (procs demo_kernel p) = Some 0 \<and> p_state (procs demo_kernel p) = ZOMBIE) [0..<NPROC] = None"
    by (auto simp: find_None_iff demo_proc_def)
  moreover have "\<not> (\<forall>p < NPROC. p_parent (procs demo_kernel p) \<noteq> Some 0)"
  proof -
    have "p_parent (procs demo_kernel 1) = Some 0" "1 < NPROC" by (simp_all add: demo_proc_def NPROC_def)
    then show ?thesis by blast
  qed
  ultimately have "wait 0 demo_kernel = Ok (None, sleep (Chan_proc 0) 0 demo_kernel)"
    by (simp add: wait_def) (simp add: demo_proc_def)
  then have "kernel_step demo_kernel (sleep (Chan_proc 0) 0 demo_kernel)"
    by (intro ks_wait [of 0]) (simp_all add: NPROC_def demo_proc_def)
  then show ?thesis by simp
qed

theorem process_tree_witness:
  "\<exists>q < NPROC. q \<noteq> 1 \<and> p_parent (procs (sleep (Chan_proc 0) 0 demo_kernel) 1) = Some q
     \<and> p_state (procs (sleep (Chan_proc 0) 0 demo_kernel) q) \<in> {SLEEPING, RUNNABLE, RUNNING}
     \<and> (child_of (sleep (Chan_proc 0) 0 demo_kernel))\<^sup>*\<^sup>* 1 0"
proof -
  let ?s = "sleep (Chan_proc 0) 0 demo_kernel"
  have s: "initproc ?s = Some 0" "1 < NPROC" "p_state (procs ?s 1) \<noteq> UNUSED"
    by (simp_all add: sleep_def NPROC_def demo_proc_def)
  from process_tree [OF demo_kernel_inv demo_wait] obtain i where "initproc ?s = Some i"
    and "\<forall>p < NPROC. p \<noteq> i \<and> p_state (procs ?s p) \<noteq> UNUSED \<longrightarrow>
      (\<exists>q < NPROC. q \<noteq> p \<and> p_parent (procs ?s p) = Some q \<and> p_state (procs ?s q) \<in> {SLEEPING, RUNNABLE, RUNNING})
      \<and> (child_of ?s)\<^sup>*\<^sup>* p i"
    by blast
  then show ?thesis using s by (metis option.inject zero_neq_one)
qed

theorem wait_misses_no_exit_witness:
  "p_state (procs (sleep (Chan_proc 0) 0 demo_kernel) 0) = SLEEPING \<and> p_parent (procs (sleep (Chan_proc 0) 0 demo_kernel) 1) = Some 0
   \<and> p_state (procs (sleep (Chan_proc 0) 0 demo_kernel) 1) \<noteq> ZOMBIE"
proof -
  let ?s = "sleep (Chan_proc 0) 0 demo_kernel"
  have s: "0 < NPROC" "1 < NPROC" "p_state (procs ?s 0) = SLEEPING" "p_chan (procs ?s 0) = Some (Chan_proc 0)" "p_parent (procs ?s 1) = Some 0"
    by (simp_all add: sleep_def NPROC_def demo_proc_def)
  then show ?thesis using wait_misses_no_exit [OF demo_kernel_inv demo_wait s(1,3,4)] by blast
qed

end
