(* ===== verification/Proc_Props.thy ===== *)
theory Proc_Props
  imports Proc_Inv
begin

text \<open>
  Further properties of \<^verbatim>\<open>kernel/proc.c\<close>: a round of the scheduler reaches every process that is ready, \<^verbatim>\<open>fork\<close> shares the open
  files and counts the new references, and what \<^verbatim>\<open>kill\<close> does to entries of the table that are free.
\<close>

section \<open>Scheduling\<close>

lemma scheduler_at_other:
  "scheduler_at c p s = Ok s' \<Longrightarrow> p \<noteq> q \<Longrightarrow> p_state (procs s' q) = p_state (procs s q)"
  by (auto simp: scheduler_at_def k_switchuvm_def Let_def elim!: rbind_OkE)

lemma scheduler_back_procs [simp]: "procs (scheduler_back c s) = procs s"
  by (simp add: scheduler_back_def)

lemma scheduler_ran: "scheduler c run ps s = Ok (rs, s') \<Longrightarrow> set rs \<subseteq> set ps \<and> (distinct ps \<longrightarrow> distinct rs)"
proof (induction ps arbitrary: s rs)
  case (Cons p ps)
  then show ?case by (fastforce elim!: rbind_OkE split: if_split_asm)
qed simp

text \<open>
  C26: A round of \<^verbatim>\<open>scheduler\<close> over the table runs each entry at most once, and runs every process that is ready when the round
  starts, as long as the others leave it ready until its turn.
\<close>

theorem scheduler_round:
  assumes "scheduler c run ps s = Ok (rs, s')" and "q \<in> set ps" and "p_state (procs s q) = RUNNABLE"
    and "\<forall>p t. p \<noteq> q \<longrightarrow> p_state (procs t q) = RUNNABLE \<longrightarrow> p_state (procs (run p t) q) = RUNNABLE"
  shows "q \<in> set rs \<and> set rs \<subseteq> set ps \<and> (distinct ps \<longrightarrow> distinct rs)"
proof -
  have "q \<in> set rs" using assms
  proof (induction ps arbitrary: s rs)
    case (Cons p ps)
    show ?case
    proof (cases "p_state (procs s p) = RUNNABLE")
      case False
      then show ?thesis using Cons by auto
    next
      case True
      obtain t rest where t: "scheduler_at c p s = Ok t" "scheduler c run ps (scheduler_back c (run p t)) = Ok (rest, s')" "rs = p # rest"
        using Cons.prems(1) True by (auto elim!: rbind_OkE)
      show ?thesis
      proof (cases "p = q")
        case False
        then have "p_state (procs (scheduler_back c (run p t)) q) = RUNNABLE"
          using scheduler_at_other [OF t(1) False] Cons.prems(3,4) by simp
        then show ?thesis using Cons.IH [OF t(2)] Cons.prems(2,4) False t(3) by simp
      qed (simp add: t(3))
    qed
  qed simp
  then show ?thesis using scheduler_ran [OF assms(1)] by blast
qed

definition demo_ready :: kstate where
  "demo_ready = demo_kernel\<lparr>procs := (procs demo_kernel)(1 := (demo_proc RUNNABLE 2 (Some 0))\<lparr>p_pgdir := 4096\<rparr>)\<rparr>"

lemma demo_ready_run: "\<exists>s'. scheduler 0 yield [0, 1, 2] demo_ready = Ok ([1], s')"
  by (simp add: demo_ready_def demo_proc_def scheduler_at_def k_switchuvm_def switchuvm_def Let_def yield_def)

theorem scheduler_round_witness:
  "\<exists>rs s'. scheduler 0 yield [0, 1, 2] demo_ready = Ok (rs, s') \<and> 1 \<in> set rs \<and> distinct rs"
proof -
  obtain s' where s': "scheduler 0 yield [0, 1, 2] demo_ready = Ok ([1], s')" using demo_ready_run by blast
  have "p_state (procs demo_ready 1) = RUNNABLE" by (simp add: demo_ready_def demo_proc_def)
  then have "1 \<in> set [1 :: nat] \<and> set [1] \<subseteq> set [0, 1, 2 :: nat] \<and> (distinct [0, 1, 2 :: nat] \<longrightarrow> distinct [1 :: nat])"
    by (intro scheduler_round [OF s']) (auto simp: yield_def)
  then show ?thesis using s' by auto
qed

section \<open>Kill\<close>

text \<open>
  C37: \<^verbatim>\<open>kill\<close> also finds free entries of the table.  After \<^verbatim>\<open>kill(0)\<close>, which returns 0 as if there were such a process, the next
  process that is allocated in that entry starts out killed.
\<close>

theorem kill_marks_free_entry:
  assumes "List.find (\<lambda>p. p_pid (procs s p) = 0) [0..<NPROC] = Some p"
    and "List.find (\<lambda>p. p_state (procs s p) = UNUSED) [0..<NPROC] = Some p" and "fst (kalloc (f_mem s)) \<noteq> 0"
    and "nextpid s < INT_MAX"
  shows "\<exists>s1 s2. kill 0 s = (0, s1) \<and> allocproc s1 = Ok (Some p, s2) \<and> p_killed (procs s2 p)"
proof -
  have u: "p_state (procs s p) = UNUSED" using find_upt [OF assms(2)] by simp
  let ?s = "setproc p ((procs s p)\<lparr>p_killed := True\<rparr>) s"
  have "kill 0 s = (0, ?s)" using assms(1) u by (simp add: kill_def Let_def)
  moreover have "List.find (\<lambda>p. p_state (procs ?s p) = UNUSED) [0..<NPROC] = Some p"
  proof -
    have "(\<lambda>q. p_state (procs ?s q) = UNUSED) = (\<lambda>p. p_state (procs s p) = UNUSED)" by auto
    then show ?thesis using assms(2) by simp
  qed
  moreover obtain k K where "kalloc (f_mem s) = (k, K)" "k \<noteq> 0" using assms(3) by (cases "kalloc (f_mem s)") auto
  ultimately show ?thesis using assms(4) by (auto simp: allocproc_def Let_def)
qed

definition demo_page :: kstate where
  "demo_page = demo_kernel\<lparr>f_mem := \<lparr>use_lock = True, freelist = 4096, pmem = (\<lambda>_. 0)\<rparr>\<rparr>"

theorem kill_marks_free_entry_witness:
  "\<exists>s1 s2. kill 0 demo_page = (0, s1) \<and> allocproc s1 = Ok (Some 2, s2) \<and> p_killed (procs s2 2)"
proof (rule kill_marks_free_entry)
  have u: "[0..<NPROC] = 0 # 1 # 2 # [3..<NPROC]" by (simp add: NPROC_def upt_rec)
  show "List.find (\<lambda>p. p_pid (procs demo_page p) = 0) [0..<NPROC] = Some 2"
    "List.find (\<lambda>p. p_state (procs demo_page p) = UNUSED) [0..<NPROC] = Some 2"
    unfolding u by (simp_all add: demo_page_def demo_proc_def)
  show "nextpid demo_page < INT_MAX" by (simp add: demo_page_def INT_MAX_def)
  show "fst (kalloc (f_mem demo_page)) \<noteq> 0" by (simp add: demo_page_def kalloc_def Let_def)
qed


section \<open>Fork\<close>

lemma files_frame [simp]:
  "files (setproc p x s) = files s" "files (setmem K s) = files s" "files (store f s) = files s" "files (tf_set p r v s) = files s"
  "files (idup k s) = files s"
  by (simp_all add: setproc_def setmem_def store_def tf_set_def idup_def setinode_def)

lemma procs_idup [simp]: "procs (idup k s) = procs s"
  using same_procs(1) [OF idup_fmore] .

lemma fork_file_effect:
  assumes "fork_file me np i s = Ok s'" and "me \<noteq> np"
  shows "p_ofile (procs s' me) = p_ofile (procs s me)"
    "p_ofile (procs s' np) = (case p_ofile (procs s me) ! i of None \<Rightarrow> p_ofile (procs s np) | Some f \<Rightarrow> (p_ofile (procs s np))[i := Some f])"
    "f_ref (files s' f) = f_ref (files s f) + (if p_ofile (procs s me) ! i = Some f then 1 else 0)"
proof -
  have d: "procs t = procs s" if "filedup g s = Ok t" for g t using same_procs(1) [OF filedup_fmore [OF that]] .
  show "p_ofile (procs s' me) = p_ofile (procs s me)"
    "p_ofile (procs s' np) = (case p_ofile (procs s me) ! i of None \<Rightarrow> p_ofile (procs s np) | Some f \<Rightarrow> (p_ofile (procs s np))[i := Some f])"
    using assms by (auto simp: fork_file_def elim!: rbind_OkE dest!: d split: option.split_asm)
  show "f_ref (files s' f) = f_ref (files s f) + (if p_ofile (procs s me) ! i = Some f then 1 else 0)"
    using assms by (auto simp: fork_file_def filedup_def elim!: rbind_OkE split: option.split_asm if_split_asm)
qed

lemma fork_files_effect:
  assumes "for_each (fork_file me np) [0..<n] s = Ok s'" and "me \<noteq> np"
    and "n \<le> length (p_ofile (procs s me))" and "n \<le> length (p_ofile (procs s np))"
  shows "p_ofile (procs s' me) = p_ofile (procs s me) \<and> length (p_ofile (procs s' np)) = length (p_ofile (procs s np))
    \<and> (\<forall>i < n. p_ofile (procs s me) ! i \<noteq> None \<longrightarrow> p_ofile (procs s' np) ! i = p_ofile (procs s me) ! i)
    \<and> (\<forall>f. f_ref (files s' f) = f_ref (files s f) + int (count_list (take n (p_ofile (procs s me))) (Some f)))"
  using assms
proof (induction n arbitrary: s')
  case (Suc n)
  obtain t where t: "for_each (fork_file me np) [0..<n] s = Ok t" "fork_file me np n t = Ok s'"
    using Suc.prems(1) by (auto simp: for_each_append elim!: rbind_OkE)
  note IH = Suc.IH [OF t(1) assms(2)]
  note e = fork_file_effect [OF t(2) assms(2)]
  have "take (Suc n) (p_ofile (procs s me)) = take n (p_ofile (procs s me)) @ [p_ofile (procs s me) ! n]"
    using Suc.prems(3) by (simp add: take_Suc_conv_app_nth)
  then show ?case
    using IH e Suc.prems(3,4) by (auto simp: less_Suc_eq nth_list_update split: option.splits)
qed simp

lemma fork_copy_effect:
  assumes "fork_copy me np s = Ok (r, s')" and "me \<noteq> np"
    and "length (p_ofile (procs s me)) = NOFILE" and "length (p_ofile (procs s np)) = NOFILE"
  shows "r = p_pid (procs s np)" "p_pid (procs s' np) = r" "p_state (procs s' np) = RUNNABLE" "p_parent (procs s' np) = Some me"
    "\<forall>i < NOFILE. p_ofile (procs s me) ! i \<noteq> None \<longrightarrow> p_ofile (procs s' np) ! i = p_ofile (procs s me) ! i"
    "f_ref (files s' f) = f_ref (files s f) + int (count_list (p_ofile (procs s me)) (Some f))"
proof -
  define s2 where "s2 = (let s = setproc np ((procs s np)\<lparr>p_sz := p_sz (procs s me), p_parent := Some me\<rparr>) s;
          s = store (memmove (p_tf (procs s np)) (p_tf (procs s me)) TF_SIZE) s in tf_set np tf_eax 0 s)"
  obtain s3 cwd where s3: "for_each (fork_file me np) [0..<NOFILE] s2 = Ok s3"
    and s': "s' = (let s = idup cwd s3;
             s = setproc np ((procs s np)\<lparr>p_cwd := Some cwd, p_name := set_name (p_name (procs s np)) (cstr (p_name (procs s me)))\<rparr>) s
           in setproc np ((procs s np)\<lparr>p_state := RUNNABLE\<rparr>) s)" and r: "r = p_pid (procs s3 np)"
    using assms(1) unfolding fork_copy_def s2_def Let_def by (auto elim!: rbind_OkE split: option.split_asm)
  have p2: "p_ofile (procs s2 me) = p_ofile (procs s me)" "p_ofile (procs s2 np) = p_ofile (procs s np)" "files s2 = files s"
    using assms(2) by (simp_all add: s2_def Let_def)
  have "ptab_of s3 = ptab_of s2" using s3 by (rule for_each_frame) (rule fork_file_ptab)
  from arg_cong [OF this, of "\<lambda>t. pt t np"] have "pent_of (procs s3 np) = pent_of (procs s2 np)" by simp
  then have p3: "p_pid (procs s3 np) = p_pid (procs s np)" "p_parent (procs s3 np) = Some me"
    by (auto simp: pent_of_def s2_def Let_def)
  show "r = p_pid (procs s np)" "p_pid (procs s' np) = r" "p_state (procs s' np) = RUNNABLE" "p_parent (procs s' np) = Some me"
    using p3 r by (simp_all add: s' Let_def)
  show "\<forall>i < NOFILE. p_ofile (procs s me) ! i \<noteq> None \<longrightarrow> p_ofile (procs s' np) ! i = p_ofile (procs s me) ! i"
    "f_ref (files s' f) = f_ref (files s f) + int (count_list (p_ofile (procs s me)) (Some f))"
    using fork_files_effect [OF s3 assms(2)] assms(3,4) p2 by (simp_all add: s' Let_def)
qed

text \<open>
  C27: A \<^verbatim>\<open>fork\<close> that succeeds returns the next identifier; the new process with this identifier is ready, has the caller as its
  parent and the caller's open files in the same descriptors; and the reference count of each file grows by the number of
  descriptors of the caller that refer to it.
\<close>

theorem fork_shares_files:
  assumes "fork me s = Ok (r, s')" and "r \<noteq> -1" and "p_state (procs s me) = RUNNING"
    and "\<forall>p. length (p_ofile (procs s p)) = NOFILE"
  shows "r = nextpid s \<and> (\<exists>np < NPROC. p_state (procs s np) = UNUSED \<and> p_pid (procs s' np) = r \<and> p_state (procs s' np) = RUNNABLE
      \<and> p_parent (procs s' np) = Some me
      \<and> (\<forall>i < NOFILE. p_ofile (procs s me) ! i \<noteq> None \<longrightarrow> p_ofile (procs s' np) ! i = p_ofile (procs s me) ! i))
    \<and> (\<forall>f. f_ref (files s' f) = f_ref (files s f) + int (count_list (p_ofile (procs s me)) (Some f)))"
proof -
  obtain q s1 where al: "allocproc s = Ok (q, s1)" using assms(1) by (auto simp: fork_def elim!: rbind_OkE)
  obtain np where np: "q = Some np" using assms(1,2) al by (cases q) (auto simp: fork_def)
  have a: "np < NPROC" "p_state (procs s np) = UNUSED" "procs s1 = (procs s)(np := procs s1 np)" "p_pid (procs s1 np) = nextpid s"
    using allocproc_ptab [OF al] np by (auto dest: arg_cong [of _ _ "\<lambda>t. e_pid (pt t np)"])
  have ne: "me \<noteq> np" using a(2) assms(3) by auto
  have o: "files s1 = files s" "p_ofile (procs s1 np) = p_ofile (procs s np)"
    using al np by (auto simp: allocproc_def Let_def split: option.split_asm prod.split_asm if_split_asm)
  have me: "procs s1 me = procs s me" using ne by (subst a(3)) simp
  obtain d K where "fork_copy me np (setproc np ((procs s1 np)\<lparr>p_pgdir := d\<rparr>) (setmem K s1)) = Ok (r, s')"
    using assms(1,2) al np by (auto simp: fork_def Let_def elim!: rbind_OkE split: if_split_asm)
  note e = fork_copy_effect [OF this ne]
  show ?thesis using e assms(4) ne a o me by auto
qed


text \<open>A machine with four free pages, on which \<^verbatim>\<open>init\<close> has one open file.\<close>

definition demo_fork :: kstate where
  "demo_fork = demo_kernel\<lparr>f_mem := \<lparr>use_lock = True, freelist = 0x1000,
       pmem = wr64 0x1000 0x2000 (wr64 0x2000 0x3000 (wr64 0x3000 0x4000 (\<lambda>_. 0)))\<rparr>,
     files := (files demo_kernel)(7 := (files demo_kernel 7)\<lparr>f_ref := 1\<rparr>),
     procs := (procs demo_kernel)(0 := (demo_proc RUNNING 1 None)\<lparr>p_sz := 0, p_ofile := Some 7 # replicate 15 None\<rparr>)\<rparr>"

lemma demo_fork_sel:
  "procs demo_fork 0 = (demo_proc RUNNING 1 None)\<lparr>p_sz := 0, p_ofile := Some 7 # replicate 15 None\<rparr>"
  "procs demo_fork (Suc 0) = demo_proc RUNNABLE 2 (Some 0)"  "2 \<le> p \<Longrightarrow> procs demo_fork p = demo_proc UNUSED 0 None"
  "nextpid demo_fork = 3" "f_ref (files demo_fork 7) = 1"
  "f_mem demo_fork = \<lparr>use_lock = True, freelist = 0x1000, pmem = wr64 0x1000 0x2000 (wr64 0x2000 0x3000 (wr64 0x3000 0x4000 (\<lambda>_. 0)))\<rparr>"
  by (simp_all add: demo_fork_def)

lemma for_each_id: "\<forall>x\<in>set xs. f x s = Ok s \<Longrightarrow> for_each f xs s = Ok s"
  by (induction xs) auto

lemma demo_fork_copy:
  fixes s :: kstate
  assumes "procs s 0 = procs demo_fork 0" and "f_ref (files s 7) = 1" and "p_ofile (procs s 2) = replicate 16 None"
  shows "\<exists>s'. fork_copy 0 2 s = Ok (p_pid (procs s 2), s')"
proof -
  have o: "p_ofile (procs s 0) ! i = None" if "1 \<le> i" "i < NOFILE" for i
    using that assms(1) by (simp add: demo_fork_sel nth_Cons' NOFILE_def)
  have u: "[0..<NOFILE] = 0 # [1..<NOFILE]" by (simp add: NOFILE_def upt_rec)
  have rest: "for_each (fork_file 0 2) [1..<NOFILE] t = Ok t" if "procs t 0 = procs s 0" for t :: kstate
    by (rule for_each_id) (use o that in \<open>auto simp: fork_file_def\<close>)
  have "p_cwd (procs s 0) = Some 0" "p_ofile (procs s 0) ! 0 = Some 7"
    using assms(1) by (simp_all add: demo_fork_sel demo_proc_def)
  then show ?thesis
    using assms rest by (simp add: fork_copy_def u Let_def fork_file_def filedup_def setfile_def)
qed

lemma rd64_above: "b \<le> q \<Longrightarrow> rd64 (\<lambda>x. if a \<le> x \<and> x < b then c else m x) q = rd64 m q"
  by (rule rd64_cong) auto

lemma demo_fork_ok: "\<exists>s'. fork 0 demo_fork = Ok (3, s')"
proof -
  have u: "[0..<NPROC] = 0 # 1 # 2 # [3..<NPROC]" by (simp add: NPROC_def upt_rec)
  have f: "List.find (\<lambda>p. p_state (procs demo_fork p) = UNUSED) [0..<NPROC] = Some 2"
    unfolding u by (simp add: demo_fork_sel demo_proc_def)
  obtain s1 where s1: "allocproc demo_fork = Ok (Some 2, s1)"
    and p1: "procs s1 0 = procs demo_fork 0" "files s1 = files demo_fork" "p_ofile (procs s1 2) = replicate 16 None" "p_pid (procs s1 2) = 3"
    and m1: "freelist (f_mem s1) = 0x2000" "rd64 (pmem (f_mem s1)) 0x2000 = 0x3000" "rd64 (pmem (f_mem s1)) 0x3000 = 0x4000"
    using f by (simp add: allocproc_def Let_def kalloc_def demo_fork_sel store_def INT_MAX_def)
      (simp add: demo_proc_def memset_eq stosb_eq KSTACKSIZE_def TF_SIZE_def CTX_SIZE_def ctx_eip_def rd64_wr64_other rd64_above)
  have "kalloc (f_mem s1) = (0x2000, (f_mem s1)\<lparr>freelist := 0x3000\<rparr>)" using m1 by (simp add: kalloc_def)
  then have "\<exists>K. copyuvm e q d (u32 0) (f_mem s1) = Ok (0x4000, K)" for e q d
    using m1 by (simp add: copyuvm_def setupkvm_def kalloc_def Let_def u32_def copyuvm_loop.simps)
  moreover have "p_sz (procs s1 0) = 0" using p1 by (simp add: demo_fork_sel)
  ultimately obtain K where
      "copyuvm (img_end (img s1)) (k_pdpt (kvm s1)) (p_pgdir (procs s1 0)) (u32 (p_sz (procs s1 0))) (f_mem s1) = Ok (0x4000, K)"
    by metis
  then have "fork 0 demo_fork = fork_copy 0 2 (setproc 2 ((procs s1 2)\<lparr>p_pgdir := 0x4000\<rparr>) (setmem K s1))"
    using s1 by (simp add: fork_def)
  then show ?thesis using demo_fork_copy [of "setproc 2 ((procs s1 2)\<lparr>p_pgdir := 0x4000\<rparr>) (setmem K s1)"] p1 by (simp add: demo_fork_sel)
qed

theorem fork_shares_files_witness:
  "\<exists>s'. fork 0 demo_fork = Ok (3, s') \<and> f_ref (files s' 7) = 2 \<and> (\<exists>np < NPROC. p_pid (procs s' np) = 3 \<and> p_ofile (procs s' np) ! 0 = Some 7)"
proof -
  obtain s' where s': "fork 0 demo_fork = Ok (3, s')" using demo_fork_ok by blast
  have l: "\<forall>p. length (p_ofile (procs demo_fork p)) = NOFILE"
    by (simp add: demo_fork_def demo_proc_def NOFILE_def)
  have o: "p_ofile (procs demo_fork 0) ! 0 = Some 7" "count_list (p_ofile (procs demo_fork 0)) (Some 7) = 1"
    by (simp_all add: demo_fork_sel count_list_0_iff)
  have "p_state (procs demo_fork 0) = RUNNING" by (simp add: demo_fork_sel demo_proc_def)
  from fork_shares_files [OF s' _ this l] show ?thesis
    using s' o by (auto simp: demo_fork_sel NOFILE_def)
qed

end
