(* ===== verification/Sleep.thy ===== *)
theory Sleep
  imports Proc
begin

text \<open>
  \<^verbatim>\<open>sleep\<close> and \<^verbatim>\<open>wakeup\<close> of \<^verbatim>\<open>kernel/proc.c\<close> at the granularity of their locks: threads that wait for a condition protected by a lock
  \<^verbatim>\<open>lk\<close>, other than \<^verbatim>\<open>ptable.lock\<close>, and threads that make it true and call \<^verbatim>\<open>wakeup\<close>.  Their steps interleave in any order.
\<close>

section \<open>The steps\<close>

text \<open>
  Where a thread is: outside; in the critical section of \<^verbatim>\<open>lk\<close>; in \<^verbatim>\<open>sleep\<close> before \<^verbatim>\<open>acquire(&ptable.lock)\<close>, before \<^verbatim>\<open>release(lk)\<close>, before
  \<^verbatim>\<open>chan\<close> and \<^verbatim>\<open>state\<close> are set, before \<^verbatim>\<open>sched()\<close>, away from the processor, back from \<^verbatim>\<open>sched()\<close>, before \<^verbatim>\<open>acquire(lk)\<close>; in \<^verbatim>\<open>wakeup\<close>
  before \<^verbatim>\<open>acquire\<close>, before \<^verbatim>\<open>wakeup1\<close>, before \<^verbatim>\<open>release\<close>.
\<close>

datatype swpc = Free | Critical | Sl_acquire | Sl_release | Sl_set | Sl_sched | Away | Sl_back | Sl_reacquire
  | Wk_acquire | Wk_wake | Wk_release

text \<open>The holders of \<^verbatim>\<open>ptable.lock\<close> and \<^verbatim>\<open>lk\<close>, the condition, the threads, and the processes they run as.\<close>

record swsys =
  ptlock :: "nat option"
  lklock :: "nat option"
  cond :: bool
  at :: "nat \<Rightarrow> swpc"
  pst :: "nat \<Rightarrow> procstate"
  pchan :: "nat \<Rightarrow> chan option"

definition goto :: "nat \<Rightarrow> swpc \<Rightarrow> swsys \<Rightarrow> swsys" where
  "goto t l S = S\<lparr>at := (at S)(t := l)\<rparr>"

text \<open>One step of \<^verbatim>\<open>sleep(ch, &lk)\<close> on thread \<open>t\<close>; \<^const>\<open>None\<close> when it has to wait for a lock or for a processor.\<close>

definition sleep_step :: "chan \<Rightarrow> nat \<Rightarrow> swsys \<Rightarrow> swsys option" where
  "sleep_step ch t S =
     (case at S t of
        Sl_acquire \<Rightarrow> if ptlock S = None then Some (goto t Sl_release (S\<lparr>ptlock := Some t\<rparr>)) else None
      | Sl_release \<Rightarrow> Some (goto t Sl_set (S\<lparr>lklock := None\<rparr>))
      | Sl_set \<Rightarrow> Some (goto t Sl_sched (S\<lparr>pchan := (pchan S)(t := Some ch), pst := (pst S)(t := SLEEPING)\<rparr>))
      | Sl_sched \<Rightarrow> Some (goto t Away (S\<lparr>ptlock := None\<rparr>))
      | Away \<Rightarrow> if pst S t = RUNNABLE \<and> ptlock S = None
               then Some (goto t Sl_back (S\<lparr>ptlock := Some t, pst := (pst S)(t := RUNNING)\<rparr>)) else None
      | Sl_back \<Rightarrow> Some (goto t Sl_reacquire (S\<lparr>pchan := (pchan S)(t := None), ptlock := None\<rparr>))
      | Sl_reacquire \<Rightarrow> if lklock S = None then Some (goto t Critical (S\<lparr>lklock := Some t\<rparr>)) else None
      | _ \<Rightarrow> None)"

text \<open>One step of \<^verbatim>\<open>wakeup(ch)\<close>.\<close>

definition wakeup_step :: "chan \<Rightarrow> nat \<Rightarrow> swsys \<Rightarrow> swsys option" where
  "wakeup_step ch t S =
     (case at S t of
        Wk_acquire \<Rightarrow> if ptlock S = None then Some (goto t Wk_wake (S\<lparr>ptlock := Some t\<rparr>)) else None
      | Wk_wake \<Rightarrow> Some (goto t Wk_release
          (S\<lparr>pst := \<lambda>p. if pst S p = SLEEPING \<and> pchan S p = Some ch then RUNNABLE else pst S p\<rparr>))
      | Wk_release \<Rightarrow> Some (goto t Critical (S\<lparr>ptlock := None\<rparr>))
      | _ \<Rightarrow> None)"

text \<open>
  The threads together.  A thread that needs the condition does \<^verbatim>\<open>acquire(&lk); while(!cond) sleep(ch, &lk)\<close>; inside the critical
  section the condition may become false, and becomes true only together with a call of \<^verbatim>\<open>wakeup(ch)\<close>.  \<^verbatim>\<open>kill\<close> makes a
  sleeper ready.
\<close>

inductive sw_step :: "chan \<Rightarrow> swsys \<Rightarrow> swsys \<Rightarrow> bool" for ch where
  sw_enter: "at S t = Free \<Longrightarrow> lklock S = None \<Longrightarrow> sw_step ch S (goto t Critical (S\<lparr>lklock := Some t\<rparr>))"
| sw_leave: "at S t = Critical \<Longrightarrow> sw_step ch S (goto t Free (S\<lparr>lklock := None\<rparr>))"
| sw_clear: "at S t = Critical \<Longrightarrow> sw_step ch S (S\<lparr>cond := False\<rparr>)"
| sw_sleep: "at S t = Critical \<Longrightarrow> \<not> cond S \<Longrightarrow> sw_step ch S (goto t Sl_acquire S)"
| sw_set: "at S t = Critical \<Longrightarrow> sw_step ch S (goto t Wk_acquire (S\<lparr>cond := True\<rparr>))"
| sw_sleeping: "sleep_step ch t S = Some S' \<Longrightarrow> sw_step ch S S'"
| sw_waking: "wakeup_step ch t S = Some S' \<Longrightarrow> sw_step ch S S'"
| sw_kill: "ptlock S = None \<Longrightarrow> pst S t = SLEEPING \<Longrightarrow> sw_step ch S (S\<lparr>pst := (pst S)(t := RUNNABLE)\<rparr>)"

definition sw_init :: "swsys \<Rightarrow> bool" where
  "sw_init S \<longleftrightarrow> ptlock S = None \<and> lklock S = None \<and> (\<forall>t. at S t = Free \<and> pst S t = RUNNING)"

section \<open>The invariant\<close>

fun holds_lk :: "swpc \<Rightarrow> bool" where
  "holds_lk Critical = True" | "holds_lk Sl_acquire = True" | "holds_lk Sl_release = True"
| "holds_lk Wk_acquire = True" | "holds_lk Wk_wake = True" | "holds_lk Wk_release = True" | "holds_lk _ = False"

fun holds_pt :: "swpc \<Rightarrow> bool" where
  "holds_pt Sl_release = True" | "holds_pt Sl_set = True" | "holds_pt Sl_sched = True" | "holds_pt Sl_back = True"
| "holds_pt Wk_wake = True" | "holds_pt Wk_release = True" | "holds_pt _ = False"

text \<open>On the way to sleep with \<^verbatim>\<open>lk\<close> still held; asleep or about to; about to call \<^verbatim>\<open>wakeup1\<close>.\<close>

fun going :: "swpc \<Rightarrow> bool" where
  "going Sl_acquire = True" | "going Sl_release = True" | "going _ = False"

fun gone :: "swpc \<Rightarrow> bool" where
  "gone Sl_sched = True" | "gone Away = True" | "gone _ = False"

fun waking :: "swpc \<Rightarrow> bool" where
  "waking Wk_acquire = True" | "waking Wk_wake = True" | "waking _ = False"

definition locks_ok :: "swsys \<Rightarrow> bool" where
  "locks_ok S \<longleftrightarrow> (\<forall>t. holds_lk (at S t) \<longleftrightarrow> lklock S = Some t) \<and> (\<forall>t. holds_pt (at S t) \<longleftrightarrow> ptlock S = Some t)"

text \<open>
  A process is marked asleep only from the point where its thread holds \<^verbatim>\<open>ptable.lock\<close>.  While a thread that has decided to sleep
  still holds \<^verbatim>\<open>lk\<close> the condition is false; afterwards, if it is true, the thread that made it true has not yet called \<^verbatim>\<open>wakeup1\<close>.
\<close>

definition marks_ok :: "chan \<Rightarrow> swsys \<Rightarrow> bool" where
  "marks_ok ch S \<longleftrightarrow> (\<forall>t. pst S t = SLEEPING \<longrightarrow> gone (at S t) \<and> pchan S t = Some ch)"

definition cond_ok :: "swsys \<Rightarrow> bool" where
  "cond_ok S \<longleftrightarrow> (\<forall>t. cond S \<longrightarrow> \<not> going (at S t))
     \<and> (\<forall>t. cond S \<and> (at S t = Sl_set \<or> pst S t = SLEEPING) \<longrightarrow> (\<exists>w. waking (at S w)))"

lemma going_holds: "going l \<Longrightarrow> holds_lk l" by (cases l) auto
lemma waking_holds: "waking l \<Longrightarrow> holds_lk l" by (cases l) auto

text \<open>A thread \<open>t\<close> moves to \<open>l\<close>, taking and giving back locks on the way.\<close>

lemma locks_move:
  assumes "locks_ok S" and "at S' = (at S)(t := l)"
    and "lklock S' = (if holds_lk l = holds_lk (at S t) then lklock S else if holds_lk l then Some t else None)"
    and "ptlock S' = (if holds_pt l = holds_pt (at S t) then ptlock S else if holds_pt l then Some t else None)"
    and "holds_lk l \<Longrightarrow> holds_lk (at S t) \<or> lklock S = None" and "holds_pt l \<Longrightarrow> holds_pt (at S t) \<or> ptlock S = None"
  shows "locks_ok S'"
  unfolding locks_ok_def
proof (intro conjI allI)
  fix u
  have lk: "holds_lk (at S v) \<longleftrightarrow> lklock S = Some v" and pt: "holds_pt (at S v) \<longleftrightarrow> ptlock S = Some v" for v
    using assms(1) by (simp_all add: locks_ok_def)
  show "holds_lk (at S' u) \<longleftrightarrow> lklock S' = Some u"
    using assms(2,3,5) lk [of t] lk [of u] by (cases "u = t") auto
  show "holds_pt (at S' u) \<longleftrightarrow> ptlock S' = Some u"
    using assms(2,4,6) pt [of t] pt [of u] by (cases "u = t") auto
qed

lemma locks_step: "sw_step ch S S' \<Longrightarrow> locks_ok S \<Longrightarrow> locks_ok S'"
proof (induction rule: sw_step.induct)
  case (sw_sleeping t S S')
  then show ?case
    by (cases "at S t") (auto simp: sleep_step_def goto_def split: if_split_asm intro!: locks_move [of S _ t])
next
  case (sw_waking t S S')
  then show ?case
    by (cases "at S t") (auto simp: wakeup_step_def goto_def split: if_split_asm intro!: locks_move [of S _ t])
next
  case (sw_clear S t)
  then show ?case by (simp add: locks_ok_def)
next
  case (sw_kill S t)
  then show ?case by (simp add: locks_ok_def)
next
  case (sw_enter S t)
  then show ?case by - (rule locks_move [of S _ t], auto simp: goto_def)
next
  case (sw_leave S t)
  then show ?case by - (rule locks_move [of S _ t], auto simp: goto_def)
next
  case (sw_sleep S t)
  then show ?case by - (rule locks_move [of S _ t], auto simp: goto_def)
next
  case (sw_set S t)
  then show ?case by - (rule locks_move [of S _ t], auto simp: goto_def)
qed

lemma marks_move:
  assumes "marks_ok ch S" and "at S' = (at S)(t := l)" and "\<And>u. u \<noteq> t \<Longrightarrow> pchan S' u = pchan S u"
    and "\<And>u. pst S' u = SLEEPING \<Longrightarrow> u \<noteq> t \<Longrightarrow> pst S u = SLEEPING" and "pst S' t = SLEEPING \<Longrightarrow> gone l \<and> pchan S' t = Some ch"
  shows "marks_ok ch S'"
  using assms unfolding marks_ok_def by auto

lemma marks_step: "sw_step ch S S' \<Longrightarrow> marks_ok ch S \<Longrightarrow> marks_ok ch S'"
proof (induction rule: sw_step.induct)
  case (sw_sleeping t S S')
  have "pst S t = SLEEPING \<Longrightarrow> gone (at S t) \<and> pchan S t = Some ch" using sw_sleeping(2) by (simp add: marks_ok_def)
  with sw_sleeping show ?case
    by (cases "at S t") (auto simp: sleep_step_def goto_def split: if_split_asm intro!: marks_move [of ch S _ t])
next
  case (sw_waking t S S')
  have "pst S t = SLEEPING \<Longrightarrow> gone (at S t) \<and> pchan S t = Some ch" using sw_waking(2) by (simp add: marks_ok_def)
  with sw_waking show ?case
    by (cases "at S t") (auto simp: wakeup_step_def goto_def split: if_split_asm intro!: marks_move [of ch S _ t])
next
  case (sw_clear S t)
  then show ?case by (simp add: marks_ok_def)
next
  case (sw_kill S t)
  then show ?case by (simp add: marks_ok_def)
next
  case (sw_enter S t)
  then have "pst S t = SLEEPING \<Longrightarrow> False" by (auto simp: marks_ok_def dest!: spec [of _ t])
  with sw_enter show ?case by - (rule marks_move [of ch S _ t], auto simp: goto_def)
next
  case (sw_leave S t)
  then have "pst S t = SLEEPING \<Longrightarrow> False" by (auto simp: marks_ok_def dest!: spec [of _ t])
  with sw_leave show ?case by - (rule marks_move [of ch S _ t], auto simp: goto_def)
next
  case (sw_sleep S t)
  then have "pst S t = SLEEPING \<Longrightarrow> False" by (auto simp: marks_ok_def dest!: spec [of _ t])
  with sw_sleep show ?case by - (rule marks_move [of ch S _ t], auto simp: goto_def)
next
  case (sw_set S t)
  then have "pst S t = SLEEPING \<Longrightarrow> False" by (auto simp: marks_ok_def dest!: spec [of _ t])
  with sw_set show ?case by - (rule marks_move [of ch S _ t], auto simp: goto_def)
qed


lemma cond_move:
  assumes "cond_ok S" and "at S' = (at S)(t := l)" and "cond S' = cond S" and "waking (at S t) \<Longrightarrow> waking l"
    and "cond S \<Longrightarrow> \<not> going l \<and> l \<noteq> Sl_set" and "\<And>u. pst S' u = SLEEPING \<Longrightarrow> pst S u = SLEEPING \<or> at S t = Sl_set"
  shows "cond_ok S'"
  unfolding cond_ok_def
proof (intro conjI allI impI)
  fix u
  have a: "cond S \<Longrightarrow> \<not> going (at S v)" and b: "cond S \<Longrightarrow> at S v = Sl_set \<or> pst S v = SLEEPING \<Longrightarrow> \<exists>w. waking (at S w)" for v
    using assms(1) by (auto simp: cond_ok_def)
  show "\<not> going (at S' u)" if "cond S'" using that a [of u] assms(2,3,5) by (cases "u = t") auto
  assume "cond S' \<and> (at S' u = Sl_set \<or> pst S' u = SLEEPING)"
  then have "cond S" "at S u = Sl_set \<or> pst S u = SLEEPING \<or> at S t = Sl_set"
    using assms(2,3,5,6) by (auto split: if_split_asm)
  then obtain w where "waking (at S w)" using b by blast
  then show "\<exists>w. waking (at S' w)" using assms(2,4) by (intro exI [of _ w]) auto
qed

lemma cond_step: "sw_step ch S S' \<Longrightarrow> locks_ok S \<Longrightarrow> marks_ok ch S \<Longrightarrow> cond_ok S \<Longrightarrow> cond_ok S'"
proof (induction rule: sw_step.induct)
  case (sw_enter S t)
  then show ?case by - (rule cond_move [of S _ t], auto simp: goto_def)
next
  case (sw_leave S t)
  then show ?case by - (rule cond_move [of S _ t], auto simp: goto_def)
next
  case (sw_clear S t)
  then show ?case by (simp add: cond_ok_def)
next
  case (sw_sleep S t)
  then show ?case by (simp add: cond_ok_def goto_def)
next
  case (sw_set S t)
  have lk: "lklock S = Some t" using sw_set(1,2) by (auto simp: locks_ok_def dest!: spec [of _ t])
  have "\<not> going (at S u)" if "u \<noteq> t" for u using that lk sw_set(2) going_holds [of "at S u"] by (auto simp: locks_ok_def)
  then show ?case by (auto simp: cond_ok_def goto_def intro!: exI [of _ t])
next
  case (sw_sleeping t S S')
  have "going (at S t) \<Longrightarrow> \<not> cond S" using sw_sleeping(4) by (auto simp: cond_ok_def)
  with sw_sleeping show ?case
    by (cases "at S t") (auto simp: sleep_step_def goto_def split: if_split_asm intro!: cond_move [of S _ t])
next
  case (sw_waking t S S')
  show ?case
  proof (cases "at S t = Wk_wake")
    case False
    with sw_waking show ?thesis
      by (cases "at S t") (auto simp: wakeup_step_def goto_def split: if_split_asm intro!: cond_move [of S _ t])
  next
    case True
    have pt: "ptlock S = Some t" using True sw_waking(2) by (auto simp: locks_ok_def dest!: spec [of _ t])
    have set: "at S u \<noteq> Sl_set" for u
    proof
      assume "at S u = Sl_set"
      then have "ptlock S = Some u" using sw_waking(2) by (auto simp: locks_ok_def dest!: spec [of _ u])
      then show False using pt True \<open>at S u = Sl_set\<close> by auto
    qed
    have "S' = goto t Wk_release (S\<lparr>pst := \<lambda>p. if pst S p = SLEEPING \<and> pchan S p = Some ch then RUNNABLE else pst S p\<rparr>)"
      using sw_waking(1) True by (simp add: wakeup_step_def)
    then show ?thesis using set sw_waking(3,4) by (auto simp: cond_ok_def goto_def marks_ok_def)
  qed
next
  case (sw_kill S t)
  then show ?case by (auto simp: cond_ok_def split: if_split_asm)
qed

lemma sw_reachable:
  assumes "(sw_step ch)\<^sup>*\<^sup>* S S'" and "sw_init S"
  shows "locks_ok S' \<and> marks_ok ch S' \<and> cond_ok S'"
  using assms(1)
proof (induction rule: rtranclp_induct)
  case base
  then show ?case using assms(2) by (simp add: sw_init_def locks_ok_def marks_ok_def cond_ok_def)
next
  case (step T U)
  then show ?case using locks_step marks_step cond_step by blast
qed

section \<open>Properties\<close>

text \<open>
  C4: No wakeup is lost.  Whatever the interleaving of threads that sleep until a condition holds and threads that make it true and
  call \<^verbatim>\<open>wakeup\<close>: when the condition holds and no thread is between making it true and its \<^verbatim>\<open>wakeup1\<close>, no process is asleep on
  the channel.  \<^verbatim>\<open>lk\<close> and \<^verbatim>\<open>ptable.lock\<close> are never held by two threads.
\<close>

theorem no_lost_wakeup:
  assumes "sw_init S" and "(sw_step ch)\<^sup>*\<^sup>* S S'" and "cond S'" and "\<forall>w. at S' w \<notin> {Wk_acquire, Wk_wake}"
  shows "\<forall>t. pst S' t \<noteq> SLEEPING"
proof -
  have "\<not> waking (at S' w)" for w using assms(4) by (cases "at S' w") (auto dest: spec [of _ w])
  then show ?thesis using sw_reachable [OF assms(2,1)] assms(3) by (auto simp: cond_ok_def)
qed

definition demo_sw :: swsys where
  "demo_sw = \<lparr>ptlock = None, lklock = None, cond = False, at = (\<lambda>_. Free), pst = (\<lambda>_. RUNNING), pchan = (\<lambda>_. None)\<rparr>"

text \<open>Thread 0 goes to sleep, thread 1 wakes it.\<close>

fun sw_run :: "chan \<Rightarrow> (nat \<times> bool) list \<Rightarrow> swsys \<Rightarrow> swsys option" where
  "sw_run ch [] S = Some S"
| "sw_run ch ((t, w) # ts) S =
     (case (if w then wakeup_step ch t S else sleep_step ch t S) of None \<Rightarrow> None | Some S' \<Rightarrow> sw_run ch ts S')"

lemma sw_run_steps: "sw_run ch ts S = Some S' \<Longrightarrow> (sw_step ch)\<^sup>*\<^sup>* S S'"
proof (induction ts arbitrary: S)
  case (Cons x ts)
  obtain t w where x: "x = (t, w)" by fastforce
  obtain T where T: "(if w then wakeup_step ch t S else sleep_step ch t S) = Some T" "sw_run ch ts T = Some S'"
    using Cons.prems x by (auto split: option.split_asm)
  have "sw_step ch S T" using T(1) by (auto split: if_split_asm intro: sw_sleeping sw_waking)
  then show ?case using Cons.IH [OF T(2)] by (rule converse_rtranclp_into_rtranclp)
qed simp

theorem no_lost_wakeup_witness:
  "\<exists>S'. (sw_step Chan_ticks)\<^sup>*\<^sup>* demo_sw S' \<and> cond S' \<and> at S' 0 = Away \<and> pst S' 0 \<noteq> SLEEPING"
proof -
  let ?A = "goto 0 Sl_acquire (goto 0 Critical (demo_sw\<lparr>lklock := Some 0\<rparr>))"
  have a: "(sw_step Chan_ticks)\<^sup>*\<^sup>* demo_sw ?A"
    using sw_enter [of demo_sw 0] sw_sleep [of "goto 0 Critical (demo_sw\<lparr>lklock := Some 0\<rparr>)" 0]
    by (simp add: demo_sw_def goto_def) (meson converse_rtranclp_into_rtranclp r_into_rtranclp)
  obtain B where B: "sw_run Chan_ticks [(0, False), (0, False), (0, False), (0, False)] ?A = Some B"
    and b: "at B = (\<lambda>_. Free)(0 := Away)" "lklock B = None" "ptlock B = None" "pchan B = (\<lambda>_. None)(0 := Some Chan_ticks)"
      "pst B = (\<lambda>_. RUNNING)(0 := SLEEPING)"
    by (auto simp: sleep_step_def goto_def demo_sw_def)
  let ?C = "goto 1 Critical (B\<lparr>lklock := Some 1\<rparr>)"
  let ?D = "goto 1 Wk_acquire (?C\<lparr>cond := True\<rparr>)"
  have d: "(sw_step Chan_ticks)\<^sup>*\<^sup>* B ?D"
    using sw_enter [of B 1 Chan_ticks] sw_set [of ?C 1 Chan_ticks] b
    by (simp add: goto_def)
  obtain E where E: "sw_run Chan_ticks [(1, True), (1, True), (1, True)] ?D = Some E"
    and e: "cond E" "at E = ((\<lambda>_. Free)(0 := Away))(1 := Critical)"
    using b by (auto simp: wakeup_step_def goto_def)
  have r: "(sw_step Chan_ticks)\<^sup>*\<^sup>* demo_sw E"
    using a sw_run_steps [OF B] d sw_run_steps [OF E] by (meson rtranclp_trans)
  have i: "sw_init demo_sw" by (simp add: sw_init_def demo_sw_def)
  have "\<forall>w. at E w \<notin> {Wk_acquire, Wk_wake}" using e(2) by simp
  from no_lost_wakeup [OF i r e(1) this] show ?thesis using r e by (intro exI [of _ E]) simp
qed

end
