(* ===== verification/Syscall.thy ===== *)
theory Syscall
  imports Proc_Inv
begin

text \<open>
  \<^verbatim>\<open>kernel/syscall.c\<close>: the arguments of system calls, from the registers and the memory of the calling process; and the system calls of
  \<^verbatim>\<open>kernel/sysproc.c\<close>.  The kernel reads user memory through the page table of the process; an access to a page that is not mapped
  is a trap in the kernel, that is, a panic.
\<close>

section \<open>User memory\<close>

definition user_cr3 :: "nat \<Rightarrow> 'z kstate_scheme \<Rightarrow> nat" where
  "user_cr3 me s = v2p (PTE_ADDR (ent (p_pgdir (procs s me)) 511 (f_mem s)))"

definition user_byte :: "nat \<Rightarrow> nat \<Rightarrow> 'z kstate_scheme \<Rightarrow> byte res" where
  "user_byte me a s =
     (case hw_walk (f_mem s) (user_cr3 me s) (a mod 2 ^ 64) of None \<Rightarrow> Panic ''trap'' | Some pa \<Rightarrow> Ok (pmem (f_mem s) (p2v pa)))"

fun user_bytes :: "nat \<Rightarrow> nat \<Rightarrow> nat \<Rightarrow> 'z kstate_scheme \<Rightarrow> byte list res" where
  "user_bytes me a 0 s = Ok []"
| "user_bytes me a (Suc n) s = rbind (user_byte me a s) (\<lambda>c. rbind (user_bytes me (a + 1) n s) (\<lambda>cs. Ok (c # cs)))"

fun user_store :: "nat \<Rightarrow> nat \<Rightarrow> byte list \<Rightarrow> 'z kstate_scheme \<Rightarrow> 'z kstate_scheme res" where
  "user_store me a [] s = Ok s"
| "user_store me a (c # cs) s =
     (case hw_walk (f_mem s) (user_cr3 me s) (a mod 2 ^ 64) of
        None \<Rightarrow> Panic ''trap''
      | Some pa \<Rightarrow> user_store me (a + 1) cs (store (\<lambda>m. m(p2v pa := c)) s))"

text \<open>A little-endian number.\<close>

fun le_value :: "byte list \<Rightarrow> nat" where
  "le_value [] = 0"
| "le_value (c # cs) = unat c + 256 * le_value cs"

fun le_bytes :: "nat \<Rightarrow> nat \<Rightarrow> byte list" where
  "le_bytes 0 v = []"
| "le_bytes (Suc n) v = of_nat v # le_bytes n (v div 256)"

section \<open>Fetching\<close>

definition fetchint :: "nat \<Rightarrow> nat \<Rightarrow> 'z kstate_scheme \<Rightarrow> int option res" where
  "fetchint me addr s =
     (if addr \<ge> p_sz (procs s me) \<or> (addr + 4) mod 2 ^ 64 > p_sz (procs s me) then Ok None
      else rbind (user_bytes me addr 4 s) (\<lambda>bs. Ok (Some (s32 (le_value bs)))))"

definition fetchuintp :: "nat \<Rightarrow> nat \<Rightarrow> 'z kstate_scheme \<Rightarrow> nat option res" where
  "fetchuintp me addr s =
     (if addr \<ge> p_sz (procs s me) \<or> (addr + 8) mod 2 ^ 64 > p_sz (procs s me) then Ok None
      else rbind (user_bytes me addr 8 s) (\<lambda>bs. Ok (Some (le_value bs))))"

text \<open>The string without its NUL, \<^const>\<open>None\<close> when there is no NUL below the size of the process.\<close>

function fetchstr_loop :: "nat \<Rightarrow> nat \<Rightarrow> nat \<Rightarrow> 'z kstate_scheme \<Rightarrow> byte list option res" where
  "fetchstr_loop me a ep s =
     (if a < ep then
        rbind (user_byte me a s) (\<lambda>c.
        if c = 0 then Ok (Some []) else rbind (fetchstr_loop me (a + 1) ep s) (\<lambda>r. Ok (map_option ((#) c) r)))
      else Ok None)"
  by pat_completeness auto
termination by (relation "measure (\<lambda>(me, a, ep, s). ep - a)") auto

declare fetchstr_loop.simps [simp del]

definition fetchstr :: "nat \<Rightarrow> nat \<Rightarrow> 'z kstate_scheme \<Rightarrow> byte list option res" where
  "fetchstr me addr s =
     (if addr \<ge> p_sz (procs s me) then Ok None else fetchstr_loop me addr (p_sz (procs s me)) s)"

definition fetcharg :: "nat \<Rightarrow> nat \<Rightarrow> 'z kstate_scheme \<Rightarrow> nat" where
  "fetcharg me n s =
     (if n = 0 then tf_get me tf_rdi s
      else if n = 1 then tf_get me tf_rsi s
      else if n = 2 then tf_get me tf_rdx s
      else if n = 3 then tf_get me tf_rcx s
      else if n = 4 then tf_get me tf_r8 s
      else if n = 5 then tf_get me tf_r9 s
      else 0)"

text \<open>\<^verbatim>\<open>argint\<close> and \<^verbatim>\<open>arguintp\<close> never fail.\<close>

definition argint :: "nat \<Rightarrow> nat \<Rightarrow> 'z kstate_scheme \<Rightarrow> int" where
  "argint me n s = s32 (u32 (fetcharg me n s))"

definition arguintp :: "nat \<Rightarrow> nat \<Rightarrow> 'z kstate_scheme \<Rightarrow> nat" where
  "arguintp me n s = fetcharg me n s"

text \<open>\<^verbatim>\<open>size\<close> is an \<^verbatim>\<open>int\<close> and is extended to 64 bits in the sum.\<close>

definition argptr :: "nat \<Rightarrow> nat \<Rightarrow> int \<Rightarrow> 'z kstate_scheme \<Rightarrow> nat option" where
  "argptr me n sz s =
     (let i = arguintp me n s
      in if i \<ge> p_sz (procs s me) \<or> nat ((int i + sz) mod 2 ^ 64) > p_sz (procs s me) then None else Some i)"

definition argstr :: "nat \<Rightarrow> nat \<Rightarrow> 'z kstate_scheme \<Rightarrow> byte list option res" where
  "argstr me n s = fetchstr me (arguintp me n s) s"

section \<open>System calls on processes\<close>

text \<open>The result of a system call; a call that has to wait is \<^const>\<open>Sleeps\<close>.\<close>

type_synonym 'z call = "'z kstate_scheme \<Rightarrow> (int \<times> 'z kstate_scheme) res"

definition sys_fork :: "nat \<Rightarrow> 'z call" where
  "sys_fork me s = fork me s"

definition sys_exit :: "nat \<Rightarrow> 'z call" where
  "sys_exit me s = rbind (exit me s) (\<lambda>s. Ok (0, s))"

definition sys_wait :: "nat \<Rightarrow> 'z call" where
  "sys_wait me s = rbind (wait me s) (\<lambda>(r, s). case r of None \<Rightarrow> Sleeps | Some r \<Rightarrow> Ok (r, s))"

definition sys_kill :: "nat \<Rightarrow> 'z call" where
  "sys_kill me s = Ok (kill (argint me 0 s) s)"

definition sys_getpid :: "nat \<Rightarrow> 'z call" where
  "sys_getpid me s = Ok (p_pid (procs s me), s)"

text \<open>The result is an \<^verbatim>\<open>uintp\<close>, but the table of system calls makes it an \<^verbatim>\<open>int\<close>.\<close>

definition sys_sbrk :: "nat \<Rightarrow> nat \<Rightarrow> 'z call" where
  "sys_sbrk c me s =
     (let n = arguintp me 0 s; addr = p_sz (procs s me)
      in rbind (growproc c me (s32 (u32 n)) s) (\<lambda>(r, s). Ok (if r < 0 then -1 else s32 (u32 addr), s)))"

text \<open>The loop of \<^verbatim>\<open>sys_sleep\<close>, entered again after each sleep; the comparison is unsigned.\<close>

definition sys_sleep_loop :: "nat \<Rightarrow> int \<Rightarrow> nat \<Rightarrow> 'z call" where
  "sys_sleep_loop ticks0 n me s =
     (if (ticks s + 2 ^ 32 - ticks0) mod 2 ^ 32 < nat (n mod 2 ^ 32) then
        if p_killed (procs s me) then Ok (-1, s) else Sleeps
      else Ok (0, s))"

definition sys_sleep :: "nat \<Rightarrow> 'z call" where
  "sys_sleep me s = sys_sleep_loop (ticks s) (argint me 0 s) me s"

definition sys_uptime :: "nat \<Rightarrow> 'z call" where
  "sys_uptime me s = Ok (s32 (u32 (ticks s)), s)"

section \<open>Property\<close>

text \<open>
  C34: \<^verbatim>\<open>argptr\<close> accepts a pointer exactly when the pointer lies in the memory of the process and the sum of pointer and size neither passes
  its end nor falls below 0.  For a size of at least 0 that is the range check the caller needs; a negative size, which
  \<^verbatim>\<open>sys_read\<close> and \<^verbatim>\<open>sys_write\<close> pass on from the user, is accepted for almost every pointer.
\<close>

theorem argptr_range:
  assumes "p_sz (procs s me) < 2 ^ 63" and "- (2 ^ 31) \<le> sz" "sz < 2 ^ 31"
  shows "argptr me n sz s =
    (if arguintp me n s < p_sz (procs s me) \<and> 0 \<le> int (arguintp me n s) + sz \<and> int (arguintp me n s) + sz \<le> int (p_sz (procs s me))
     then Some (arguintp me n s) else None)"
proof (cases "arguintp me n s < p_sz (procs s me)")
  case True
  let ?x = "int (arguintp me n s) + sz"
  show ?thesis
  proof (cases "0 \<le> ?x")
    case pos: True
    then have "?x mod 2 ^ 64 = ?x" using True assms by (intro mod_pos_pos_trivial) auto
    then show ?thesis using True pos by (auto simp: argptr_def Let_def)
  next
    case False
    have "?x mod 2 ^ 64 = (?x + 2 ^ 64) mod 2 ^ 64" by simp
    also have "\<dots> = ?x + 2 ^ 64" using False assms by (intro mod_pos_pos_trivial) auto
    finally have "?x mod 2 ^ 64 = ?x + 2 ^ 64" .
    then have "p_sz (procs s me) < nat (?x mod 2 ^ 64)" using assms by (simp only:) simp
    then show ?thesis using True False by (simp add: argptr_def Let_def)
  qed
qed (simp add: argptr_def)

theorem argptr_range_witness:
  "p_sz (procs demo_kernel 0) = 4096 \<and> argptr 0 0 4096 demo_kernel = Some 0 \<and> argptr 0 0 4097 demo_kernel = None"
proof -
  have "arguintp 0 0 demo_kernel = 0" "p_sz (procs demo_kernel 0) = 4096"
    by (simp_all add: arguintp_def fetcharg_def tf_get_def rd64_def demo_proc_def)
  then show ?thesis using argptr_range [of demo_kernel 0 4096 0] argptr_range [of demo_kernel 0 4097 0] by simp
qed

end
