(* ===== verification/Exec.thy ===== *)
theory Exec
  imports Syscall
begin

text \<open>
  \<^verbatim>\<open>kernel/exec.c\<close>, with \<^verbatim>\<open>loaduvm\<close> of \<^verbatim>\<open>kernel/vm.c\<close>: loading a program from a file in ELF format.  The argument \<open>c\<close> is the
  processor, \<open>me\<close> the process.
\<close>

section \<open>The file format\<close>

text \<open>\<^verbatim>\<open>struct elfhdr\<close> and \<^verbatim>\<open>struct proghdr\<close> of the 64-bit configuration.\<close>

record elfhdr =
  e_magic :: nat
  e_entry :: nat
  e_phoff :: nat
  e_phnum :: nat

record proghdr =
  ph_type :: nat
  ph_off :: nat
  ph_vaddr :: nat
  ph_filesz :: nat
  ph_memsz :: nat

definition ELF_MAGIC :: nat where "ELF_MAGIC = 0x464C457F"
definition ELFHDR_SIZE :: nat where "ELFHDR_SIZE = 64"
definition PROGHDR_SIZE :: nat where "PROGHDR_SIZE = 56"
definition ELF_PROG_LOAD :: nat where "ELF_PROG_LOAD = 1"

definition field :: "byte list \<Rightarrow> nat \<Rightarrow> nat \<Rightarrow> nat" where
  "field bs off n = le_value (take n (drop off bs))"

definition decode_elf :: "byte list \<Rightarrow> elfhdr" where
  "decode_elf bs = \<lparr>e_magic = field bs 0 4, e_entry = field bs 24 8, e_phoff = field bs 32 8, e_phnum = field bs 56 2\<rparr>"

definition decode_ph :: "byte list \<Rightarrow> proghdr" where
  "decode_ph bs = \<lparr>ph_type = field bs 0 4, ph_off = field bs 8 8, ph_vaddr = field bs 16 8, ph_filesz = field bs 32 8, ph_memsz = field bs 40 8\<rparr>"

section \<open>Loading\<close>

text \<open>An \<^verbatim>\<open>int\<close> that is assigned to an \<^verbatim>\<open>uintp\<close>.\<close>

definition extend32 :: "nat \<Rightarrow> nat" where
  "extend32 v = (let v = u32 v in if v < 2 ^ 31 then v else v + (2 ^ 64 - 2 ^ 32))"

definition sub64 :: "nat \<Rightarrow> nat \<Rightarrow> nat" where
  "sub64 a b = (a + 2 ^ 64 - b) mod 2 ^ 64"

text \<open>Bytes at kernel address \<open>a\<close>.\<close>

definition put_bytes :: "nat \<Rightarrow> byte list \<Rightarrow> mem \<Rightarrow> mem" where
  "put_bytes a bs m = (\<lambda>x. if a \<le> x \<and> x < a + length bs then bs ! (x - a) else m x)"

function loaduvm_loop :: "'z kstate_ext fstate_ext devsw \<Rightarrow> nat \<Rightarrow> nat \<Rightarrow> nat \<Rightarrow> nat \<Rightarrow> nat \<Rightarrow> nat \<Rightarrow> 'z kstate_scheme \<Rightarrow> (int \<times> 'z kstate_scheme) res" where
  "loaduvm_loop devsw pgdir addr ip offset i sz s =
     (if i < sz then
        let (pte, K) = walkpgdir pgdir (addr + i) False (f_mem s)
        in if pte = 0 then Panic ''loaduvm: address should exist''
           else
             let pa = u32 (PTE_ADDR (rd64 (pmem (f_mem s)) pte)); n = (if sz - i < PGSIZE then sz - i else PGSIZE)
             in rbind (readi devsw ip (u32 (offset + i)) n s) (\<lambda>(r, bs, s).
                let s = store (put_bytes (p2v pa) bs) s
                in if r \<noteq> int n then Ok (-1, s) else loaduvm_loop devsw pgdir addr ip offset (i + PGSIZE) sz s)
      else Ok (0, s))"
  by pat_completeness auto
termination
  by (relation "measure (\<lambda>(d, pgdir, addr, ip, offset, i, sz, s). sz - i)") (auto simp: PGSIZE_def)

declare loaduvm_loop.simps [simp del]

definition loaduvm :: "'z kstate_ext fstate_ext devsw \<Rightarrow> nat \<Rightarrow> nat \<Rightarrow> nat \<Rightarrow> nat \<Rightarrow> nat \<Rightarrow> 'z kstate_scheme \<Rightarrow> (int \<times> 'z kstate_scheme) res" where
  "loaduvm devsw pgdir addr ip offset sz s =
     (if addr mod PGSIZE \<noteq> 0 then Panic ''loaduvm: addr must be page aligned''
      else loaduvm_loop devsw pgdir addr ip offset 0 sz s)"

text \<open>\<^verbatim>\<open>allocuvm\<close> with its \<^verbatim>\<open>uint\<close> arguments and its \<^verbatim>\<open>int\<close> result, on the state.\<close>

definition exec_allocuvm :: "nat \<Rightarrow> nat \<Rightarrow> nat \<Rightarrow> 'z kstate_scheme \<Rightarrow> (nat \<times> 'z kstate_scheme) res" where
  "exec_allocuvm pgdir oldsz newsz s =
     rbind (allocuvm (img_end (img s)) pgdir (u32 oldsz) (u32 newsz) (f_mem s)) (\<lambda>(sz, K). Ok (extend32 sz, setmem K s))"

text \<open>The loop over the program headers, \<open>n\<close> of them from offset \<open>off\<close> on; \<^const>\<open>None\<close> is the jump to \<^verbatim>\<open>bad\<close>.\<close>

fun exec_load :: "'z kstate_ext fstate_ext devsw \<Rightarrow> nat \<Rightarrow> nat \<Rightarrow> nat \<Rightarrow> nat \<Rightarrow> nat \<Rightarrow> 'z kstate_scheme \<Rightarrow> (nat option \<times> 'z kstate_scheme) res" where
  "exec_load devsw ip pgdir 0 off sz s = Ok (Some sz, s)"
| "exec_load devsw ip pgdir (Suc n) off sz s =
     rbind (readi devsw ip (u32 off) PROGHDR_SIZE s) (\<lambda>(r, bs, s).
     if r \<noteq> int PROGHDR_SIZE then Ok (None, s)
     else
       let ph = decode_ph bs
       in if ph_type ph \<noteq> ELF_PROG_LOAD then exec_load devsw ip pgdir n (off + PROGHDR_SIZE) sz s
          else if ph_memsz ph < ph_filesz ph then Ok (None, s)
          else
            rbind (exec_allocuvm pgdir sz (ph_vaddr ph + ph_memsz ph) s) (\<lambda>(sz, s).
            if sz = 0 then Ok (None, s)
            else
              rbind (loaduvm devsw pgdir (ph_vaddr ph) ip (u32 (ph_off ph)) (u32 (ph_filesz ph)) s) (\<lambda>(r, s).
              if r < 0 then Ok (None, s) else exec_load devsw ip pgdir n (off + PROGHDR_SIZE) sz s)))"

section \<open>The stack\<close>

text \<open>
  The loop that pushes the argument strings: the stack pointer and the addresses of the strings.
\<close>

fun exec_args :: "nat \<Rightarrow> byte list list \<Rightarrow> nat \<Rightarrow> nat \<Rightarrow> kmem \<Rightarrow> ((nat \<times> nat list) option \<times> kmem) res" where
  "exec_args pgdir [] argc sp K = Ok (Some (sp, []), K)"
| "exec_args pgdir (a # as) argc sp K =
     (if argc \<ge> MAXARG then Ok (None, K)
      else
        let sp = sub64 sp (length a + 1) div 8 * 8
        in rbind (copyout pgdir (u32 sp) (a @ [0]) K) (\<lambda>(r, K).
           if r < 0 then Ok (None, K)
           else rbind (exec_args pgdir as (argc + 1) sp K) (\<lambda>(r, K).
                Ok (map_option (\<lambda>(top, ps). (top, sp # ps)) r, K))))"

definition exec_ustack :: "nat \<Rightarrow> nat list \<Rightarrow> nat list" where
  "exec_ustack sp ps = [0xffffffff, length ps, sub64 sp ((length ps + 1) * 8)] @ ps @ [0]"

text \<open>The part of a path after its last slash.\<close>

definition last_elem :: "byte list \<Rightarrow> byte list" where
  "last_elem path = rev (takeWhile (\<lambda>c. c \<noteq> 47) (rev path))"

section \<open>Exec\<close>

text \<open>\<^verbatim>\<open>bad\<close>, before and after the inode has been released.\<close>

definition exec_bad :: "nat \<Rightarrow> nat option \<Rightarrow> 'z kstate_scheme \<Rightarrow> (int \<times> 'z kstate_scheme) res" where
  "exec_bad pgdir ip s =
     rbind (if pgdir \<noteq> 0 then rbind (freevm (img_end (img s)) pgdir (f_mem s)) (\<lambda>K. Ok (setmem K s)) else Ok s) (\<lambda>s.
     rbind (case ip of Some k \<Rightarrow> rbind (iunlockput k s) end_op | None \<Rightarrow> Ok s) (\<lambda>s.
     Ok (-1, s)))"

text \<open>From \<^verbatim>\<open>sz = PGROUNDUP(sz)\<close> on.\<close>

definition exec_commit :: "nat \<Rightarrow> nat \<Rightarrow> byte list \<Rightarrow> byte list list \<Rightarrow> nat \<Rightarrow> nat \<Rightarrow> nat \<Rightarrow> 'z kstate_scheme \<Rightarrow> (int \<times> 'z kstate_scheme) res" where
  "exec_commit c me path argv entry pgdir sz s =
     (let sz = PGROUNDUP sz
      in rbind (exec_allocuvm pgdir sz (sz + 2 * PGSIZE) s) (\<lambda>(sz, s).
         if sz = 0 then exec_bad pgdir None s
         else
           rbind (clearpteu pgdir (sub64 sz (2 * PGSIZE)) (f_mem s)) (\<lambda>K.
           rbind (exec_args pgdir argv 0 sz K) (\<lambda>(r, K).
           let s = setmem K s
           in case r of
                None \<Rightarrow> exec_bad pgdir None s
              | Some (sp, ps) \<Rightarrow>
                  let argc = length ps;
                      s = tf_set me tf_rdi argc s;
                      s = tf_set me tf_rsi (sub64 sp ((argc + 1) * 8)) s;
                      top = sub64 sp ((3 + argc + 1) * 8)
                  in rbind (copyout pgdir (u32 top) (concat (map (le_bytes 8) (exec_ustack sp ps))) (f_mem s)) (\<lambda>(r, K).
                     let s = setmem K s
                     in if r < 0 then exec_bad pgdir None s
                        else
                          let oldpgdir = p_pgdir (procs s me);
                              s = setproc me ((procs s me)\<lparr>p_name := set_name (p_name (procs s me)) (cstr (last_elem path)),
                                    p_pgdir := pgdir, p_sz := sz\<rparr>) s;
                              s = tf_set me tf_eip entry s;
                              s = tf_set me tf_esp top s
                          in rbind (k_switchuvm c me me s) (\<lambda>s.
                             rbind (freevm (img_end (img s)) oldpgdir (f_mem s)) (\<lambda>K. Ok (0, setmem K s))))))))"

text \<open>A \<^verbatim>\<open>readi\<close> that fails returns -1, which is not below \<^verbatim>\<open>sizeof(elf)\<close> as an unsigned number: the header is then not initialised.\<close>

definition exec :: "'z kstate_ext fstate_ext devsw \<Rightarrow> nat \<Rightarrow> nat \<Rightarrow> byte list \<Rightarrow> byte list list \<Rightarrow> 'z call" where
  "exec devsw c me path argv s =
     rbind (begin_op s) (\<lambda>s.
     rbind (namei devsw (the (p_cwd (procs s me))) path s) (\<lambda>(ip, s).
     case ip of
       None \<Rightarrow> rbind (end_op s) (\<lambda>s. Ok (-1, s))
     | Some ip \<Rightarrow>
         rbind (ilock ip s) (\<lambda>s.
         rbind (readi devsw ip 0 ELFHDR_SIZE s) (\<lambda>(r, bs, s).
         if r < 0 then Undef
         else if r < int ELFHDR_SIZE then exec_bad 0 (Some ip) s
         else
           let elf = decode_elf bs
           in if e_magic elf \<noteq> ELF_MAGIC then exec_bad 0 (Some ip) s
              else
                rbind (setupkvm (k_pdpt (kvm s)) (f_mem s)) (\<lambda>(pgdir, K).
                let s = setmem K s
                in if pgdir = 0 then exec_bad 0 (Some ip) s
                   else
                     rbind (exec_load devsw ip pgdir (e_phnum elf) (u32 (e_phoff elf)) 0 s) (\<lambda>(r, s).
                     case r of
                       None \<Rightarrow> exec_bad pgdir (Some ip) s
                     | Some sz \<Rightarrow>
                         rbind (iunlockput ip s) (\<lambda>s.
                         rbind (end_op s) (\<lambda>s.
                         exec_commit c me path argv (e_entry elf) pgdir sz s))))))))"

end
