(* ===== verification/Sysfile.thy ===== *)
theory Sysfile
  imports Exec
begin

text \<open>
  \<^verbatim>\<open>kernel/sysfile.c\<close>: the system calls on files, and the table of all system calls of \<^verbatim>\<open>kernel/syscall.c\<close>.  Each call fetches its
  arguments from the process \<open>me\<close> and is otherwise composed of the operations on files, inodes and directories.
\<close>

unbundle bit_operations_syntax

type_synonym 'z kdevsw = "'z kstate_ext fstate_ext devsw"

abbreviation cwd_of :: "nat \<Rightarrow> 'z kstate_scheme \<Rightarrow> nat" where
  "cwd_of me s \<equiv> the (p_cwd (procs s me))"

section \<open>File descriptors\<close>

text \<open>The descriptor and the file.\<close>

definition argfd :: "nat \<Rightarrow> nat \<Rightarrow> 'z kstate_scheme \<Rightarrow> (nat \<times> nat) option" where
  "argfd me n s =
     (let fd = argint me n s
      in if fd < 0 \<or> fd \<ge> int NOFILE then None
         else case p_ofile (procs s me) ! nat fd of None \<Rightarrow> None | Some f \<Rightarrow> Some (nat fd, f))"

definition fdalloc :: "nat \<Rightarrow> nat \<Rightarrow> 'z kstate_scheme \<Rightarrow> int \<times> 'z kstate_scheme" where
  "fdalloc me f s =
     (case List.find (\<lambda>fd. p_ofile (procs s me) ! fd = None) [0..<NOFILE] of
        None \<Rightarrow> (-1, s)
      | Some fd \<Rightarrow> (int fd, setproc me ((procs s me)\<lparr>p_ofile := (p_ofile (procs s me))[fd := Some f]\<rparr>) s))"

definition clear_fd :: "nat \<Rightarrow> nat \<Rightarrow> 'z kstate_scheme \<Rightarrow> 'z kstate_scheme" where
  "clear_fd me fd s = setproc me ((procs s me)\<lparr>p_ofile := (p_ofile (procs s me))[fd := None]\<rparr>) s"

definition sys_dup :: "nat \<Rightarrow> 'z call" where
  "sys_dup me s =
     (case argfd me 0 s of
        None \<Rightarrow> Ok (-1, s)
      | Some (_, f) \<Rightarrow>
          let (fd, s) = fdalloc me f s in if fd < 0 then Ok (-1, s) else rbind (filedup f s) (\<lambda>s. Ok (fd, s)))"

text \<open>The bytes go to the memory of the process.\<close>

definition sys_read :: "'z kdevsw \<Rightarrow> nat \<Rightarrow> 'z call" where
  "sys_read devsw me s =
     (case argfd me 0 s of
        None \<Rightarrow> Ok (-1, s)
      | Some (_, f) \<Rightarrow>
          let n = argint me 2 s
          in case argptr me 1 n s of
               None \<Rightarrow> Ok (-1, s)
             | Some p \<Rightarrow>
                 rbind (fileread devsw (p_killed (procs s me)) f n s) (\<lambda>(r, bs, s).
                 rbind (user_store me p bs s) (\<lambda>s. Ok (r, s))))"

definition sys_write :: "'z kdevsw \<Rightarrow> nat \<Rightarrow> 'z call" where
  "sys_write devsw me s =
     (case argfd me 0 s of
        None \<Rightarrow> Ok (-1, s)
      | Some (_, f) \<Rightarrow>
          let n = argint me 2 s
          in case argptr me 1 n s of
               None \<Rightarrow> Ok (-1, s)
             | Some p \<Rightarrow>
                 if \<not> f_writable (files s f) then Ok (-1, s)
                 else
                   rbind (user_bytes me p (nat n) s) (\<lambda>bs.
                   rbind (filewrite devsw (p_killed (procs s me)) f bs n s) (\<lambda>(r, s).
                   case r of Returned r \<Rightarrow> Ok (r, s) | Slept _ \<Rightarrow> Sleeps)))"

definition sys_close :: "nat \<Rightarrow> 'z call" where
  "sys_close me s =
     (case argfd me 0 s of
        None \<Rightarrow> Ok (-1, s)
      | Some (fd, f) \<Rightarrow> rbind (fileclose (img_end (img s)) f (clear_fd me fd s)) (\<lambda>s. Ok (0, s)))"

text \<open>\<^verbatim>\<open>struct stat\<close>: the offsets and sizes of its fields; the padding between them is not written.\<close>

definition STAT_SIZE :: nat where "STAT_SIZE = 28"

definition store_stat :: "nat \<Rightarrow> nat \<Rightarrow> stat \<Rightarrow> 'z kstate_scheme \<Rightarrow> 'z kstate_scheme res" where
  "store_stat me p st s =
     for_each (\<lambda>(off, bs). user_store me (p + off) bs)
       [(0, le_bytes 2 (nat (st_type st mod 2 ^ 16))), (4, le_bytes 4 (st_dev st)), (8, le_bytes 4 (st_ino st)),
        (12, le_bytes 2 (nat (st_nlink st mod 2 ^ 16))), (14, le_bytes 2 (nat (st_ownerid st mod 2 ^ 16))),
        (16, le_bytes 2 (nat (st_groupid st mod 2 ^ 16))), (20, le_bytes 4 (st_mode st)), (24, le_bytes 4 (st_size st))] s"

definition sys_fstat :: "nat \<Rightarrow> 'z call" where
  "sys_fstat me s =
     (case argfd me 0 s of
        None \<Rightarrow> Ok (-1, s)
      | Some (_, f) \<Rightarrow>
          (case argptr me 1 (int STAT_SIZE) s of
             None \<Rightarrow> Ok (-1, s)
           | Some p \<Rightarrow>
               rbind (filestat f s) (\<lambda>(r, st, s).
               case st of None \<Rightarrow> Ok (r, s) | Some st \<Rightarrow> rbind (store_stat me p st s) (\<lambda>s. Ok (r, s)))))"

section \<open>Links\<close>

text \<open>\<^verbatim>\<open>end_op\<close> before a return.\<close>

definition op_return :: "int \<Rightarrow> 'z call" where
  "op_return r s = rbind (end_op s) (\<lambda>s. Ok (r, s))"

definition set_nlink :: "nat \<Rightarrow> int \<Rightarrow> 'z kstate_scheme \<Rightarrow> 'z kstate_scheme" where
  "set_nlink ip n s = setinode ip ((inodes s ip)\<lparr>i_nlink := s16 (nat (n mod 2 ^ 16))\<rparr>) s"

definition sys_link_bad :: "nat \<Rightarrow> 'z call" where
  "sys_link_bad ip s =
     rbind (ilock ip s) (\<lambda>s.
     rbind (iupdate ip (set_nlink ip (i_nlink (inodes s ip) - 1) s)) (\<lambda>s.
     rbind (iunlockput ip s) (op_return (-1))))"

definition link_paths :: "'z kdevsw \<Rightarrow> nat \<Rightarrow> byte list \<Rightarrow> byte list \<Rightarrow> 'z call" where
  "link_paths devsw me old new s =
     rbind (begin_op s) (\<lambda>s.
     rbind (namei devsw (cwd_of me s) old s) (\<lambda>(ip, s).
     case ip of
       None \<Rightarrow> op_return (-1) s
     | Some ip \<Rightarrow>
         rbind (ilock ip s) (\<lambda>s.
         if i_type (inodes s ip) = T_DIR then rbind (iunlockput ip s) (op_return (-1))
         else
           rbind (iupdate ip (set_nlink ip (i_nlink (inodes s ip) + 1) s)) (\<lambda>s.
           rbind (iunlock ip s) (\<lambda>s.
           rbind (nameiparent devsw (cwd_of me s) new (replicate DIRSIZ 0) s) (\<lambda>(dp, name, s).
           case dp of
             None \<Rightarrow> sys_link_bad ip s
           | Some dp \<Rightarrow>
               rbind (ilock dp s) (\<lambda>s.
               if i_dev (inodes s dp) \<noteq> i_dev (inodes s ip) then rbind (iunlockput dp s) (sys_link_bad ip)
               else
                 rbind (dirlink devsw dp (cstr name) (i_inum (inodes s ip)) s) (\<lambda>(r, s).
                 if r < 0 then rbind (iunlockput dp s) (sys_link_bad ip)
                 else rbind (iunlockput dp s) (\<lambda>s. rbind (iput ip s) (op_return 0))))))))))"

definition sys_link :: "'z kdevsw \<Rightarrow> nat \<Rightarrow> 'z call" where
  "sys_link devsw me s =
     rbind (argstr me 0 s) (\<lambda>old. case old of None \<Rightarrow> Ok (-1, s) | Some old \<Rightarrow>
     rbind (argstr me 1 s) (\<lambda>new. case new of None \<Rightarrow> Ok (-1, s) | Some new \<Rightarrow>
     link_paths devsw me old new s))"

fun isdirempty_loop :: "'z kdevsw \<Rightarrow> nat \<Rightarrow> nat list \<Rightarrow> 'z kstate_scheme \<Rightarrow> (bool \<times> 'z kstate_scheme) res" where
  "isdirempty_loop devsw dp [] s = Ok (True, s)"
| "isdirempty_loop devsw dp (off # offs) s =
     rbind (readi devsw dp off DIRENT_SIZE s) (\<lambda>(r, de, s).
     if r \<noteq> int DIRENT_SIZE then Panic ''isdirempty: readi''
     else if dirent_inum de \<noteq> 0 then Ok (False, s)
     else isdirempty_loop devsw dp offs s)"

definition isdirempty :: "'z kdevsw \<Rightarrow> nat \<Rightarrow> 'z kstate_scheme \<Rightarrow> (bool \<times> 'z kstate_scheme) res" where
  "isdirempty devsw dp s = isdirempty_loop devsw dp (drop 2 (dir_offsets (i_size (inodes s dp)))) s"

text \<open>\<^verbatim>\<open>sys_unlink\<close> from the point where the entry is found.\<close>

definition unlink_entry :: "'z kdevsw \<Rightarrow> nat \<Rightarrow> nat \<Rightarrow> nat \<Rightarrow> 'z call" where
  "unlink_entry devsw dp ip off s =
     rbind (ilock ip s) (\<lambda>s.
     if i_nlink (inodes s ip) < 1 then Panic ''unlink: nlink < 1''
     else
       rbind (if i_type (inodes s ip) = T_DIR then isdirempty devsw ip s else Ok (True, s)) (\<lambda>(empty, s).
       if i_type (inodes s ip) = T_DIR \<and> \<not> empty
       then rbind (iunlockput ip s) (\<lambda>s. rbind (iunlockput dp s) (op_return (-1)))
       else
         rbind (writei devsw dp (replicate DIRENT_SIZE 0) off s) (\<lambda>(r, s).
         if r \<noteq> int DIRENT_SIZE then Panic ''unlink: writei''
         else
           rbind (if i_type (inodes s ip) = T_DIR then iupdate dp (set_nlink dp (i_nlink (inodes s dp) - 1) s) else Ok s) (\<lambda>s.
           rbind (iunlockput dp s) (\<lambda>s.
           rbind (iupdate ip (set_nlink ip (i_nlink (inodes s ip) - 1) s)) (\<lambda>s.
           rbind (iunlockput ip s) (op_return 0)))))))"

definition unlink_path :: "'z kdevsw \<Rightarrow> nat \<Rightarrow> byte list \<Rightarrow> 'z call" where
  "unlink_path devsw me path s =
     rbind (begin_op s) (\<lambda>s.
     rbind (nameiparent devsw (cwd_of me s) path (replicate DIRSIZ 0) s) (\<lambda>(dp, name, s).
     case dp of
       None \<Rightarrow> op_return (-1) s
     | Some dp \<Rightarrow>
         rbind (ilock dp s) (\<lambda>s.
         if namecmp (cstr name) (cstr (str ''.'')) = 0 \<or> namecmp (cstr name) (cstr (str ''..'')) = 0
         then rbind (iunlockput dp s) (op_return (-1))
         else
           rbind (dirlookup devsw dp (cstr name) s) (\<lambda>(r, s).
           case r of
             None \<Rightarrow> rbind (iunlockput dp s) (op_return (-1))
           | Some (ip, off) \<Rightarrow> unlink_entry devsw dp ip off s))))"

definition sys_unlink :: "'z kdevsw \<Rightarrow> nat \<Rightarrow> 'z call" where
  "sys_unlink devsw me s =
     rbind (argstr me 0 s) (\<lambda>path. case path of None \<Rightarrow> Ok (-1, s) | Some path \<Rightarrow> unlink_path devsw me path s)"

section \<open>Creation and opening\<close>

text \<open>\<^verbatim>\<open>create\<close>: the inode, locked, or \<^const>\<open>None\<close>.\<close>

definition create :: "'z kdevsw \<Rightarrow> nat \<Rightarrow> byte list \<Rightarrow> int \<Rightarrow> int \<Rightarrow> int \<Rightarrow> 'z kstate_scheme \<Rightarrow> (nat option \<times> 'z kstate_scheme) res" where
  "create devsw me path type major minor s =
     rbind (nameiparent devsw (cwd_of me s) path (replicate DIRSIZ 0) s) (\<lambda>(dp, name, s).
     case dp of
       None \<Rightarrow> Ok (None, s)
     | Some dp \<Rightarrow>
         rbind (ilock dp s) (\<lambda>s.
         rbind (dirlookup devsw dp (cstr name) s) (\<lambda>(r, s).
         case r of
           Some (ip, _) \<Rightarrow>
             rbind (iunlockput dp s) (\<lambda>s.
             rbind (ilock ip s) (\<lambda>s.
             if type = T_FILE \<and> i_type (inodes s ip) = T_FILE then Ok (Some ip, s)
             else rbind (iunlockput ip s) (\<lambda>s. Ok (None, s))))
         | None \<Rightarrow>
             rbind (ialloc (i_dev (inodes s dp)) type s) (\<lambda>(ip, s).
             rbind (ilock ip s) (\<lambda>s.
             rbind (iupdate ip (setinode ip ((inodes s ip)\<lparr>i_major := major, i_minor := minor, i_nlink := 1\<rparr>) s)) (\<lambda>s.
             rbind (if type = T_DIR then
                      rbind (iupdate dp (set_nlink dp (i_nlink (inodes s dp) + 1) s)) (\<lambda>s.
                      rbind (dirlink devsw ip (cstr (str ''.'')) (i_inum (inodes s ip)) s) (\<lambda>(r, s).
                      if r < 0 then Panic ''create dots''
                      else rbind (dirlink devsw ip (cstr (str ''..'')) (i_inum (inodes s dp)) s) (\<lambda>(r, s).
                           if r < 0 then Panic ''create dots'' else Ok s)))
                    else Ok s) (\<lambda>s.
             rbind (dirlink devsw dp (cstr name) (i_inum (inodes s ip)) s) (\<lambda>(r, s).
             if r < 0 then Panic ''create: dirlink''
             else rbind (iunlockput dp s) (\<lambda>s. Ok (Some ip, s))))))))))"

definition O_WRONLY :: nat where "O_WRONLY = 0x001"
definition O_RDWR :: nat where "O_RDWR = 0x002"
definition O_CREATE :: nat where "O_CREATE = 0x200"

text \<open>\<^verbatim>\<open>sys_open\<close> once the inode is found and locked.\<close>

definition open_inode :: "nat \<Rightarrow> nat \<Rightarrow> nat \<Rightarrow> 'z call" where
  "open_inode me omode ip s =
     (case filealloc s of
        (None, s) \<Rightarrow> rbind (iunlockput ip s) (op_return (-1))
      | (Some f, s) \<Rightarrow>
          let (fd, s) = fdalloc me f s
          in if fd < 0 then
               rbind (fileclose (img_end (img s)) f s) (\<lambda>s. rbind (iunlockput ip s) (op_return (-1)))
             else
               rbind (iunlock ip s) (\<lambda>s.
               rbind (end_op s) (\<lambda>s.
               Ok (fd, setfile f ((files s f)\<lparr>f_type := FD_INODE, f_ip := ip, f_off := 0,
                     f_readable := (omode AND O_WRONLY = 0),
                     f_writable := (omode AND O_WRONLY \<noteq> 0 \<or> omode AND O_RDWR \<noteq> 0)\<rparr>) s))))"

definition open_path :: "'z kdevsw \<Rightarrow> nat \<Rightarrow> byte list \<Rightarrow> nat \<Rightarrow> 'z call" where
  "open_path devsw me path omode s =
     rbind (begin_op s) (\<lambda>s.
     if omode AND O_CREATE \<noteq> 0 then
       rbind (create devsw me path T_FILE 0 0 s) (\<lambda>(ip, s).
       case ip of None \<Rightarrow> op_return (-1) s | Some ip \<Rightarrow> open_inode me omode ip s)
     else
       rbind (namei devsw (cwd_of me s) path s) (\<lambda>(ip, s).
       case ip of
         None \<Rightarrow> op_return (-1) s
       | Some ip \<Rightarrow>
           rbind (ilock ip s) (\<lambda>s.
           if i_type (inodes s ip) = T_DIR \<and> omode \<noteq> 0 then rbind (iunlockput ip s) (op_return (-1))
           else open_inode me omode ip s)))"

definition sys_open :: "'z kdevsw \<Rightarrow> nat \<Rightarrow> 'z call" where
  "sys_open devsw me s =
     rbind (argstr me 0 s) (\<lambda>path. case path of
       None \<Rightarrow> Ok (-1, s)
     | Some path \<Rightarrow> open_path devsw me path (nat (argint me 1 s mod 2 ^ 32)) s)"

text \<open>\<^verbatim>\<open>sys_mkdir\<close> and \<^verbatim>\<open>sys_mknod\<close> fetch their arguments inside the transaction; \<^verbatim>\<open>major\<close> and \<^verbatim>\<open>minor\<close> become \<^verbatim>\<open>short\<close>.\<close>

definition sys_mkdir :: "'z kdevsw \<Rightarrow> nat \<Rightarrow> 'z call" where
  "sys_mkdir devsw me s =
     rbind (begin_op s) (\<lambda>s.
     rbind (argstr me 0 s) (\<lambda>path. case path of
       None \<Rightarrow> op_return (-1) s
     | Some path \<Rightarrow>
         rbind (create devsw me path T_DIR 0 0 s) (\<lambda>(ip, s).
         case ip of None \<Rightarrow> op_return (-1) s | Some ip \<Rightarrow> rbind (iunlockput ip s) (op_return 0))))"

definition sys_mknod :: "'z kdevsw \<Rightarrow> nat \<Rightarrow> 'z call" where
  "sys_mknod devsw me s =
     rbind (begin_op s) (\<lambda>s.
     rbind (argstr me 0 s) (\<lambda>path. case path of
       None \<Rightarrow> op_return (-1) s
     | Some path \<Rightarrow>
         let major = s16 (nat (argint me 1 s mod 2 ^ 16)); minor = s16 (nat (argint me 2 s mod 2 ^ 16))
         in rbind (create devsw me path T_DEV major minor s) (\<lambda>(ip, s).
            case ip of None \<Rightarrow> op_return (-1) s | Some ip \<Rightarrow> rbind (iunlockput ip s) (op_return 0))))"

definition sys_chdir :: "'z kdevsw \<Rightarrow> nat \<Rightarrow> 'z call" where
  "sys_chdir devsw me s =
     rbind (begin_op s) (\<lambda>s.
     rbind (argstr me 0 s) (\<lambda>path. case path of
       None \<Rightarrow> op_return (-1) s
     | Some path \<Rightarrow>
         rbind (namei devsw (cwd_of me s) path s) (\<lambda>(ip, s).
         case ip of
           None \<Rightarrow> op_return (-1) s
         | Some ip \<Rightarrow>
             rbind (ilock ip s) (\<lambda>s.
             if i_type (inodes s ip) \<noteq> T_DIR then rbind (iunlockput ip s) (op_return (-1))
             else
               rbind (iunlock ip s) (\<lambda>s.
               rbind (iput (cwd_of me s) s) (\<lambda>s.
               rbind (end_op s) (\<lambda>s.
               Ok (0, setproc me ((procs s me)\<lparr>p_cwd := Some ip\<rparr>) s))))))))"

section \<open>Exec, pipes and modes\<close>

text \<open>The loop that collects the arguments, \<open>n\<close> entries of \<^verbatim>\<open>argv\<close> being left; \<^const>\<open>None\<close> is a return of -1.\<close>

fun exec_argv :: "nat \<Rightarrow> nat \<Rightarrow> nat \<Rightarrow> 'z kstate_scheme \<Rightarrow> byte list list option res" where
  "exec_argv me 0 a s = Ok None"
| "exec_argv me (Suc n) a s =
     rbind (fetchuintp me (a mod 2 ^ 64) s) (\<lambda>uarg. case uarg of
       None \<Rightarrow> Ok None
     | Some uarg \<Rightarrow>
         if uarg = 0 then Ok (Some [])
         else
           rbind (fetchstr me uarg s) (\<lambda>arg. case arg of
             None \<Rightarrow> Ok None
           | Some arg \<Rightarrow> rbind (exec_argv me n (a + 8) s) (\<lambda>r. Ok (map_option ((#) arg) r))))"

definition sys_exec :: "'z kdevsw \<Rightarrow> nat \<Rightarrow> nat \<Rightarrow> 'z call" where
  "sys_exec devsw c me s =
     rbind (argstr me 0 s) (\<lambda>path. case path of
       None \<Rightarrow> Ok (-1, s)
     | Some path \<Rightarrow>
         rbind (exec_argv me MAXARG (arguintp me 1 s) s) (\<lambda>argv. case argv of
           None \<Rightarrow> Ok (-1, s)
         | Some argv \<Rightarrow> exec devsw c me path argv s))"

definition sys_pipe :: "nat \<Rightarrow> 'z call" where
  "sys_pipe me s =
     (case argptr me 0 8 s of
        None \<Rightarrow> Ok (-1, s)
      | Some fd \<Rightarrow>
          rbind (pipealloc (img_end (img s)) s) (\<lambda>(r, s).
          case r of
            None \<Rightarrow> Ok (-1, s)
          | Some (rfile, wfile) \<Rightarrow>
              let (fd0, s) = fdalloc me rfile s
              in if fd0 < 0 then
                   rbind (fileclose (img_end (img s)) rfile s) (\<lambda>s. rbind (fileclose (img_end (img s)) wfile s) (\<lambda>s. Ok (-1, s)))
                 else
                   let (fd1, s) = fdalloc me wfile s
                   in if fd1 < 0 then
                        rbind (fileclose (img_end (img s)) rfile (clear_fd me (nat fd0) s)) (\<lambda>s.
                        rbind (fileclose (img_end (img s)) wfile s) (\<lambda>s. Ok (-1, s)))
                      else
                        rbind (user_store me fd (le_bytes 4 (nat fd0)) s) (\<lambda>s.
                        rbind (user_store me (fd + 4) (le_bytes 4 (nat fd1)) s) (\<lambda>s. Ok (0, s)))))"

definition sys_chmod :: "'z kdevsw \<Rightarrow> nat \<Rightarrow> 'z call" where
  "sys_chmod devsw me s =
     rbind (argstr me 0 s) (\<lambda>path. case path of
       None \<Rightarrow> Ok (-1, s)
     | Some path \<Rightarrow>
         rbind (begin_op s) (\<lambda>s.
         rbind (namei devsw (cwd_of me s) path s) (\<lambda>(ip, s).
         case ip of
           None \<Rightarrow> op_return (-1) s
         | Some ip \<Rightarrow>
             rbind (ilock ip s) (\<lambda>s.
             rbind (iupdate ip (setinode ip ((inodes s ip)\<lparr>i_mode := nat (argint me 1 s mod 2 ^ 32)\<rparr>) s)) (\<lambda>s.
             rbind (iunlockput ip s) (op_return 0))))))"

section \<open>The table of system calls\<close>

text \<open>The call with a number, on processor \<open>c\<close>.\<close>

definition syscalls :: "'z kdevsw \<Rightarrow> nat \<Rightarrow> nat \<Rightarrow> (nat \<times> 'z call) list" where
  "syscalls devsw c me =
     [(1, sys_fork me), (2, sys_exit me), (3, sys_wait me), (4, sys_pipe me), (5, sys_read devsw me), (6, sys_kill me),
      (7, sys_exec devsw c me), (8, sys_fstat me), (9, sys_chdir devsw me), (10, sys_dup me), (11, sys_getpid me),
      (12, sys_sbrk c me), (13, sys_sleep me), (14, sys_uptime me), (15, sys_open devsw me), (16, sys_write devsw me),
      (17, sys_mknod devsw me), (18, sys_unlink devsw me), (19, sys_link devsw me), (20, sys_mkdir devsw me),
      (21, sys_close me), (22, sys_chmod devsw me)]"

text \<open>
  \<^verbatim>\<open>syscall\<close>; the message about an unknown call is not part of the state.  After \<^verbatim>\<open>exit\<close> the process is a zombie and does not come
  back to set its result.
\<close>

definition syscall :: "'z kdevsw \<Rightarrow> nat \<Rightarrow> nat \<Rightarrow> 'z kstate_scheme \<Rightarrow> 'z kstate_scheme res" where
  "syscall devsw c me s =
     (let num = s32 (u32 (tf_get me tf_eax s))
      in case (if num > 0 then map_of (syscalls devsw c me) (nat num) else None) of
           Some f \<Rightarrow> rbind (f s) (\<lambda>(r, s).
             Ok (if p_state (procs s me) = ZOMBIE then s else tf_set me tf_eax (nat (r mod 2 ^ 64)) s))
         | None \<Rightarrow> Ok (tf_set me tf_eax (2 ^ 64 - 1) s))"

end
