(* ===== verification/Console.thy ===== *)
theory Console
  imports Sysfile
begin

text \<open>
  Console input: \<^verbatim>\<open>consoleintr\<close>, \<^verbatim>\<open>consoleread\<close> and \<^verbatim>\<open>consolewrite\<close> of \<^verbatim>\<open>kernel/console.c\<close> and the keyboard of \<^verbatim>\<open>kernel/kbd.c\<close>.  The input buffer
  is a ring of 128 characters with three counters: read, write (what readers may see) and edit.
\<close>

section \<open>State\<close>

definition INPUT_BUF :: nat where "INPUT_BUF = 128"

record input =
  in_buf :: "byte list"
  in_r :: "32 word"
  in_w :: "32 word"
  in_e :: "32 word"

record cstate = kstate +
  con :: cons
  inp :: input
  shift :: nat

definition Chan_input :: chan where "Chan_input = Chan_addr 0"

section \<open>Line editing\<close>

text \<open>The loop for control-U: the erased characters are echoed as backspaces.\<close>

function kill_line :: "input \<Rightarrow> input \<times> nat list" where
  "kill_line i =
     (if in_e i \<noteq> in_w i \<and> in_buf i ! (unat (in_e i - 1) mod INPUT_BUF) \<noteq> 10 then
        let (j, out) = kill_line (i\<lparr>in_e := in_e i - 1\<rparr>) in (j, BACKSPACE # out)
      else (i, []))"
  by pat_completeness auto
termination
proof (relation "measure (\<lambda>i. unat (in_e i - in_w i))")
  fix i :: input
  assume "in_e i \<noteq> in_w i \<and> in_buf i ! (unat (in_e i - 1) mod INPUT_BUF) \<noteq> 10"
  then have "in_e i - in_w i \<noteq> 0" by simp
  then have "unat (in_e i - in_w i - 1) < unat (in_e i - in_w i)" by (simp add: unat_minus_one unat_gt_0)
  moreover have "in_e i - 1 - in_w i = in_e i - in_w i - 1" by simp
  ultimately have "unat (in_e i - 1 - in_w i) < unat (in_e i - in_w i)" by metis
  then show "(i\<lparr>in_e := in_e i - 1\<rparr>, i) \<in> measure (\<lambda>i. unat (in_e i - in_w i))" by simp
qed simp

declare kill_line.simps [simp del]

text \<open>
  One character of \<^verbatim>\<open>consoleintr\<close> other than control-P and control-Z, which \<open>consoleintr_char\<close> handles: the buffer, what is echoed,
  and whether readers are woken.
\<close>

definition input_char :: "nat \<Rightarrow> input \<Rightarrow> input \<times> nat list \<times> bool" where
  "input_char c i =
     (if c = 21 then let (j, out) = kill_line i in (j, out, False)
      else if c = 8 \<or> c = 127 then
        if in_e i \<noteq> in_w i then (i\<lparr>in_e := in_e i - 1\<rparr>, [BACKSPACE], False) else (i, [], False)
      else if c \<noteq> 0 \<and> unat (in_e i - in_r i) < INPUT_BUF then
        let c = (if c = 13 then 10 else c);
            i = i\<lparr>in_buf := (in_buf i)[unat (in_e i) mod INPUT_BUF := of_nat c], in_e := in_e i + 1\<rparr>
        in if c = 10 \<or> c = 4 \<or> in_e i = in_r i + of_nat INPUT_BUF then (i\<lparr>in_w := in_e i\<rparr>, [c], True)
           else (i, [c], False)
      else (i, [], False))"

text \<open>Control-Z loads an empty interrupt table, which is not part of the state; control-P lists the processes.\<close>

definition consoleintr_char :: "nat \<Rightarrow> 'z cstate_scheme \<Rightarrow> 'z cstate_scheme res" where
  "consoleintr_char c s =
     (if c = 26 then Ok s
      else if c = 16 then
        rbind (procdump s) (\<lambda>out. rbind (consputs out (con s)) (\<lambda>x. Ok (s\<lparr>con := x\<rparr>)))
      else
        let (i, out, woken) = input_char c (inp s)
        in rbind (for_each consputc out (con s)) (\<lambda>x.
           let s = s\<lparr>con := x, inp := i\<rparr> in Ok (if woken then wakeup Chan_input s else s)))"

text \<open>\<^verbatim>\<open>consoleintr\<close> on the characters that \<^verbatim>\<open>getc\<close> gives before it returns a negative number.\<close>

definition consoleintr :: "nat list \<Rightarrow> 'z cstate_scheme \<Rightarrow> 'z cstate_scheme res" where
  "consoleintr cs s = for_each consoleintr_char cs s"

section \<open>Reading and writing\<close>

text \<open>
  The loop of \<^verbatim>\<open>consoleread\<close>, with \<open>n\<close> bytes left; \<open>got\<close> is \<^verbatim>\<open>n < target\<close>.  The result is what was read, and whether the loop has to
  sleep.
\<close>

fun consoleread_loop :: "nat \<Rightarrow> bool \<Rightarrow> input \<Rightarrow> byte list \<times> bool \<times> input" where
  "consoleread_loop 0 got i = ([], False, i)"
| "consoleread_loop (Suc n) got i =
     (if in_r i = in_w i then ([], True, i)
      else
        let c = in_buf i ! (unat (in_r i) mod INPUT_BUF); j = i\<lparr>in_r := in_r i + 1\<rparr>
        in if c = 4 then ([], False, if got then i else j)
           else if c = 10 then ([c], False, j)
           else let (cs, w, k) = consoleread_loop n True j in (c # cs, w, k))"

text \<open>
  \<^verbatim>\<open>consoleread\<close>: the result and the bytes stored.  \<^const>\<open>None\<close> is a call that sleeps, with the bytes it has stored and the state at
  the sleep, in which the characters it has taken are gone and the inode is unlocked.
\<close>

definition consoleread :: "(nat \<Rightarrow> bool) \<Rightarrow> nat \<Rightarrow> nat \<Rightarrow> nat \<Rightarrow> 'z cstate_scheme \<Rightarrow> (int option \<times> byte list \<times> 'z cstate_scheme) res" where
  "consoleread killed me ip n s =
     rbind (iunlock ip s) (\<lambda>s.
     let n = (if n < 2 ^ 31 then n else 0); (cs, w, i) = consoleread_loop n False (inp s)
     in if w then
          if killed me then rbind (ilock ip (s\<lparr>inp := i\<rparr>)) (\<lambda>s. Ok (Some (-1), cs, s))
          else Ok (None, cs, sleep Chan_input me (s\<lparr>inp := i\<rparr>))
        else rbind (ilock ip (s\<lparr>inp := i\<rparr>)) (\<lambda>s. Ok (Some (int (length cs)), cs, s)))"

definition consolewrite :: "nat \<Rightarrow> byte list \<Rightarrow> 'z cstate_scheme \<Rightarrow> (int \<times> 'z cstate_scheme) res" where
  "consolewrite ip buf s =
     rbind (iunlock ip s) (\<lambda>s.
     rbind (consputs buf (con s)) (\<lambda>x.
     rbind (ilock ip (s\<lparr>con := x\<rparr>)) (\<lambda>s.
     Ok (int (length buf), s))))"

text \<open>The entry of the console in \<^verbatim>\<open>devsw\<close>, set by \<^verbatim>\<open>consoleinit\<close>, for the process that runs.\<close>

definition CONSOLE :: nat where "CONSOLE = 1"

definition consoleinit :: "nat \<Rightarrow> 'z cstate_ext kdevsw \<Rightarrow> 'z cstate_ext kdevsw" where
  "consoleinit me d =
     d(CONSOLE :=
        (Some (\<lambda>ip n s. rbind (consoleread (\<lambda>p. p_killed (procs s p)) me ip n s) (\<lambda>(r, cs, s).
                 case r of Some r \<Rightarrow> Ok (r, cs, s) | None \<Rightarrow> Sleeps)),
         Some consolewrite))"

section \<open>The keyboard\<close>

definition SHIFT :: nat where "SHIFT = 1"
definition CTL :: nat where "CTL = 2"
definition ALT :: nat where "ALT = 4"
definition CAPSLOCK :: nat where "CAPSLOCK = 8"
definition NUMLOCK :: nat where "NUMLOCK = 16"
definition SCROLLLOCK :: nat where "SCROLLLOCK = 32"
definition E0ESC :: nat where "E0ESC = 64"

text \<open>The tables; an entry that is not given is \<^verbatim>\<open>NO\<close>, that is 0.\<close>

definition table_of :: "nat list \<Rightarrow> (nat \<times> nat) list \<Rightarrow> nat \<Rightarrow> nat" where
  "table_of xs ys i = (if i < length xs then xs ! i else case map_of ys i of Some c \<Rightarrow> c | None \<Rightarrow> 0)"

definition shiftcode :: "nat \<Rightarrow> nat" where
  "shiftcode = table_of [] [(0x1D, CTL), (0x2A, SHIFT), (0x36, SHIFT), (0x38, ALT), (0x9D, CTL), (0xB8, ALT)]"

definition togglecode :: "nat \<Rightarrow> nat" where
  "togglecode = table_of [] [(0x3A, CAPSLOCK), (0x45, NUMLOCK), (0x46, SCROLLLOCK)]"

definition codes :: "string \<Rightarrow> nat list" where
  "codes cs = map of_char cs"

definition special_keys :: "(nat \<times> nat) list" where
  "special_keys = [(0xC8, 0xE2), (0xD0, 0xE3), (0xC9, 0xE6), (0xD1, 0xE7), (0xCB, 0xE4), (0xCD, 0xE5), (0x97, 0xE0), (0xCF, 0xE1),
     (0xD2, 0xE8), (0xD3, 0xE9)]"

definition keypad :: "nat list" where
  "keypad = replicate 13 0 @ codes ''789-456+1230.''"

definition normalmap :: "nat \<Rightarrow> nat" where
  "normalmap = table_of
     ([0, 0x1B] @ codes ''1234567890-='' @ [8, 9] @ codes ''qwertyuiop[]'' @ [10, 0] @ codes ''asdfghjkl;'' @ [39] @ codes ''`'' @ [0, 92]
      @ codes ''zxcvbnm,./'' @ [0] @ codes ''*'' @ [0] @ codes '' '' @ keypad)
     ((0x9C, 10) # (0xB5, 47) # special_keys)"

definition shiftmap :: "nat \<Rightarrow> nat" where
  "shiftmap = table_of
     ([0, 27] @ codes ''!@#$%^&*()_+'' @ [8, 9] @ codes ''QWERTYUIOP{}'' @ [10, 0] @ codes ''ASDFGHJKL:'' @ [34] @ codes ''~'' @ [0, 124]
      @ codes ''ZXCVBNM<>?'' @ [0] @ codes ''*'' @ [0] @ codes '' '' @ keypad)
     ((0x9C, 10) # (0xB5, 47) # special_keys)"

text \<open>\<^verbatim>\<open>C(x)\<close>, as an unsigned character.\<close>

definition ctl :: "string \<Rightarrow> nat list" where
  "ctl cs = map (\<lambda>c. (of_char c + 256 - 64) mod 256) cs"

definition ctlmap :: "nat \<Rightarrow> nat" where
  "ctlmap = table_of
     (replicate 16 0 @ ctl ''QWERTYUIOP'' @ [0, 0, 13, 0] @ ctl ''ASDFGHJKL'' @ [0, 0, 0, 0, 28] @ ctl ''ZXCVBNM'' @ [0, 0] @ ctl ''/'' @ [0, 0])
     ((0x9C, 13) # (0xB5, (47 + 256 - 64) mod 256) # special_keys)"

text \<open>\<^verbatim>\<open>kbdgetc\<close> for a byte of data: the character and the new \<^verbatim>\<open>shift\<close>.\<close>

definition clear_bits :: "nat \<Rightarrow> nat \<Rightarrow> nat" where
  "clear_bits x m = x - (x AND m)"

definition kbdgetc :: "nat \<Rightarrow> nat \<Rightarrow> nat \<times> nat" where
  "kbdgetc sh d =
     (if d = 0xE0 then (0, sh OR E0ESC)
      else if d AND 0x80 \<noteq> 0 then
        let d = (if sh AND E0ESC \<noteq> 0 then d else d AND 0x7F) in (0, clear_bits sh (shiftcode d OR E0ESC))
      else
        let (d, sh) = (if sh AND E0ESC \<noteq> 0 then (d OR 0x80, clear_bits sh E0ESC) else (d, sh));
            sh = sh OR shiftcode d; sh = sh XOR togglecode d;
            c = (if sh AND CTL \<noteq> 0 then ctlmap d else if sh AND SHIFT \<noteq> 0 then shiftmap d else normalmap d);
            c = (if sh AND CAPSLOCK \<noteq> 0 then
                   if 97 \<le> c \<and> c \<le> 122 then c - 32 else if 65 \<le> c \<and> c \<le> 90 then c + 32 else c
                 else c)
        in (c, sh))"

text \<open>\<^verbatim>\<open>kbdintr\<close> on the bytes that are waiting.\<close>

fun kbd_chars :: "nat \<Rightarrow> nat list \<Rightarrow> nat list \<times> nat" where
  "kbd_chars sh [] = ([], sh)"
| "kbd_chars sh (d # ds) = (let (c, sh) = kbdgetc sh d; (cs, sh) = kbd_chars sh ds in (c # cs, sh))"

definition kbdintr :: "nat list \<Rightarrow> 'z cstate_scheme \<Rightarrow> 'z cstate_scheme res" where
  "kbdintr ds s = (let (cs, sh) = kbd_chars (shift s) ds in consoleintr cs (s\<lparr>shift := sh\<rparr>))"

definition uartintr :: "nat list \<Rightarrow> 'z cstate_scheme \<Rightarrow> 'z cstate_scheme res" where
  "uartintr ds s = (if uart (con s) then consoleintr ds s else Ok s)"


section \<open>The input buffer as lines\<close>

interpretation cr: ring INPUT_BUF
  by unfold_locales (simp_all add: INPUT_BUF_def)

text \<open>All characters in the buffer; those that readers may see; the line that is being edited.\<close>

definition in_all :: "input \<Rightarrow> byte list" where
  "in_all i = ring_contents INPUT_BUF (in_buf i) (in_r i) (in_e i)"

definition in_ready :: "input \<Rightarrow> byte list" where
  "in_ready i = take (unat (in_w i - in_r i)) (in_all i)"

definition in_line :: "input \<Rightarrow> byte list" where
  "in_line i = drop (unat (in_w i - in_r i)) (in_all i)"

definition input_ok :: "input \<Rightarrow> bool" where
  "input_ok i \<longleftrightarrow> length (in_buf i) = INPUT_BUF \<and> unat (in_w i - in_r i) \<le> unat (in_e i - in_r i)
     \<and> unat (in_e i - in_r i) \<le> INPUT_BUF \<and> 10 \<notin> set (in_line i)"

text \<open>What a typed character does to the finished lines and the line that is being edited.\<close>

definition line_char :: "nat \<Rightarrow> byte list \<times> byte list \<Rightarrow> byte list \<times> byte list" where
  "line_char c = (\<lambda>(q, l).
     if c = 21 then (q, [])
     else if c = 8 \<or> c = 127 then (q, butlast l)
     else if c \<noteq> 0 \<and> length q + length l < INPUT_BUF then
       let b = (if c = 13 then 10 else of_nat c); l = l @ [b]
       in if b = 10 \<or> b = 4 \<or> length q + length l = INPUT_BUF then (q @ l, []) else (q, l)
     else (q, l))"

lemma length_in_all [simp]: "length (in_all i) = unat (in_e i - in_r i)"
  by (simp add: in_all_def)

lemma in_ready_line: "in_ready i @ in_line i = in_all i"
  by (simp add: in_ready_def in_line_def)

lemma edit_empty:
  assumes "input_ok i"
  shows "in_e i = in_w i \<longleftrightarrow> in_line i = []"
proof -
  have "in_line i = [] \<longleftrightarrow> unat (in_e i - in_r i) = unat (in_w i - in_r i)"
    using assms by (auto simp: in_line_def input_ok_def)
  also have "\<dots> \<longleftrightarrow> in_e i - in_r i = in_w i - in_r i" by (simp add: word_unat_eq_iff)
  finally show ?thesis by auto
qed

lemma ring_butlast:
  assumes "r \<noteq> e"
  shows "ring_contents N buf r (e - 1) = butlast (ring_contents N buf r e)" "buf ! (unat (e - 1) mod N) = last (ring_contents N buf r e)"
proof -
  have "e - r \<noteq> 0" using assms by simp
  then have "unat (e - r - 1) = unat (e - r) - 1" "0 < unat (e - r)" by (simp_all add: unat_minus_one unat_gt_0)
  moreover have "e - 1 - r = e - r - 1" by simp
  ultimately obtain n where n: "unat (e - r) = Suc n" "unat (e - 1 - r) = n" by (metis Suc_pred' diff_Suc_1)
  then show "ring_contents N buf r (e - 1) = butlast (ring_contents N buf r e)" by (simp add: ring_contents_def)
  have "r + of_nat n = e - 1" by (simp flip: n(2))
  then show "buf ! (unat (e - 1) mod N) = last (ring_contents N buf r e)" by (simp add: ring_contents_def n(1))
qed

text \<open>Erasing the last character.\<close>

lemma input_erase:
  assumes ok: "input_ok i" and ne: "in_e i \<noteq> in_w i"
  shows "input_ok (i\<lparr>in_e := in_e i - 1\<rparr>)" "in_ready (i\<lparr>in_e := in_e i - 1\<rparr>) = in_ready i"
    "in_line (i\<lparr>in_e := in_e i - 1\<rparr>) = butlast (in_line i)" "in_buf i ! (unat (in_e i - 1) mod INPUT_BUF) = last (in_line i)"
proof -
  let ?j = "i\<lparr>in_e := in_e i - 1\<rparr>" and ?k = "unat (in_w i - in_r i)"
  have l: "in_line i \<noteq> []" using edit_empty [OF ok] ne by simp
  then have re: "in_r i \<noteq> in_e i" by (auto simp: in_line_def in_all_def ring_contents_def)
  have all: "in_all ?j = butlast (in_all i)" using ring_butlast(1) [OF re] by (simp add: in_all_def)
  have len: "?k < length (in_all i)" using l by (simp add: in_line_def)
  have la: "last (in_all i) = last (in_line i)" using len by (simp add: in_line_def)
  show "in_buf i ! (unat (in_e i - 1) mod INPUT_BUF) = last (in_line i)"
    using ring_butlast(2) [OF re, where N = INPUT_BUF and buf = "in_buf i"] la by (simp add: in_all_def)
  show r: "in_ready ?j = in_ready i" using len by (simp add: in_ready_def all take_butlast)
  show li: "in_line ?j = butlast (in_line i)" using len by (simp add: in_line_def all drop_butlast)
  have "length (in_all ?j) = length (in_all i) - 1" by (simp add: all del: length_in_all)
  then have "unat (in_e ?j - in_r i) = unat (in_e i - in_r i) - 1" by simp
  moreover have "10 \<notin> set (in_line ?j)" using ok li by (auto simp: input_ok_def dest: in_set_butlastD)
  ultimately show "input_ok ?j" using ok len by (auto simp: input_ok_def)
qed

lemma kill_line_ok:
  "input_ok i \<Longrightarrow> input_ok (fst (kill_line i)) \<and> in_ready (fst (kill_line i)) = in_ready i \<and> in_line (fst (kill_line i)) = []"
proof (induction i rule: kill_line.induct)
  case (1 i)
  show ?case
  proof (cases "in_e i = in_w i")
    case True
    then show ?thesis using 1 edit_empty [of i] by (simp add: kill_line.simps)
  next
    case False
    have "last (in_line i) \<noteq> 10"
      using 1 edit_empty [of i] False by (metis input_ok_def last_in_set)
    then have c: "in_e i \<noteq> in_w i \<and> in_buf i ! (unat (in_e i - 1) mod INPUT_BUF) \<noteq> 10"
      using input_erase(4) [OF 1(2) False] False by simp
    have "fst (kill_line i) = fst (kill_line (i\<lparr>in_e := in_e i - 1\<rparr>))"
      using c by (subst kill_line.simps) (simp add: case_prod_unfold Let_def)
    then show ?thesis using 1(1) [OF c] input_erase(1,2) [OF 1(2) False] by simp
  qed
qed

lemma input_put:
  fixes b :: byte
  assumes ok: "input_ok i" and room: "unat (in_e i - in_r i) < INPUT_BUF"
  defines "j \<equiv> i\<lparr>in_buf := (in_buf i)[unat (in_e i) mod INPUT_BUF := b], in_e := in_e i + 1\<rparr>"
  shows "in_all j = in_all i @ [b]" "in_ready j = in_ready i" "in_line j = in_line i @ [b]"
    "unat (in_e j - in_r j) = Suc (unat (in_e i - in_r i))"
proof -
  show a: "in_all j = in_all i @ [b]"
    using cr.put [OF room, of "in_buf i" b] ok by (simp add: in_all_def j_def input_ok_def)
  show "unat (in_e j - in_r j) = Suc (unat (in_e i - in_r i))"
    using cr.unat_succ [OF room] by (simp add: j_def)
  have "in_w j = in_w i" "in_r j = in_r i" by (simp_all add: j_def)
  then show "in_ready j = in_ready i" "in_line j = in_line i @ [b]"
    using ok by (simp_all add: in_ready_def in_line_def a input_ok_def)
qed

lemma input_commit:
  assumes "length (in_buf i) = INPUT_BUF" and "unat (in_e i - in_r i) \<le> INPUT_BUF"
  shows "input_ok (i\<lparr>in_w := in_e i\<rparr>)" "in_ready (i\<lparr>in_w := in_e i\<rparr>) = in_all i" "in_line (i\<lparr>in_w := in_e i\<rparr>) = []"
proof -
  have a: "in_all (i\<lparr>in_w := in_e i\<rparr>) = in_all i" by (simp add: in_all_def)
  show "in_ready (i\<lparr>in_w := in_e i\<rparr>) = in_all i" "in_line (i\<lparr>in_w := in_e i\<rparr>) = []" by (simp_all add: in_ready_def in_line_def a)
  then show "input_ok (i\<lparr>in_w := in_e i\<rparr>)" using assms by (simp add: input_ok_def)
qed


lemma input_full: "in_e i = in_r i + of_nat INPUT_BUF \<longleftrightarrow> unat (in_e i - in_r i) = INPUT_BUF"
proof -
  have "in_e i = in_r i + of_nat INPUT_BUF \<longleftrightarrow> in_e i - in_r i = of_nat INPUT_BUF" by (auto simp: algebra_simps)
  also have "\<dots> \<longleftrightarrow> unat (in_e i - in_r i) = INPUT_BUF" by (auto simp: INPUT_BUF_def word_unat_eq_iff)
  finally show ?thesis .
qed

lemma byte_eq_iff: "c < 256 \<Longrightarrow> n < 256 \<Longrightarrow> (of_nat c :: byte) = of_nat n \<longleftrightarrow> c = n"
  by (simp add: word_unat_eq_iff unat_of_nat)

lemma input_length: "input_ok i \<Longrightarrow> length (in_ready i) + length (in_line i) = unat (in_e i - in_r i)"
  using arg_cong [OF in_ready_line [of i], of length] by simp

lemma input_char_default:
  assumes ok: "input_ok i" and c: "c < 256" "c \<noteq> 0" "c \<noteq> 21" "c \<noteq> 8" "c \<noteq> 127" and room: "unat (in_e i - in_r i) < INPUT_BUF"
    and r: "input_char c i = (j, out, woken)"
  shows "input_ok j \<and> (in_ready j, in_line j) = line_char c (in_ready i, in_line i) \<and> woken = (in_ready j \<noteq> in_ready i)"
proof -
  define d where "d = (if c = 13 then 10 else c)"
  define k where "k = i\<lparr>in_buf := (in_buf i)[unat (in_e i) mod INPUT_BUF := of_nat d], in_e := in_e i + 1\<rparr>"
  note p = input_put [OF ok room, of "of_nat d", folded k_def]
  have d: "d < 256" "(if c = 13 then 10 else of_nat c) = (of_nat d :: byte)" using c(1) by (auto simp: d_def)
  have b: "(of_nat d :: byte) = 10 \<longleftrightarrow> d = 10" "(of_nat d :: byte) = 4 \<longleftrightarrow> d = 4"
    using byte_eq_iff [OF d(1), of 10] byte_eq_iff [OF d(1), of 4] by simp_all
  let ?done = "d = 10 \<or> d = 4 \<or> unat (in_e k - in_r k) = INPUT_BUF"
  have r': "(j, out, woken) = (if ?done then (k\<lparr>in_w := in_e k\<rparr>, [d], True) else (k, [d], False))"
    using c room r unfolding input_full [symmetric] by (auto simp: input_char_def Let_def d_def [symmetric] k_def split: if_split_asm)
  have len: "length (in_ready i) + length (in_line i @ [of_nat d]) = unat (in_e k - in_r k)" using input_length [OF ok] p(4) by simp
  have lc: "line_char c (in_ready i, in_line i) = (if ?done then (in_ready i @ in_line i @ [of_nat d], []) else (in_ready i, in_line i @ [of_nat d]))"
    using c room input_length [OF ok] p(4) by (simp add: line_char_def Let_def d(2) b)
  have k: "length (in_buf k) = INPUT_BUF" "unat (in_e k - in_r k) \<le> INPUT_BUF" "unat (in_w k - in_r k) \<le> unat (in_e k - in_r k)"
    using ok room p(4) by (simp_all add: k_def input_ok_def)
  show ?thesis
  proof (cases ?done)
    case True
    then have "j = k\<lparr>in_w := in_e k\<rparr>" "woken" using r' by auto
    moreover have "in_ready j = in_ready i @ in_line i @ [of_nat d]"
      using input_commit(2) [OF k(1,2)] p(1) in_ready_line [of i] \<open>j = _\<close> by simp
    ultimately show ?thesis using input_commit [OF k(1,2)] lc True by simp
  next
    case False
    then have "j = k" "\<not> woken" using r' by auto
    moreover have "10 \<notin> set (in_line k)" using ok p(3) False b by (auto simp: input_ok_def)
    ultimately show ?thesis using p(2,3) lc k False by (simp add: input_ok_def)
  qed
qed

lemma input_char_ok:
  assumes ok: "input_ok i" and c: "c < 256" and r: "input_char c i = (j, out, woken)"
  shows "input_ok j \<and> (in_ready j, in_line j) = line_char c (in_ready i, in_line i) \<and> woken = (in_ready j \<noteq> in_ready i)"
proof -
  consider "c = 21" | "c = 8 \<or> c = 127" | "c \<noteq> 21" "c \<noteq> 8" "c \<noteq> 127" "c \<noteq> 0" "unat (in_e i - in_r i) < INPUT_BUF"
    | "c \<noteq> 21" "c \<noteq> 8" "c \<noteq> 127" "c = 0 \<or> unat (in_e i - in_r i) \<ge> INPUT_BUF" by linarith
  then show ?thesis
  proof cases
    case 1
    then show ?thesis using kill_line_ok [OF ok] r by (auto simp: input_char_def line_char_def case_prod_unfold Let_def)
  next
    case 2
    then show ?thesis
      using input_erase [OF ok] edit_empty [OF ok] ok r by (cases "in_e i = in_w i") (auto simp: input_char_def line_char_def)
  next
    case 3
    then show ?thesis using input_char_default [OF ok c _ _ _ _ _ r] by blast
  next
    case 4
    then show ?thesis using ok r input_length [OF ok] by (auto simp: input_char_def line_char_def)
  qed
qed

text \<open>Reading takes characters from the front of what is ready.\<close>

lemma consoleread_ok:
  "input_ok i \<Longrightarrow> consoleread_loop n got i = (cs, w, j) \<Longrightarrow>
     input_ok j \<and> in_line j = in_line i \<and> (in_ready i = cs @ in_ready j \<or> in_ready i = cs @ 4 # in_ready j \<and> cs = [] \<and> \<not> got)
     \<and> length cs \<le> n \<and> (w \<longrightarrow> in_ready j = [])"
proof (induction n arbitrary: got i cs)
  case (Suc n)
  show ?case
  proof (cases "in_r i = in_w i")
    case True
    then show ?thesis using Suc.prems by (simp add: in_ready_def)
  next
    case False
    let ?c = "in_buf i ! (unat (in_r i) mod INPUT_BUF)" and ?k = "i\<lparr>in_r := in_r i + 1\<rparr>"
    have wr: "unat (in_w i - (in_r i + 1)) = unat (in_w i - in_r i) - 1" "0 < unat (in_w i - in_r i)"
      using False arg_cong [OF cr.get [OF False, of "in_buf i"], of length] by simp_all
    have ne: "in_r i \<noteq> in_e i" using wr(2) Suc.prems(1) by (auto simp: input_ok_def)
    have all: "in_all i = ?c # in_all ?k" using cr.get [OF ne] by (simp add: in_all_def)
    have er: "unat (in_e i - (in_r i + 1)) = unat (in_e i - in_r i) - 1"
      using arg_cong [OF all, of length] by simp
    have rk: "in_ready i = ?c # in_ready ?k" "in_line ?k = in_line i"
      using wr by (cases "unat (in_w i - in_r i)"; simp add: in_ready_def in_line_def all)+
    have ok: "input_ok ?k" using Suc.prems(1) rk(2) wr er by (auto simp: input_ok_def)
    show ?thesis
    proof (cases "?c = 4 \<or> ?c = 10")
      case True
      then show ?thesis using Suc.prems False ok rk by (auto simp: Let_def split: if_split_asm)
    next
      case c: False
      obtain cs' where r: "consoleread_loop n True ?k = (cs', w, j)" "cs = ?c # cs'"
        using Suc.prems(2) False c by (auto simp: Let_def split: prod.split_asm)
      show ?thesis using Suc.IH [OF ok r(1)] r(2) rk by auto
    qed
  qed
qed simp

text \<open>
  C10: The console delivers edited lines.  The input buffer with its three wrapping counters behaves as a queue of finished input and a line
  being edited: each typed character acts as in \<open>line_char\<close>, readers are woken exactly when finished input arrives, and
  \<^verbatim>\<open>consoleread\<close> takes characters from the front of the finished input, consuming at most the end-of-file mark besides what
  it returns.
\<close>

theorem console_lines:
  assumes "input_ok i" and "c < 256"
  shows "(case input_char c i of (j, out, woken) \<Rightarrow>
        input_ok j \<and> (in_ready j, in_line j) = line_char c (in_ready i, in_line i) \<and> woken = (in_ready j \<noteq> in_ready i))
    \<and> (case consoleread_loop n False i of (cs, w, j) \<Rightarrow>
        input_ok j \<and> in_line j = in_line i \<and> (in_ready i = cs @ in_ready j \<or> cs = [] \<and> in_ready i = 4 # in_ready j))"
proof -
  obtain j out woken where a: "input_char c i = (j, out, woken)" by (cases "input_char c i") auto
  obtain cs w k where b: "consoleread_loop n False i = (cs, w, k)" by (cases "consoleread_loop n False i") auto
  show ?thesis using input_char_ok [OF assms a] consoleread_ok [OF assms(1) b] by (auto simp: a b)
qed

definition demo_input :: input where
  "demo_input = \<lparr>in_buf = replicate 128 97, in_r = -2, in_w = 0, in_e = 1\<rparr>"

theorem console_lines_witness:
  "case input_char 10 demo_input of (j, out, woken) \<Rightarrow> in_ready j = [97, 97, 97, 10] \<and> in_line j = [] \<and> woken"
proof -
  have all: "in_all demo_input = [97, 97, 97]"
    by (simp add: in_all_def ring_contents_def demo_input_def INPUT_BUF_def upt_rec nth_replicate del: replicate.simps)
  then have i: "in_ready demo_input = [97, 97]" "in_line demo_input = [97]"
    by (simp_all add: in_ready_def in_line_def) (simp_all add: demo_input_def)
  have ok: "input_ok demo_input" using i by (simp add: input_ok_def) (simp add: demo_input_def INPUT_BUF_def)
  have "line_char 10 (in_ready demo_input, in_line demo_input) = ([97, 97, 97, 10], [])"
    by (simp add: i line_char_def INPUT_BUF_def)
  then show ?thesis using console_lines [OF ok, of 10 0] i by (auto split: prod.splits)
qed

end
