(* ===== verification/Trap.thy ===== *)
theory Trap
  imports Console
begin

text \<open>
  \<^verbatim>\<open>kernel/trap.c\<close>: what the kernel does on a system call, an interrupt or an exception.  The argument \<open>c\<close> is the processor, \<open>tf\<close> the address
  of the trap frame, \<open>ds\<close> the bytes that the keyboard or the serial line has.
\<close>

definition T_SYSCALL :: nat where "T_SYSCALL = 64"
definition T_IRQ0 :: nat where "T_IRQ0 = 32"
definition IRQ_TIMER :: nat where "IRQ_TIMER = 0"
definition IRQ_KBD :: nat where "IRQ_KBD = 1"
definition IRQ_COM1 :: nat where "IRQ_COM1 = 4"
definition IRQ_IDE :: nat where "IRQ_IDE = 14"
definition IRQ_SPURIOUS :: nat where "IRQ_SPURIOUS = 31"
definition DPL_USER :: nat where "DPL_USER = 3"

text \<open>How \<^verbatim>\<open>trap\<close> ends: it returns to what was interrupted, the process has exited, or it has yielded the processor.\<close>

datatype trap_end = Resumed | Exited | Yielded

definition trap_exit :: "nat \<Rightarrow> 'z cstate_scheme \<Rightarrow> (trap_end \<times> 'z cstate_scheme) res" where
  "trap_exit me s = rbind (exit me s) (\<lambda>s. Ok (Exited, s))"

definition trap_syscall :: "'z cstate_ext kdevsw \<Rightarrow> nat \<Rightarrow> nat \<Rightarrow> nat \<Rightarrow> 'z cstate_scheme \<Rightarrow> (trap_end \<times> 'z cstate_scheme) res" where
  "trap_syscall devsw c me tf s =
     (if p_killed (procs s me) then trap_exit me s
      else
        rbind (syscall devsw c me (setproc me ((procs s me)\<lparr>p_tf := tf\<rparr>) s)) (\<lambda>s.
        if p_state (procs s me) = ZOMBIE then Ok (Exited, s)
        else if p_killed (procs s me) then trap_exit me s
        else Ok (Resumed, s)))"

definition trap_timer :: "nat \<Rightarrow> 'z cstate_scheme \<Rightarrow> 'z cstate_scheme" where
  "trap_timer c s = (if c = 0 then wakeup Chan_ticks (s\<lparr>ticks := u32 (ticks s + 1)\<rparr>) else s)"

text \<open>The \<^verbatim>\<open>switch\<close> on the number of the trap.\<close>

definition trap_handle :: "nat \<Rightarrow> nat \<Rightarrow> nat \<Rightarrow> nat list \<Rightarrow> 'z cstate_scheme \<Rightarrow> 'z cstate_scheme res" where
  "trap_handle c no cs ds s =
     (if no = T_IRQ0 + IRQ_TIMER then Ok (trap_timer c s)
      else if no = T_IRQ0 + IRQ_IDE then ideintr s
      else if no = T_IRQ0 + IRQ_KBD then kbdintr ds s
      else if no = T_IRQ0 + IRQ_COM1 then uartintr ds s
      else if no = T_IRQ0 + 7 \<or> no = T_IRQ0 + IRQ_SPURIOUS then Ok s
      else
        case onproc s c of
          None \<Rightarrow> Panic ''trap''
        | Some me \<Rightarrow>
            if cs AND 3 = 0 then Panic ''trap''
            else Ok (setproc me ((procs s me)\<lparr>p_killed := True\<rparr>) s))"

text \<open>The last test, after the process has run again when it yielded.\<close>

definition trap_return :: "nat \<Rightarrow> nat \<Rightarrow> 'z cstate_scheme \<Rightarrow> (trap_end \<times> 'z cstate_scheme) res" where
  "trap_return me cs s =
     (if p_killed (procs s me) \<and> cs AND 3 = DPL_USER then trap_exit me s else Ok (Resumed, s))"

definition trap :: "'z cstate_ext kdevsw \<Rightarrow> nat \<Rightarrow> nat \<Rightarrow> nat list \<Rightarrow> 'z cstate_scheme \<Rightarrow> (trap_end \<times> 'z cstate_scheme) res" where
  "trap devsw c tf ds s =
     (let no = rd64 (pmem (f_mem s)) (tf + tf_trapno); cs = rd64 (pmem (f_mem s)) (tf + tf_cs)
      in if no = T_SYSCALL then
           (case onproc s c of None \<Rightarrow> Undef | Some me \<Rightarrow> trap_syscall devsw c me tf s)
         else
           rbind (trap_handle c no cs ds s) (\<lambda>s.
           case onproc s c of
             None \<Rightarrow> Ok (Resumed, s)
           | Some me \<Rightarrow>
               if p_killed (procs s me) \<and> cs AND 3 = DPL_USER then trap_exit me s
               else if p_state (procs s me) = RUNNING \<and> no = T_IRQ0 + IRQ_TIMER then Ok (Yielded, yield me s)
               else trap_return me cs s))"

end
