(* ===== verification/Fs_Data.thy ===== *)
theory Fs_Data
  imports Fs_Frame
begin

text \<open>
  What the file-content operations of \<^verbatim>\<open>kernel/fs.c\<close> do to the bytes of a file: \<^verbatim>\<open>readi\<close> returns a piece of
  the file and changes nothing, \<^verbatim>\<open>writei\<close> overwrites and extends it, keeps the inode on the drive up to
  date and leaves every other file alone.  The specification is a list of bytes per file.
\<close>

section \<open>Holding a block across other operations\<close>

lemma txn_hold:
  assumes t: "txn B (Suc r) s" and b: "b < FSSIZE" "b \<notin> v_held (view s)"
  shows "\<exists>i s'. bread ROOTDEV b s = Ok (i, s') \<and> txn B r s' \<and> holds s' i b \<and> getdata s' i = v_blk (view s) b
    \<and> view s' = (view s)\<lparr>v_held := insert b (v_held (view s))\<rparr> \<and> same_params s s'
    \<and> (b \<in> v_pinned (view s) \<or> v_blk (view s) b = v_disk (view s) b)
    \<and> (\<forall>j c. holds s j c \<longrightarrow> holds s' j c)"
proof -
  have inv: "bc_inv s" using txnD(2) [OF t] .
  obtain i s' where s': "bread ROOTDEV b s = Ok (i, s')" "bc_inv s'" "holds s' i b"
      "view s' = (view s)\<lparr>v_held := insert b (v_held (view s))\<rparr>"
      "\<forall>j c. holds s j c \<longrightarrow> holds s' j c" "bstate.more s' = bstate.more s"
    using bc.bread_law [OF inv txn_gettable [OF t b]] by blast
  note f = same_log [OF s'(6)]
  have "log_live s'" "logged s' = logged s"
    using log_live_cong [OF txnD(1) [OF t] s'(2,6)] s'(4) f by (simp_all add: logged_def)
  moreover have "card (insert b (v_held (view s))) \<le> Suc (card (v_held (view s)))"
    by (rule card_insert_le_m1) simp_all
  ultimately have "txn B r s'" using t f s'(4) by (auto simp: txn_def)
  moreover have "getdata s' i = v_blk (view s) b" using bc.getdata_law [OF s'(2,3)] s'(4) by simp
  ultimately show ?thesis
    using s' f bc.clean_law [OF inv b] by (auto simp: same_params_def)
qed

lemma txn_put_held:
  assumes t: "txn B r s" and i: "holds s i b" and b: "b < l_start s" "b \<noteq> 1" "b \<in> B \<or> 0 < r"
    and d: "length d = BSIZE"
  shows "\<exists>s'. log_write i (setdata i d s) = Ok s' \<and> txn (insert b B) (if b \<in> B then r else r - 1) s'
    \<and> txn_step s s' ((v_blk (view s))(b := d)) \<and> holds s' = holds s \<and> b \<in> v_pinned (view s')"
proof -
  define u where "u = setdata i d s"
  have u: "bc_inv u" "view u = (view s)\<lparr>v_blk := (v_blk (view s))(b := d)\<rparr>" "holds u = holds s"
      "bstate.more u = bstate.more s"
    using bc.setdata_law [OF txnD(2) [OF t] i d] by (auto simp: u_def)
  note f = same_log [OF u(4)]
  have live: "log_live u" using log_live_cong [OF txnD(1) [OF t] u(1,4)] u(2) by simp
  have lg: "logged u = logged s" using f by (simp add: logged_def)
  have room: "log_room s" using t txn_lh_n [OF t] by (auto simp: txn_def log_room_def)
  obtain s' where s': "log_write i u = Ok s'" "log_live s'" "holds s' = holds u"
      "view s' = (view u)\<lparr>v_pinned := insert b (v_pinned (view u))\<rparr>"
      "logged s' = (if b \<in> set (logged u) then logged u else logged u @ [b])" "same_params u s'"
    using log_write_ok [OF live, of i b] u(3) i b room f by (auto simp: log_room_def same_params_def)
  have "set (logged s') \<union> insert b B = insert b (set (logged s) \<union> B)"
    using s'(5) lg by auto
  then have c: "card (set (logged s') \<union> insert b B) + (if b \<in> B then r else r - 1) \<le> card (set (logged s) \<union> B) + r"
    using t b(3) by (auto simp: txn_def card_insert_if insert_absorb)
  have p: "l_outstanding s' = l_outstanding s" "l_size s' = l_size s" "same_params s s'"
    using s'(6) f by (simp_all add: same_params_def)
  have h: "v_held (view s') = v_held (view s)" using s'(4) u(2) by simp
  have "txn (insert b B) (if b \<in> B then r else r - 1) s'"
    unfolding txn_def p h using t c s'(2) by (auto simp: txn_def)
  then show ?thesis using s' u p by (auto simp: txn_step_def u_def)
qed

lemma txn_release:
  assumes t: "txn B r s" and i: "holds s i b" and c: "b \<in> v_pinned (view s) \<or> v_blk (view s) b = v_disk (view s) b"
  shows "\<exists>s'. brelse i s = Ok s' \<and> txn B r s' \<and> view s' = (view s)\<lparr>v_held := v_held (view s) - {b}\<rparr>
    \<and> same_params s s' \<and> (\<forall>j c. j \<noteq> i \<and> holds s j c \<longrightarrow> holds s' j c)"
proof -
  obtain s' where s': "brelse i s = Ok s'" "bc_inv s'" "bstate.more s' = bstate.more s"
      "view s' = (view s)\<lparr>v_held := v_held (view s) - {b}\<rparr>" "\<forall>j c. j \<noteq> i \<and> holds s j c \<longrightarrow> holds s' j c"
    using bc.brelse_law [OF txnD(2) [OF t] i c] by blast
  note f = same_log [OF s'(3)]
  have "log_live s'" "logged s' = logged s"
    using log_live_cong [OF txnD(1) [OF t] s'(2,3)] s'(4) f by (simp_all add: logged_def)
  moreover have "card (v_held (view s) - {b}) \<le> card (v_held (view s))"
    by (simp add: card_Diff1_le)
  ultimately have "txn B r s'" using t f s'(4) by (auto simp: txn_def)
  then show ?thesis using s' f by (auto simp: same_params_def)
qed

section \<open>The blocks and the bytes of a file\<close>

text \<open>
  Block \<open>bn\<close> of a file, 0 if there is none; the index \<^const>\<open>MAXFILE\<close> stands for the indirect block.
\<close>

definition blkno :: "(nat \<Rightarrow> byte list) \<Rightarrow> nat list \<Rightarrow> nat \<Rightarrow> nat" where
  "blkno M as bn =
     (if bn < NDIRECT then as ! bn
      else if bn = MAXFILE then as ! NDIRECT
      else if as ! NDIRECT = 0 then 0 else get32 (M (as ! NDIRECT)) (4 * (bn - NDIRECT)))"

definition owns :: "(nat \<Rightarrow> byte list) \<Rightarrow> nat list \<Rightarrow> nat \<Rightarrow> bool" where
  "owns M as c \<longleftrightarrow> c \<noteq> 0 \<and> (\<exists>i\<le>MAXFILE. blkno M as i = c)"

text \<open>A file's blocks are data blocks, marked in the bitmap, and no block is used twice.\<close>

definition addrs_ok :: "nat \<Rightarrow> (nat \<Rightarrow> byte list) \<Rightarrow> nat list \<Rightarrow> bool" where
  "addrs_ok start M as \<longleftrightarrow> length as = NDIRECT + 1
     \<and> (\<forall>c. owns M as c \<longrightarrow> bitmap_block M < c \<and> c < start \<and> used M c)
     \<and> (\<forall>i\<le>MAXFILE. \<forall>j\<le>MAXFILE. blkno M as i \<noteq> 0 \<and> blkno M as i = blkno M as j \<longrightarrow> i = j)"

lemma addrs_okD:
  assumes "addrs_ok start M as"
  shows "length as = NDIRECT + 1" "owns M as c \<Longrightarrow> bitmap_block M < c \<and> c < start \<and> used M c"
    "i \<le> MAXFILE \<Longrightarrow> j \<le> MAXFILE \<Longrightarrow> blkno M as i \<noteq> 0 \<Longrightarrow> blkno M as i = blkno M as j \<Longrightarrow> i = j"
  using assms unfolding addrs_ok_def by blast+

lemma ownsI: "i \<le> MAXFILE \<Longrightarrow> blkno M as i \<noteq> 0 \<Longrightarrow> owns M as (blkno M as i)"
  by (auto simp: owns_def)

definition fbyte :: "(nat \<Rightarrow> byte list) \<Rightarrow> nat list \<Rightarrow> nat \<Rightarrow> byte" where
  "fbyte M as j = (let b = blkno M as (j div BSIZE) in if b = 0 then 0 else M b ! (j mod BSIZE))"

text \<open>
  A step of the file system in the course of which the file with addresses \<open>as\<close> gets addresses \<open>as'\<close> and
  contents \<open>f\<close>: the blocks it had stay its blocks, the ones it gets were free, and the blocks in use that
  are not its own keep their contents.
\<close>

definition fchange :: "(nat \<Rightarrow> byte list) \<Rightarrow> nat list \<Rightarrow> (nat \<Rightarrow> byte list) \<Rightarrow> nat list \<Rightarrow> (nat \<Rightarrow> byte) \<Rightarrow> bool" where
  "fchange M as M' as' f \<longleftrightarrow> bitmap_block M' = bitmap_block M \<and> M' 1 = M 1
     \<and> (\<forall>j < MAXFILE * BSIZE. fbyte M' as' j = f j)
     \<and> (\<forall>i\<le>MAXFILE. blkno M as i \<noteq> 0 \<longrightarrow> blkno M' as' i = blkno M as i)
     \<and> (\<forall>c. owns M' as' c \<and> \<not> owns M as c \<longrightarrow> \<not> used M c)
     \<and> (\<forall>c. used M c \<longrightarrow> used M' c)
     \<and> (\<forall>c. used M c \<and> c \<noteq> bitmap_block M \<and> \<not> owns M as c \<longrightarrow> M' c = M c)"

lemma fchange_refl: "fchange M as M as (fbyte M as)"
  by (simp add: fchange_def)

lemma fchange_trans:
  assumes 1: "fchange M as M' as' f" and 2: "fchange M' as' M'' as'' g"
  shows "fchange M as M'' as'' g"
proof -
  have "\<not> used M c" if "owns M'' as'' c" "\<not> owns M as c" for c
    using that 1 2 unfolding fchange_def by blast
  moreover have "M'' c = M c" if "used M c" "c \<noteq> bitmap_block M" "\<not> owns M as c" for c
    using that 1 2 unfolding fchange_def by metis
  ultimately show ?thesis using 1 2 unfolding fchange_def by simp
qed

definition nfree :: "(nat \<Rightarrow> byte list) \<Rightarrow> nat" where
  "nfree M = card {b. b < sb_size (decode_sb (M 1)) \<and> \<not> used M b}"

lemma nfree_ex: "0 < nfree M \<Longrightarrow> \<exists>b < sb_size (decode_sb (M 1)). \<not> used M b"
  by (auto simp: nfree_def card_gt_0_iff)

text \<open>A file gets a zeroed block that was free.\<close>

lemma alloc_change:
  assumes a: "addrs_ok start M as" and m: "fs_meta start M"
    and b: "\<not> used M b" "bitmap_block M < b" "b < start"
    and i: "i \<le> MAXFILE" "blkno M as i = 0" and len: "length as' = length as"
    and blk: "\<And>j. j \<le> MAXFILE \<Longrightarrow> blkno M' as' j = (if j = i then b else blkno M as j)"
    and new: "M' b = replicate BSIZE 0"
    and old: "\<And>c. c \<noteq> b \<Longrightarrow> c \<noteq> bitmap_block M \<Longrightarrow> c = 0 \<or> c \<noteq> blkno M as MAXFILE \<Longrightarrow> M' c = M c"
    and u: "\<And>c. used M' c \<longleftrightarrow> c = b \<or> used M c"
  shows "addrs_ok start M' as'" "fchange M as M' as' (fbyte M as)" "nfree M = Suc (nfree M')"
proof -
  note d = addrs_okD [OF a]
  have bm: "1 < bitmap_block M" using fs_metaD(4) [OF m] .
  have one: "M' 1 = M 1"
    using old [of 1] b(2) bm d(2) [of 1] ownsI [of MAXFILE M as] by (metis One_nat_def le_refl not_less_iff_gr_or_eq order_less_trans)
  then have bm': "bitmap_block M' = bitmap_block M" by (simp add: bitmap_block_def)
  have ow: "owns M' as' c \<longleftrightarrow> c = b \<or> owns M as c" for c
    using blk i b(2) unfolding owns_def by (metis not_less_zero)
  have nb: "\<not> owns M as b" using d(2) [of b] b(1) by blast
  show "addrs_ok start M' as'"
    unfolding addrs_ok_def
  proof (intro conjI allI impI)
    show "length as' = NDIRECT + 1" using len d(1) by simp
    show "bitmap_block M' < c" "c < start" "used M' c" if "owns M' as' c" for c
      using that ow d(2) [of c] b bm' u by auto
    show "p = q" if "p \<le> MAXFILE" "q \<le> MAXFILE" "blkno M' as' p \<noteq> 0 \<and> blkno M' as' p = blkno M' as' q" for p q
      using that blk [of p] blk [of q] d(3) [of p q] nb ownsI [of p M as] ownsI [of q M as] by (auto split: if_splits)
  qed
  have "fbyte M' as' j = fbyte M as j" if j: "j < MAXFILE * BSIZE" for j
  proof -
    have bs: "0 < BSIZE" by (simp add: BSIZE_def)
    have q: "j div BSIZE < MAXFILE" using j by (simp add: less_mult_imp_div_less)
    show ?thesis
    proof (cases "j div BSIZE = i")
      case True
      then show ?thesis using blk [of i] i b(2) new bs by (simp add: fbyte_def)
    next
      case False
      let ?c = "blkno M as (j div BSIZE)"
      have "M' ?c = M ?c" if "?c \<noteq> 0"
        using old [of ?c] that q d(3) [of "j div BSIZE" MAXFILE] nb d(2) [of ?c] ownsI [of "j div BSIZE" M as] by force
      then show ?thesis using False q blk [of "j div BSIZE"] by (simp add: fbyte_def Let_def)
    qed
  qed
  moreover have "M' c = M c" if "used M c" "c \<noteq> bitmap_block M" "\<not> owns M as c" for c
    using old [of c] that b(1) by (metis le_refl ownsI)
  ultimately show "fchange M as M' as' (fbyte M as)"
    using one bm' u ow b(1) blk i unfolding fchange_def by auto
  have "b < sb_size (decode_sb (M 1))" using b(3) fs_metaD(1) [OF m] by simp
  then have "{c. c < sb_size (decode_sb (M 1)) \<and> \<not> used M c} = insert b {c. c < sb_size (decode_sb (M' 1)) \<and> \<not> used M' c}"
    using one u b(1) by auto
  then show "nfree M = Suc (nfree M')"
    using u by (simp add: nfree_def card_insert_if)
qed

text \<open>One block of the file is overwritten.\<close>

lemma write_change:
  assumes a: "addrs_ok start M as" and m: "fs_meta start M" and i: "i < MAXFILE" "blkno M as i \<noteq> 0"
  defines "b \<equiv> blkno M as i"
  shows "addrs_ok start (M(b := d)) as" "nfree (M(b := d)) = nfree M"
    "fchange M as (M(b := d)) as (\<lambda>j. if j div BSIZE = i then d ! (j mod BSIZE) else fbyte M as j)"
proof -
  note f = addrs_okD [OF a]
  have o: "owns M as b" using i ownsI [of i M as] by (simp add: b_def)
  have b: "bitmap_block M < b" "b \<noteq> 1" "b \<noteq> bitmap_block M" using f(2) [OF o] fs_metaD(4) [OF m] by auto
  have blk: "blkno (M(b := d)) as j = blkno M as j" if "j \<le> MAXFILE" for j
  proof -
    have "as ! NDIRECT \<noteq> b"
      using f(3) [of MAXFILE i] i by (auto simp: b_def blkno_def MAXFILE_def split: if_splits)
    then show ?thesis by (simp add: blkno_def)
  qed
  then have ow: "owns (M(b := d)) as = owns M as" by (auto simp: owns_def fun_eq_iff)
  show "addrs_ok start (M(b := d)) as"
    using a b blk unfolding addrs_ok_def ow by simp
  show "nfree (M(b := d)) = nfree M" using b by (simp add: nfree_def)
  have "fbyte (M(b := d)) as j = (if j div BSIZE = i then d ! (j mod BSIZE) else fbyte M as j)"
    if "j < MAXFILE * BSIZE" for j
  proof -
    have q: "j div BSIZE < MAXFILE" using that by (simp add: less_mult_imp_div_less)
    then show ?thesis
      using blk [of "j div BSIZE"] i f(3) [of "j div BSIZE" i] by (auto simp: fbyte_def Let_def b_def)
  qed
  then show "fchange M as (M(b := d)) as (\<lambda>j. if j div BSIZE = i then d ! (j mod BSIZE) else fbyte M as j)"
    using b ow o blk unfolding fchange_def by auto
qed

section \<open>Finding and allocating the blocks of a file\<close>

definition file_at :: "nat \<Rightarrow> 'z istate_scheme \<Rightarrow> bool" where
  "file_at k s \<longleftrightarrow> i_dev (inodes s k) = ROOTDEV
     \<and> addrs_ok (l_start s) (v_blk (view s)) (i_addrs (inodes s k))
     \<and> (\<forall>c. owns (v_blk (view s)) (i_addrs (inodes s k)) c \<longrightarrow> c \<notin> v_held (view s))"

definition fstep :: "nat \<Rightarrow> 'z istate_scheme \<Rightarrow> 'z istate_scheme \<Rightarrow> (nat \<Rightarrow> byte) \<Rightarrow> bool" where
  "fstep k s s' f \<longleftrightarrow> (\<exists>as'. fs_step s s' (v_blk (view s')) ((inodes s)(k := (inodes s k)\<lparr>i_addrs := as'\<rparr>))
     \<and> fchange (v_blk (view s)) (i_addrs (inodes s k)) (v_blk (view s')) as' f)"

lemma fstep_refl: "fstep k s s (fbyte (v_blk (view s)) (i_addrs (inodes s k)))"
  unfolding fstep_def by (rule exI [of _ "i_addrs (inodes s k)"]) (simp add: fchange_refl)

lemma fstep_trans: "fstep k s t f \<Longrightarrow> fstep k t u g \<Longrightarrow> fstep k s u g"
  unfolding fstep_def by (force simp: fs_stepD(2) intro: fs_step_trans fchange_trans)

lemma fstep_cong: "fstep k s t f \<Longrightarrow> (\<And>j. j < MAXFILE * BSIZE \<Longrightarrow> f j = g j) \<Longrightarrow> fstep k s t g"
  unfolding fstep_def fchange_def by auto

lemma fstepD:
  assumes "fstep k s s' f"
  defines "M \<equiv> v_blk (view s)" and "as \<equiv> i_addrs (inodes s k)" and "M' \<equiv> v_blk (view s')" and "as' \<equiv> i_addrs (inodes s' k)"
  shows "bitmap_block M' = bitmap_block M" "M' 1 = M 1" "\<And>j. j < MAXFILE * BSIZE \<Longrightarrow> fbyte M' as' j = f j"
    "\<And>i. i \<le> MAXFILE \<Longrightarrow> blkno M as i \<noteq> 0 \<Longrightarrow> blkno M' as' i = blkno M as i"
    "\<And>c. owns M' as' c \<Longrightarrow> \<not> owns M as c \<Longrightarrow> \<not> used M c" "\<And>c. used M c \<Longrightarrow> used M' c"
    "\<And>c. used M c \<Longrightarrow> c \<noteq> bitmap_block M \<Longrightarrow> \<not> owns M as c \<Longrightarrow> M' c = M c"
    "inodes s' = (inodes s)(k := (inodes s k)\<lparr>i_addrs := as'\<rparr>)" "fs_step s s' M' (inodes s')"
proof -
  obtain a where a: "fs_step s s' M' ((inodes s)(k := (inodes s k)\<lparr>i_addrs := a\<rparr>))" "fchange M as M' a f"
    using assms(1) unfolding fstep_def M_def as_def M'_def by blast
  note i = fs_stepD(2) [OF a(1)]
  then have e: "a = as'" by (simp add: as'_def)
  show "inodes s' = (inodes s)(k := (inodes s k)\<lparr>i_addrs := as'\<rparr>)" "fs_step s s' M' (inodes s')" using a(1) i e by auto
  show "bitmap_block M' = bitmap_block M" "M' 1 = M 1" "\<And>j. j < MAXFILE * BSIZE \<Longrightarrow> fbyte M' as' j = f j"
    "\<And>i. i \<le> MAXFILE \<Longrightarrow> blkno M as i \<noteq> 0 \<Longrightarrow> blkno M' as' i = blkno M as i"
    "\<And>c. owns M' as' c \<Longrightarrow> \<not> owns M as c \<Longrightarrow> \<not> used M c" "\<And>c. used M c \<Longrightarrow> used M' c"
    "\<And>c. used M c \<Longrightarrow> c \<noteq> bitmap_block M \<Longrightarrow> \<not> owns M as c \<Longrightarrow> M' c = M c"
    using a(2) unfolding fchange_def e by blast+
qed

lemma fs_txn_reserve:
  assumes "fs_txn B (Suc r) s"
  shows "fs_txn (insert a B) r s"
proof -
  have "card (set (logged s) \<union> insert a B) \<le> Suc (card (set (logged s) \<union> B))"
    using assms by (simp add: fs_txn_def txn_def card_insert_if)
  then show ?thesis using assms by (auto simp: fs_txn_def txn_def)
qed

lemma fs_txn_mono: "fs_txn B r s \<Longrightarrow> q \<le> r \<Longrightarrow> A \<subseteq> B \<Longrightarrow> bitmap_block (v_blk (view s)) \<in> A \<Longrightarrow> fs_txn A q s"
  unfolding fs_txn_def using txn_mono by blast

lemma balloc_change:
  assumes t: "fs_txn B (Suc r) s" and n: "0 < nfree (v_blk (view s))"
  defines "M \<equiv> v_blk (view s)"
  shows "\<exists>b s'. balloc ROOTDEV s = Ok (b, s') \<and> fs_txn (insert b B) r s' \<and> txn_step s s' (v_blk (view s'))
    \<and> \<not> used M b \<and> bitmap_block M < b \<and> b < l_start s \<and> v_blk (view s') b = replicate BSIZE 0
    \<and> (\<forall>c. used (v_blk (view s')) c \<longleftrightarrow> c = b \<or> used M c)
    \<and> (\<forall>c. c \<noteq> b \<and> c \<noteq> bitmap_block M \<longrightarrow> v_blk (view s') c = M c)"
proof -
  note d = fs_txnD [OF t, folded M_def]
  obtain b s' where b: "balloc ROOTDEV s = Ok (b, s')" "fs_txn (insert b B) r s'" "\<not> used M b"
      "bitmap_block M < b" "b < l_start s" "txn_step s s' ((mark_used M b)(b := replicate BSIZE 0))"
    using balloc_ok [OF t nfree_ex [OF n]] unfolding M_def by blast
  note f = txn_stepD [OF b(6)]
  have ne: "bitmap_block M \<noteq> 1" "b \<noteq> 1" using fs_metaD(4) [OF d(2)] b(4) by auto
  have fs: "b < FSSIZE" using b(5) txnD(3) [OF d(1)] by simp
  have "used (v_blk (view s')) c \<longleftrightarrow> c = b \<or> used M c" for c
    using used_set [OF d(2,6) fs] f(1) ne b(4) by (simp add: mark_used_def)
  then show ?thesis using b f(1) by (auto simp: mark_used_def)
qed

lemma set_addr_step:
  assumes "txn_step s t (v_blk (view t))"
  shows "fs_step s (set_addr k i a t) (v_blk (view t))
    ((inodes s)(k := (inodes s k)\<lparr>i_addrs := (i_addrs (inodes s k))[i := a]\<rparr>))"
  using fs_step_setinode [OF fs_stepI [OF assms]] same_inodes(1) [OF txn_stepD(5) [OF assms]]
  by (simp add: set_addr_def)

lemma set_addr_sel [simp]:
  "view (set_addr k i a s) = view s" "fs_txn B r (set_addr k i a s) = fs_txn B r s"
  "inodes (set_addr k i a s) k = (inodes s k)\<lparr>i_addrs := (i_addrs (inodes s k))[i := a]\<rparr>"
  "l_start (set_addr k i a s) = l_start s"
  by (simp_all add: set_addr_def)

text \<open>Position \<open>i\<close> of the array of addresses as a block index.\<close>

abbreviation (input) slot :: "nat \<Rightarrow> nat" where
  "slot i \<equiv> if i = NDIRECT then MAXFILE else i"

lemma slot_blkno: "i \<le> NDIRECT \<Longrightarrow> blkno M as (slot i) = as ! i \<and> slot i \<le> MAXFILE"
  by (auto simp: blkno_def MAXFILE_def)

lemma addr_or_alloc_ok:
  assumes t: "fs_txn B (Suc r) s" and k: "file_at k s" and i: "i \<le> NDIRECT" and n: "0 < nfree (v_blk (view s))"
  defines "M \<equiv> v_blk (view s)" and "as \<equiv> i_addrs (inodes s k)"
  shows "\<exists>a s'. addr_or_alloc k i s = Ok (a, s') \<and> a \<noteq> 0 \<and> fs_txn (insert a B) r s' \<and> file_at k s'
    \<and> fstep k s s' (fbyte M as) \<and> blkno (v_blk (view s')) (i_addrs (inodes s' k)) (slot i) = a
    \<and> nfree M \<le> Suc (nfree (v_blk (view s'))) \<and> (as ! i \<noteq> 0 \<longrightarrow> s' = s)"
proof (cases "as ! i = 0")
  case False
  then have "addr_or_alloc k i s = Ok (as ! i, s)" by (simp add: addr_or_alloc_def as_def)
  then show ?thesis
    using False k fs_txn_reserve [OF t] fstep_refl slot_blkno [OF i] by (auto simp: M_def as_def)
next
  case True
  have a: "addrs_ok (l_start s) M as" and dev: "i_dev (inodes s k) = ROOTDEV"
    and held: "\<And>c. owns M as c \<Longrightarrow> c \<notin> v_held (view s)"
    using k by (auto simp: file_at_def M_def as_def)
  note d = fs_txnD [OF t, folded M_def] and ad = addrs_okD [OF a]
  obtain b u where b: "balloc ROOTDEV s = Ok (b, u)" "fs_txn (insert b B) r u" "txn_step s u (v_blk (view u))"
      "\<not> used M b" "bitmap_block M < b" "b < l_start s" "v_blk (view u) b = replicate BSIZE 0"
      "\<And>c. used (v_blk (view u)) c \<longleftrightarrow> c = b \<or> used M c"
      "\<And>c. c \<noteq> b \<Longrightarrow> c \<noteq> bitmap_block M \<Longrightarrow> v_blk (view u) c = M c"
    using balloc_change [OF t n] unfolding M_def by blast
  let ?M = "v_blk (view u)" and ?as = "as[i := b]" and ?s = "set_addr k i b u"
  have ind: "as ! NDIRECT = 0 \<or> ?M (as ! NDIRECT) = M (as ! NDIRECT)"
    using b(9) [of "as ! NDIRECT"] ad(2) [of "as ! NDIRECT"] b(4) slot_blkno [of NDIRECT M as]
    by (metis le_refl less_irrefl owns_def)
  have z: "get32 (replicate BSIZE 0) (4 * x) = 0" if "x < NINDIRECT" for x
    using that by (simp add: get32_def get16_def NINDIRECT_def BSIZE_def)
  have blk: "blkno ?M ?as j = (if j = slot i then b else blkno M as j)" if "j \<le> MAXFILE" for j
    using that i True ind b(5,7) ad(1) z [of "j - NDIRECT"]
    by (auto simp: blkno_def nth_list_update MAXFILE_def)
  have slot: "blkno M as (slot i) = 0" "slot i \<le> MAXFILE" using slot_blkno [OF i] True by auto
  have ch: "addrs_ok (l_start s) ?M ?as" "fchange M as ?M ?as (fbyte M as)" "nfree M = Suc (nfree ?M)"
    by (rule alloc_change [OF a d(2) b(4-6) slot(2,1) _ blk b(7) b(9) b(8)]; simp)+
  have code: "addr_or_alloc k i s = Ok (b, ?s)"
    using True b(1) dev by (simp add: addr_or_alloc_def as_def)
  have ino: "inodes u = inodes s" using same_inodes(1) [OF txn_stepD(5) [OF b(3)]] .
  then have ask: "i_addrs (inodes ?s k) = ?as" by (simp add: as_def)
  have "fstep k s ?s (fbyte M as)"
    unfolding fstep_def using set_addr_step [OF b(3), of k i b] ch(2) by (auto simp: M_def as_def)
  moreover have "c \<notin> v_held (view s)" if "owns ?M ?as c" for c
    using that ch(2) held [of c] d(5) [of c] unfolding fchange_def by blast
  then have "file_at k ?s"
    using ch(1) ask dev ino txn_stepD(2,3) [OF b(3)] by (simp add: file_at_def)
  moreover have "blkno ?M ?as (slot i) = b" using blk [OF slot(2)] by simp
  ultimately show ?thesis using code b(2,5) ch(3) ask True by auto
qed

text \<open>A block number in the indirect block, allocated while the indirect block is held.\<close>

lemma indirect_blkno:
  assumes as: "as ! NDIRECT = ind" "ind \<noteq> 0" and len: "length (M ind) = BSIZE" and n: "n < NINDIRECT" and a: "a < 2 ^ 32"
    and j: "j \<le> MAXFILE"
  shows "blkno (M(ind := put32 (M ind) (4 * n) a)) as j = (if j = n + NDIRECT then a else blkno M as j)"
proof -
  consider "j < NDIRECT \<or> j = MAXFILE" | "NDIRECT \<le> j" "j < MAXFILE" using j by linarith
  then show ?thesis
  proof cases
    case 1
    then show ?thesis using n by (auto simp: blkno_def MAXFILE_def)
  next
    case 2
    have "get32 (put32 (M ind) (4 * n) a) (4 * x) = (if x = n then a else get32 (M ind) (4 * x))" for x
    proof (cases "x = n")
      case False
      then have "4 * n + 4 \<le> 4 * x \<or> 4 * x + 4 \<le> 4 * n" by linarith
      with False show ?thesis by simp
    qed (use len n a in \<open>simp add: NINDIRECT_def BSIZE_def\<close>)
    then show ?thesis using 2 as by (auto simp: blkno_def)
  qed
qed

lemma fs_txn_hold:
  assumes t: "fs_txn B (Suc r) s" and b: "used (v_blk (view s)) b" "b \<notin> v_held (view s)" "bitmap_block (v_blk (view s)) < b" "b < l_start s"
  shows "\<exists>i s'. bread ROOTDEV b s = Ok (i, s') \<and> fs_txn B r s' \<and> holds s' i b \<and> getdata s' i = v_blk (view s) b
    \<and> view s' = (view s)\<lparr>v_held := insert b (v_held (view s))\<rparr> \<and> same_params s s'
    \<and> (b \<in> v_pinned (view s) \<or> v_blk (view s) b = v_disk (view s) b) \<and> (\<forall>j c. holds s j c \<longrightarrow> holds s' j c)"
proof -
  note d = fs_txnD [OF t]
  have "b < FSSIZE" "b \<noteq> 1" "b \<noteq> bitmap_block (v_blk (view s))" using b txnD(3) [OF d(1)] fs_metaD(4) [OF d(2)] by auto
  then show ?thesis
    using txn_hold [OF d(1), of b] b d by (fastforce simp: fs_txn_def same_params_def)
qed

lemma fs_txn_put_held:
  assumes t: "fs_txn B r s" and i: "holds s i b" and b: "bitmap_block (v_blk (view s)) < b" "b < l_start s" "b \<in> B \<or> 0 < r"
    and d: "length d = BSIZE"
  shows "\<exists>s'. log_write i (setdata i d s) = Ok s' \<and> fs_txn (insert b B) (if b \<in> B then r else r - 1) s'
    \<and> txn_step s s' ((v_blk (view s))(b := d)) \<and> holds s' = holds s \<and> b \<in> v_pinned (view s')"
proof -
  note f = fs_txnD [OF t]
  have ne: "b \<noteq> 1" "b \<noteq> bitmap_block (v_blk (view s))" using b(1) fs_metaD(4) [OF f(2)] by auto
  obtain s' where s': "log_write i (setdata i d s) = Ok s'" "txn (insert b B) (if b \<in> B then r else r - 1) s'"
      "txn_step s s' ((v_blk (view s))(b := d))" "holds s' = holds s" "b \<in> v_pinned (view s')"
    using txn_put_held [OF f(1) i b(2) ne(1) b(3) d] by blast
  moreover have "fs_txn (insert b B) (if b \<in> B then r else r - 1) s'"
    using s'(2) txn_stepD [OF s'(3)] ne f fs_meta_upd [of b "v_blk (view s)"] by (simp add: fs_txn_def)
  ultimately show ?thesis by blast
qed

lemma fs_txn_release:
  assumes t: "fs_txn B r s" and i: "holds s i b" and c: "b \<in> v_pinned (view s) \<or> v_blk (view s) b = v_disk (view s) b"
  shows "\<exists>s'. brelse i s = Ok s' \<and> fs_txn B r s' \<and> view s' = (view s)\<lparr>v_held := v_held (view s) - {b}\<rparr>
    \<and> same_params s s' \<and> (\<forall>j c. j \<noteq> i \<and> holds s j c \<longrightarrow> holds s' j c)"
  using txn_release [OF fs_txnD(1) [OF t] i c] fs_txnD [OF t] by (fastforce simp: fs_txn_def same_params_def)

lemma indirect_alloc_ok:
  assumes t: "fs_txn B (Suc (Suc r)) s" and k: "file_at k s" and n: "n < NINDIRECT" "0 < nfree (v_blk (view s))"
  defines "M \<equiv> v_blk (view s)" and "as \<equiv> i_addrs (inodes s k)"
  assumes ind: "as ! NDIRECT = ind" "ind \<noteq> 0" "ind \<in> B" and z: "get32 (M ind) (4 * n) = 0"
  shows "\<exists>bp s1 a s2 s3 s'. bread ROOTDEV ind s = Ok (bp, s1) \<and> getdata s1 bp = M ind \<and> inodes s1 = inodes s
    \<and> balloc ROOTDEV s1 = Ok (a, s2) \<and> log_write bp (setdata bp (put32 (getdata s2 bp) (4 * n) a) s2) = Ok s3
    \<and> brelse bp s3 = Ok s' \<and> a \<noteq> 0 \<and> fs_txn (insert a B) r s' \<and> file_at k s' \<and> fstep k s s' (fbyte M as)
    \<and> blkno (v_blk (view s')) (i_addrs (inodes s' k)) (n + NDIRECT) = a \<and> nfree M = Suc (nfree (v_blk (view s')))"
proof -
  have a: "addrs_ok (l_start s) M as" and dev: "i_dev (inodes s k) = ROOTDEV"
    and held: "\<And>c. owns M as c \<Longrightarrow> c \<notin> v_held (view s)"
    using k by (auto simp: file_at_def M_def as_def)
  note d = fs_txnD [OF t, folded M_def] and ad = addrs_okD [OF a]
  have bl: "blkno M as MAXFILE = ind" using ind by (simp add: blkno_def MAXFILE_def)
  then have o: "owns M as ind" using ind ownsI [of MAXFILE M as] by simp
  note oi = ad(2) [OF o] and hi = held [OF o]
  obtain bp s1 where s1: "bread ROOTDEV ind s = Ok (bp, s1)" "fs_txn B (Suc r) s1" "holds s1 bp ind"
      "getdata s1 bp = M ind" "view s1 = (view s)\<lparr>v_held := insert ind (v_held (view s))\<rparr>" "same_params s s1"
      "\<And>j c. holds s j c \<Longrightarrow> holds s1 j c"
    using fs_txn_hold [OF t, of ind] oi hi unfolding M_def by blast
  have v1: "v_blk (view s1) = M" using s1(5) by (simp add: M_def)
  obtain b s2 where b: "balloc ROOTDEV s1 = Ok (b, s2)" "fs_txn (insert b B) r s2" "txn_step s1 s2 (v_blk (view s2))"
      "\<not> used M b" "bitmap_block M < b" "b < l_start s1" "v_blk (view s2) b = replicate BSIZE 0"
      "\<And>c. used (v_blk (view s2)) c \<longleftrightarrow> c = b \<or> used M c"
      "\<And>c. c \<noteq> b \<Longrightarrow> c \<noteq> bitmap_block M \<Longrightarrow> v_blk (view s2) c = M c"
    using balloc_change [OF s1(2)] n(2) v1 unfolding M_def by auto
  let ?M2 = "v_blk (view s2)"
  have m2: "?M2 ind = M ind" "ind \<noteq> b" using b(4) b(9) [of ind] oi by auto
  have len: "length (M ind) = BSIZE" using txn_size [OF d(1), of ind] oi txnD(3) [OF d(1)] by (simp add: M_def)
  have st: "l_start s1 = l_start s" using s1(6) by (simp add: same_params_def)
  note f2 = txn_stepD [OF b(3)]
  have h2: "holds s2 bp ind" using f2(6) s1(3) by blast
  have gd: "getdata s2 bp = M ind" using bc.getdata_law [OF txnD(2) [OF fs_txnD(1) [OF b(2)]] h2] m2 by simp
  have bm2: "bitmap_block ?M2 = bitmap_block M"
    using b(5) b(9) [of 1] fs_metaD(4) [OF d(2)] by (simp add: bitmap_block_def)
  let ?d = "put32 (M ind) (4 * n) b"
  obtain s3 where s3: "log_write bp (setdata bp ?d s2) = Ok s3" "fs_txn (insert b B) r s3"
      "txn_step s2 s3 (?M2(ind := ?d))" "holds s3 = holds s2" "ind \<in> v_pinned (view s3)"
    using fs_txn_put_held [OF b(2) h2, of ?d] oi bm2 f2(3) st ind(3) len by (auto simp: insert_absorb insert_commute)
  have h3: "holds s3 bp ind" using s3(4) h2 by simp
  obtain s' where s': "brelse bp s3 = Ok s'" "fs_txn (insert b B) r s'"
      "view s' = (view s3)\<lparr>v_held := v_held (view s3) - {ind}\<rparr>" "same_params s3 s'"
      "\<And>j c. j \<noteq> bp \<Longrightarrow> holds s3 j c \<Longrightarrow> holds s' j c"
    using fs_txn_release [OF s3(2) h3] s3(5) by blast
  note f3 = txn_stepD [OF s3(3)]
  let ?M = "v_blk (view s')"
  have M': "?M = ?M2(ind := ?d)" using s'(3) f3(1) by simp
  have blk: "blkno ?M as j = (if j = n + NDIRECT then b else blkno M as j)" if "j \<le> MAXFILE" for j
  proof -
    have "blkno ?M as j = blkno (M(ind := ?d)) as j" using ind(1) by (simp add: M' blkno_def)
    moreover have "b < 2 ^ 32" using b(6) st txnD(3) [OF d(1)] by (simp add: FSSIZE_def)
    ultimately show ?thesis using indirect_blkno [of as ind M n b j] ind len n(1) that by simp
  qed
  have pos: "n + NDIRECT \<le> MAXFILE" "blkno M as (n + NDIRECT) = 0"
    using n(1) z ind by (auto simp: blkno_def MAXFILE_def)
  have us: "used ?M c \<longleftrightarrow> c = b \<or> used M c" for c
    using b(8) [of c] oi bm2 fs_metaD(4) [OF d(2)] by (simp add: M')
  have old: "?M c = M c" if "c \<noteq> b" "c \<noteq> bitmap_block M" "c = 0 \<or> c \<noteq> blkno M as MAXFILE" for c
    using that b(9) [of c] bl ind(2) by (auto simp: M')
  have nb: "?M b = replicate BSIZE 0" using b(7) m2(2) by (simp add: M')
  note ch = alloc_change [OF a d(2) b(4,5) b(6)[unfolded st] pos refl blk nb old us]
  have more: "lstate.more s' = lstate.more s"
    using s'(4) s1(6) f2(5) f3(5) by (simp add: same_params_def)
  have hd: "v_held (view s') = v_held (view s)" using s'(3) f3(2) f2(2) s1(5) hi by auto
  have ks: "holds s' j c" if "holds s j c" for j c
  proof -
    have "c \<noteq> ind" using bc.held_law [OF txnD(2) [OF d(1)] that] hi by blast
    then have "j \<noteq> bp" using bc.unique_law [OF txnD(2) [OF fs_txnD(1) [OF s1(2)]] s1(3), of j c] s1(7) [OF that] by auto
    then show ?thesis using s'(5) [of j c] s3(4) f2(6) s1(7) [OF that] by simp
  qed
  have "fs_step s s' ?M (inodes s)"
    using s'(3,4) s3(3) b(3) s1(5,6) hd ks same_inodes [OF more]
    by (auto simp: fs_step_def txn_step_def same_params_def)
  then have "fstep k s s' (fbyte M as)"
    unfolding fstep_def using ch(2) by (intro exI [of _ as]) (simp add: M_def as_def)
  moreover have "c \<notin> v_held (view s)" if "owns ?M as c" for c
    using that ch(2) held [of c] d(5) [of c] unfolding fchange_def by blast
  then have "file_at k s'"
    using ch(1) dev same_inodes(1) [OF more] hd s'(4) f3(3) f2(3) st by (simp add: file_at_def same_params_def as_def)
  moreover have "blkno ?M (i_addrs (inodes s' k)) (n + NDIRECT) = b"
    using blk [OF pos(1)] same_inodes(1) [OF more] by (simp add: as_def)
  moreover have "inodes s1 = inodes s" by (rule same_inodes) (use s1(6) in \<open>simp add: same_params_def\<close>)
  ultimately show ?thesis using s1(1,4) b(1,5) s3(1) gd s'(1,2) ch(3) by auto
qed

lemma bmap_ok:
  assumes t: "fs_txn B (r + 3) s" and k: "file_at k s" and bn: "bn < MAXFILE" and n: "2 \<le> nfree (v_blk (view s))"
  defines "M \<equiv> v_blk (view s)" and "as \<equiv> i_addrs (inodes s k)"
  shows "\<exists>a s'. bmap k bn s = Ok (a, s') \<and> a \<noteq> 0 \<and> fs_txn (insert a B) r s' \<and> file_at k s'
    \<and> fstep k s s' (fbyte M as) \<and> blkno (v_blk (view s')) (i_addrs (inodes s' k)) bn = a
    \<and> nfree M \<le> nfree (v_blk (view s')) + 2 \<and> (blkno M as bn \<noteq> 0 \<longrightarrow> inodes s' = inodes s)"
proof (cases "bn < NDIRECT")
  case True
  have "fs_txn B (Suc (r + 2)) s" using t by (simp add: eval_nat_numeral)
  from addr_or_alloc_ok [OF this k _ less_le_trans [OF _ n], of bn] obtain a s' where
    s': "addr_or_alloc k bn s = Ok (a, s')" "a \<noteq> 0" "fs_txn (insert a B) (r + 2) s'" "file_at k s'"
      "fstep k s s' (fbyte M as)" "blkno (v_blk (view s')) (i_addrs (inodes s' k)) bn = a"
      "nfree M \<le> Suc (nfree (v_blk (view s')))" "as ! bn \<noteq> 0 \<longrightarrow> s' = s"
    using True unfolding M_def as_def by auto
  moreover have "fs_txn (insert a B) r s'"
    using fs_txn_mono [OF s'(3), of r "insert a B"] fs_txnD(8) [OF s'(3)] by simp
  ultimately show ?thesis using True by (auto simp: bmap_def blkno_def)
next
  case False
  define m where "m = bn - NDIRECT"
  have m: "m < NINDIRECT" "bn = m + NDIRECT" using False bn by (auto simp: m_def MAXFILE_def)
  have "fs_txn B (Suc (r + 2)) s" using t by (simp add: eval_nat_numeral)
  from addr_or_alloc_ok [OF this k le_refl less_le_trans [OF _ n]] obtain ind s1 where
    s1: "addr_or_alloc k NDIRECT s = Ok (ind, s1)" "ind \<noteq> 0" "fs_txn (insert ind B) (Suc (Suc r)) s1" "file_at k s1"
      "fstep k s s1 (fbyte M as)" "blkno (v_blk (view s1)) (i_addrs (inodes s1 k)) MAXFILE = ind"
      "nfree M \<le> Suc (nfree (v_blk (view s1)))" "as ! NDIRECT \<noteq> 0 \<longrightarrow> s1 = s"
    unfolding M_def as_def by auto
  let ?M = "v_blk (view s1)" and ?as = "i_addrs (inodes s1 k)" and ?a = "get32 (v_blk (view s1) ind) (4 * m)"
  have ind: "?as ! NDIRECT = ind" using s1(6) by (simp add: blkno_def MAXFILE_def)
  have blk: "blkno ?M ?as bn = ?a" using m ind s1(2) by (simp add: blkno_def MAXFILE_def)
  have dev: "i_dev (inodes s1 k) = ROOTDEV" using s1(4) by (simp add: file_at_def)
  have bytes: "fbyte ?M ?as j = fbyte M as j" if "j < MAXFILE * BSIZE" for j
    using fstepD(3) [OF s1(5) that] .
  have pr: "s1 = s" if "blkno M as bn \<noteq> 0"
    using that m s1(8) by (auto simp: blkno_def MAXFILE_def split: if_splits)
  show ?thesis
  proof (cases "?a = 0")
    case True
    then have new: "blkno M as bn = 0" using pr blk by (auto simp: M_def as_def)
    have "0 < nfree ?M" using s1(7) n by (simp add: M_def)
    from indirect_alloc_ok [OF s1(3,4) m(1) this ind s1(2) insertI1 True] obtain bp s2 b s3 s4 s' where
      s': "bread ROOTDEV ind s1 = Ok (bp, s2)" "getdata s2 bp = ?M ind" "inodes s2 = inodes s1"
        "balloc ROOTDEV s2 = Ok (b, s3)" "log_write bp (setdata bp (put32 (getdata s3 bp) (4 * m) b) s3) = Ok s4"
        "brelse bp s4 = Ok s'" "b \<noteq> 0" "fs_txn (insert b (insert ind B)) r s'" "file_at k s'" "fstep k s1 s' (fbyte ?M ?as)"
        "blkno (v_blk (view s')) (i_addrs (inodes s' k)) (m + NDIRECT) = b" "nfree ?M = Suc (nfree (v_blk (view s')))"
      by blast
    have "bmap k bn s = Ok (b, s')"
      using False m s1(1) s'(1-6) True dev by (simp add: bmap_def)
    moreover have "bitmap_block (v_blk (view s')) \<in> insert b B"
      using fs_txnD(8) [OF t] fstepD(1) [OF s1(5)] fstepD(1) [OF s'(10)] by simp
    then have "fs_txn (insert b B) r s'" using fs_txn_mono [OF s'(8)] by blast
    moreover have "fstep k s s' (fbyte M as)"
      using fstep_cong [OF fstep_trans [OF s1(5) s'(10)] bytes] .
    ultimately show ?thesis using s' s1(7) m(2) new by auto
  next
    case a: False
    have o: "owns ?M ?as ind" using s1(6) s1(2) ownsI [of MAXFILE ?M ?as] by simp
    then have i: "ind < l_start s1" "ind \<notin> v_held (view s1)"
      using s1(4) addrs_okD(2) [of "l_start s1" ?M ?as ind] by (auto simp: file_at_def)
    have t1: "txn (insert ind B) (Suc (Suc r)) s1" using fs_txnD(1) [OF s1(3)] .
    obtain bp s2 s' where s': "bread ROOTDEV ind s1 = Ok (bp, s2)" "getdata s2 bp = ?M ind" "brelse bp s2 = Ok s'"
        "txn (insert ind B) (Suc (Suc r)) s'" "txn_step s1 s' ?M"
      using txn_read [OF t1 _ i(2)] i(1) txnD(3) [OF t1] by auto
    have "bmap k bn s = Ok (?a, s')"
      using False m s1(1) s'(1-3) a dev by (simp add: bmap_def)
    note f = txn_stepD [OF s'(5)]
    have ino: "inodes s' = inodes s1" using same_inodes(1) [OF f(5)] .
    have "fs_txn (insert ind B) (Suc (Suc r)) s'"
      using s1(3) s'(4) f by (simp add: fs_txn_def)
    then have "fs_txn (insert ?a (insert ind B)) (Suc r) s'" by (rule fs_txn_reserve)
    moreover have "bitmap_block ?M \<in> B"
      using fs_txnD(8) [OF t] fstepD(1) [OF s1(5)] by simp
    ultimately have "fs_txn (insert ?a B) r s'"
      using fs_txn_mono [of "insert ?a (insert ind B)" "Suc r" s' r "insert ?a B"] f(1) by auto
    moreover have "file_at k s'" using s1(4) f ino by (simp add: file_at_def)
    moreover have "fstep k s1 s' (fbyte ?M ?as)"
      unfolding fstep_def using fs_stepI [OF s'(5)] f(1) fchange_refl [of ?M ?as] by (intro exI [of _ ?as]) simp
    then have "fstep k s s' (fbyte M as)"
      by (rule fstep_cong [OF fstep_trans [OF s1(5)]]) (rule bytes)
    ultimately show ?thesis
      using \<open>bmap k bn s = Ok (?a, s')\<close> a blk ino f(1) s1(7) pr by auto
  qed
qed

section \<open>Writing to a file\<close>

lemma write_block_ok:
  assumes t: "fs_txn B r s" and k: "file_at k s" and bn: "bn < MAXFILE" and d: "length d = BSIZE"
  defines "M \<equiv> v_blk (view s)" and "as \<equiv> i_addrs (inodes s k)"
  assumes a: "blkno M as bn = a" "a \<noteq> 0" "a \<in> B"
  shows "\<exists>i s1 s2 s'. bread ROOTDEV a s = Ok (i, s1) \<and> getdata s1 i = M a \<and> log_write i (setdata i d s1) = Ok s2
    \<and> brelse i s2 = Ok s' \<and> inodes s1 = inodes s \<and> fs_txn B r s' \<and> file_at k s' \<and> v_blk (view s') = M(a := d)
    \<and> inodes s' = inodes s \<and> nfree (v_blk (view s')) = nfree M
    \<and> fstep k s s' (\<lambda>j. if j div BSIZE = bn then d ! (j mod BSIZE) else fbyte M as j)"
proof -
  have ok: "addrs_ok (l_start s) M as" and dev: "i_dev (inodes s k) = ROOTDEV"
    and held: "\<And>c. owns M as c \<Longrightarrow> c \<notin> v_held (view s)"
    using k by (auto simp: file_at_def M_def as_def)
  note f = fs_txnD [OF t, folded M_def]
  have o: "owns M as a" using a bn ownsI [of bn M as] by simp
  have b: "bitmap_block M < a" "a < l_start s" "a \<noteq> 1" "a \<noteq> bitmap_block M"
    using addrs_okD(2) [OF ok o] fs_metaD(4) [OF f(2)] by auto
  obtain i s1 s2 s' where s': "bread ROOTDEV a s = Ok (i, s1)" "getdata s1 i = M a"
      "log_write i (setdata i d s1) = Ok s2" "brelse i s2 = Ok s'" "txn B r s'"
      "txn_step s s' (M(a := d))" "bstate.more s1 = bstate.more s"
    using txn_update [OF f(1) b(2,3) held [OF o] _ d] a(3) by (auto simp: M_def insert_absorb)
  note u = txn_stepD [OF s'(6)]
  have ino: "inodes s1 = inodes s" "inodes s' = inodes s"
    using same_inodes_b(1) [OF s'(7)] same_inodes(1) [OF u(5)] by auto
  have "blkno M as bn \<noteq> 0" using a by simp
  note ch = write_change [OF ok f(2) bn this, of d, unfolded a(1)]
  have st: "fstep k s s' (\<lambda>j. if j div BSIZE = bn then d ! (j mod BSIZE) else fbyte M as j)"
    unfolding fstep_def using fs_stepI [OF s'(6)] u(1) ch(3) by (intro exI [of _ as]) (simp add: M_def as_def)
  have "c \<notin> v_held (view s)" if "owns (M(a := d)) as c" for c
    using that ch(3) held [of c] f(5) [of c] unfolding fchange_def by blast
  then have "file_at k s'" using ch(1) u ino dev by (simp add: file_at_def as_def)
  moreover have "fs_txn B r s'" using s'(5) u f b fs_meta_upd [of a M] by (simp add: fs_txn_def)
  ultimately show ?thesis using s'(1-4) ino u(1) ch(2) st by auto
qed

lemma file_mod_less: "0 < BSIZE" "x mod BSIZE < BSIZE"
  by (simp_all add: BSIZE_def)

lemma file_at_size:
  assumes "fs_txn B r s" and "file_at k s" and "bn < MAXFILE" and "blkno (v_blk (view s)) (i_addrs (inodes s k)) bn \<noteq> 0"
  shows "length (v_blk (view s) (blkno (v_blk (view s)) (i_addrs (inodes s k)) bn)) = BSIZE"
proof -
  have "owns (v_blk (view s)) (i_addrs (inodes s k)) (blkno (v_blk (view s)) (i_addrs (inodes s k)) bn)"
    using assms(3,4) by (intro ownsI) auto
  then have "blkno (v_blk (view s)) (i_addrs (inodes s k)) bn < l_start s"
    using assms(2) addrs_okD(2) unfolding file_at_def by blast
  then show ?thesis using txn_size [OF fs_txnD(1) [OF assms(1)]] txnD(3) [OF fs_txnD(1) [OF assms(1)]] by simp
qed

text \<open>The bytes of a file after \<open>src\<close> is written at offset \<open>off\<close>.\<close>

definition overwrite :: "(nat \<Rightarrow> byte) \<Rightarrow> nat \<Rightarrow> byte list \<Rightarrow> nat \<Rightarrow> byte" where
  "overwrite f off src j = (if off \<le> j \<and> j < off + length src then src ! (j - off) else f j)"

lemma overwrite_Nil [simp]: "overwrite f off [] = f"
  by (rule ext) (auto simp: overwrite_def)

lemma overwrite_cong: "f j = g j \<Longrightarrow> overwrite f off src j = overwrite g off src j"
  by (simp add: overwrite_def)

lemma overwrite_split: "overwrite (overwrite f off (take c src)) (off + c) (drop c src) = overwrite f off src"
  by (auto simp: overwrite_def fun_eq_iff)

lemma overwrite_block:
  assumes len: "length d = BSIZE" and f: "\<And>i. i < BSIZE \<Longrightarrow> d ! i = f (bn * BSIZE + i)" and o: "o' + length src \<le> BSIZE"
  shows "(if j div BSIZE = bn then splice d o' src ! (j mod BSIZE) else f j) = overwrite f (bn * BSIZE + o') src j"
proof (cases "j div BSIZE = bn")
  case True
  then have j: "j = bn * BSIZE + j mod BSIZE" "j mod BSIZE < BSIZE" using file_mod_less by auto
  have s: "splice d o' src ! (j mod BSIZE) = (if o' \<le> j mod BSIZE \<and> j mod BSIZE < o' + length src
      then src ! (j mod BSIZE - o') else f j)"
    using nth_splice [of o' src d "j mod BSIZE"] o len j f [of "j mod BSIZE"] by simp
  have e: "j - (bn * BSIZE + o') = j mod BSIZE - o'" "(bn * BSIZE + o' \<le> j) = (o' \<le> j mod BSIZE)"
      "(j < bn * BSIZE + o' + length src) = (j mod BSIZE < o' + length src)"
    using j(1) by linarith+
  show ?thesis unfolding overwrite_def e s using True by simp
next
  case False
  have "\<not> (bn * BSIZE + o' \<le> j \<and> j < bn * BSIZE + o' + length src)"
  proof
    assume "bn * BSIZE + o' \<le> j \<and> j < bn * BSIZE + o' + length src"
    then have "bn * BSIZE \<le> j" "j < Suc bn * BSIZE" using o by auto
    then have "j div BSIZE = bn" by (simp add: div_nat_eqI mult.commute)
    with False show False by simp
  qed
  with False show ?thesis by (auto simp: overwrite_def)
qed

lemma chunk_props:
  assumes "c = chunk off n"
  shows "c \<le> n" "off mod BSIZE + c \<le> BSIZE" "c < n \<Longrightarrow> (off + c) mod BSIZE = 0 \<and> off mod BSIZE + c = BSIZE"
proof -
  have m: "off mod BSIZE < BSIZE" by (rule file_mod_less)
  show "c \<le> n" "off mod BSIZE + c \<le> BSIZE" using m by (simp_all add: assms chunk_def)
  assume "c < n"
  then have c: "off mod BSIZE + c = BSIZE" using m by (auto simp: assms chunk_def min_def split: if_splits)
  have "(off + c) mod BSIZE = (off mod BSIZE + c) mod BSIZE" by (simp add: mod_add_left_eq)
  then show "(off + c) mod BSIZE = 0 \<and> off mod BSIZE + c = BSIZE" using c by simp
qed

lemma chunk_block:
  assumes "off \<le> j" "j < off + chunk off n"
  shows "j div BSIZE = off div BSIZE"
proof -
  have "off div BSIZE * BSIZE + off mod BSIZE = off" by simp
  then have "off div BSIZE * BSIZE \<le> j" "j < off div BSIZE * BSIZE + BSIZE"
    using assms chunk_props(2) [of _ off n, OF refl] by linarith+
  then show ?thesis by (intro div_nat_eqI) (simp_all add: mult.commute)
qed

text \<open>One turn of the loop of \<^verbatim>\<open>writei\<close>.\<close>

lemma writei_turn:
  assumes t: "fs_txn B (r + 3) s" and k: "file_at k s" and n: "2 \<le> nfree (v_blk (view s))"
    and src: "src \<noteq> []" and off: "off < MAXFILE * BSIZE"
  defines "c \<equiv> chunk off (length src)" and "f \<equiv> fbyte (v_blk (view s)) (i_addrs (inodes s k))"
  shows "\<exists>s'. writei_loop k off src s = writei_loop k (off + c) (drop c src) s'
    \<and> fs_txn B r s' \<and> file_at k s' \<and> fstep k s s' (overwrite f off (take c src))
    \<and> nfree (v_blk (view s)) \<le> nfree (v_blk (view s')) + 2
    \<and> blkno (v_blk (view s')) (i_addrs (inodes s' k)) (off div BSIZE) \<noteq> 0
    \<and> (blkno (v_blk (view s)) (i_addrs (inodes s k)) (off div BSIZE) \<noteq> 0 \<longrightarrow> inodes s' = inodes s)"
proof -
  let ?bn = "off div BSIZE" and ?o = "off mod BSIZE"
  have bn: "?bn < MAXFILE" using off by (simp add: less_mult_imp_div_less)
  from bmap_ok [OF t k bn n] obtain a s1 where
    s1: "bmap k ?bn s = Ok (a, s1)" "a \<noteq> 0" "fs_txn (insert a B) r s1" "file_at k s1"
      "fstep k s s1 f" "blkno (v_blk (view s1)) (i_addrs (inodes s1 k)) ?bn = a"
      "nfree (v_blk (view s)) \<le> nfree (v_blk (view s1)) + 2"
      "blkno (v_blk (view s)) (i_addrs (inodes s k)) ?bn \<noteq> 0 \<longrightarrow> inodes s1 = inodes s"
    unfolding f_def by blast
  let ?M = "v_blk (view s1)" and ?as = "i_addrs (inodes s1 k)"
  let ?d = "splice (?M a) ?o (take c src)"
  have len: "length (?M a) = BSIZE" using file_at_size [OF s1(3,4) bn] s1(2,6) by simp
  have o: "?o + length (take c src) \<le> BSIZE" using chunk_props(2) [OF c_def [THEN meta_eq_to_obj_eq]] by (simp add: min_def)
  have dev: "i_dev (inodes s1 k) = ROOTDEV" using s1(4) by (simp add: file_at_def)
  have "length ?d = BSIZE" using len o by simp
  from write_block_ok [OF s1(3,4) bn this s1(6,2) insertI1] obtain i s2 s3 s' where
    s': "bread ROOTDEV a s1 = Ok (i, s2)" "getdata s2 i = ?M a" "log_write i (setdata i ?d s2) = Ok s3"
      "brelse i s3 = Ok s'" "inodes s2 = inodes s1" "fs_txn (insert a B) r s'" "file_at k s'" "v_blk (view s') = ?M(a := ?d)"
      "inodes s' = inodes s1" "nfree (v_blk (view s')) = nfree ?M"
      "fstep k s1 s' (\<lambda>j. if j div BSIZE = ?bn then ?d ! (j mod BSIZE) else fbyte ?M ?as j)"
    by blast
  have code: "writei_loop k off src s = writei_loop k (off + c) (drop c src) s'"
    using src s1(1) s'(1-5) dev by (subst writei_loop.simps) (simp add: Let_def c_def)
  have "?M a ! i = fbyte ?M ?as (?bn * BSIZE + i)" if "i < BSIZE" for i
    using that s1(2,6) by (simp add: fbyte_def)
  note ov = overwrite_block [where f = "fbyte ?M ?as", OF len this o]
  have w: "fstep k s1 s' (overwrite (fbyte ?M ?as) off (take c src))"
    by (rule fstep_cong [OF s'(11)]) (use ov in simp)
  have "overwrite (fbyte ?M ?as) off (take c src) j = overwrite f off (take c src) j" if "j < MAXFILE * BSIZE" for j
    using fstepD(3) [OF s1(5) that] by (simp add: overwrite_def)
  then have st: "fstep k s s' (overwrite f off (take c src))"
    using fstep_cong [OF fstep_trans [OF s1(5) w]] by blast
  have "bitmap_block (v_blk (view s')) \<in> B"
    using fs_txnD(8) [OF t] fstepD(1) [OF st] by simp
  then have "fs_txn B r s'" using fs_txn_mono [OF s'(6)] by blast
  moreover have "blkno (v_blk (view s')) (i_addrs (inodes s' k)) ?bn = a"
    using fstepD(4) [OF s'(11), of ?bn] bn s1(2,6) by simp
  ultimately show ?thesis using code s'(7,9,10) st s1(2,7,8) by auto
qed

lemma writei_loop_ok:
  assumes "fs_txn B (r + 3 * m) s" and "file_at k s" and "2 * m \<le> nfree (v_blk (view s))"
    and "src = [] \<or> off mod BSIZE + length src \<le> m * BSIZE" and "off + length src \<le> MAXFILE * BSIZE"
  defines "f \<equiv> fbyte (v_blk (view s)) (i_addrs (inodes s k))"
  shows "\<exists>s'. writei_loop k off src s = Ok s' \<and> fs_txn B r s' \<and> file_at k s' \<and> fstep k s s' (overwrite f off src)
    \<and> (\<forall>j. off \<le> j \<and> j < off + length src \<longrightarrow> blkno (v_blk (view s')) (i_addrs (inodes s' k)) (j div BSIZE) \<noteq> 0)
    \<and> ((\<forall>j. off \<le> j \<and> j < off + length src \<longrightarrow> blkno (v_blk (view s)) (i_addrs (inodes s k)) (j div BSIZE) \<noteq> 0)
       \<longrightarrow> inodes s' = inodes s)"
  unfolding f_def using assms(1-5)
proof (induction m arbitrary: off src s)
  case 0
  then have "src = []" by auto
  then show ?case using 0 fstep_refl [of k s] by (simp add: writei_loop.simps)
next
  case (Suc m)
  show ?case
  proof (cases "src = []")
    case True
    have "fs_txn B r s" using fs_txn_mono [OF Suc.prems(1), of r B] fs_txnD(8) [OF Suc.prems(1)] by simp
    then show ?thesis using True Suc.prems(2) fstep_refl [of k s] by (simp add: writei_loop.simps)
  next
    case False
    define c where "c = chunk off (length src)"
    let ?f = "fbyte (v_blk (view s)) (i_addrs (inodes s k))"
    have t: "fs_txn B ((r + 3 * m) + 3) s" using Suc.prems(1) by (simp add: add.commute add.left_commute)
    have off: "off < MAXFILE * BSIZE" using False Suc.prems(5) by (cases src) auto
    from writei_turn [OF t Suc.prems(2) _ False off] Suc.prems(3) obtain s1 where
      s1: "writei_loop k off src s = writei_loop k (off + c) (drop c src) s1" "fs_txn B (r + 3 * m) s1" "file_at k s1"
        "fstep k s s1 (overwrite ?f off (take c src))" "nfree (v_blk (view s)) \<le> nfree (v_blk (view s1)) + 2"
        "blkno (v_blk (view s1)) (i_addrs (inodes s1 k)) (off div BSIZE) \<noteq> 0"
        "blkno (v_blk (view s)) (i_addrs (inodes s k)) (off div BSIZE) \<noteq> 0 \<longrightarrow> inodes s1 = inodes s"
      by (auto simp: c_def)
    let ?g = "fbyte (v_blk (view s1)) (i_addrs (inodes s1 k))"
    note c = chunk_props [OF c_def]
    have m: "drop c src = [] \<or> (off + c) mod BSIZE + length (drop c src) \<le> m * BSIZE"
      using c(3) Suc.prems(4) False by (cases "c < length src") auto
    have "2 * m \<le> nfree (v_blk (view s1))" "off + c + length (drop c src) \<le> MAXFILE * BSIZE"
      using Suc.prems(3,5) s1(5) c(1) by auto
    from Suc.IH [OF s1(2,3) this(1) m this(2)] obtain s' where
      s': "writei_loop k (off + c) (drop c src) s1 = Ok s'" "fs_txn B r s'" "file_at k s'"
        "fstep k s1 s' (overwrite ?g (off + c) (drop c src))"
        "\<And>j. off + c \<le> j \<Longrightarrow> j < off + length src \<Longrightarrow> blkno (v_blk (view s')) (i_addrs (inodes s' k)) (j div BSIZE) \<noteq> 0"
        "(\<forall>j. off + c \<le> j \<and> j < off + length src \<longrightarrow> blkno (v_blk (view s1)) (i_addrs (inodes s1 k)) (j div BSIZE) \<noteq> 0)
           \<longrightarrow> inodes s' = inodes s1"
      using c(1) by auto
    have "overwrite ?g (off + c) (drop c src) j = overwrite ?f off src j" if "j < MAXFILE * BSIZE" for j
      using overwrite_cong [of ?g j "overwrite ?f off (take c src)"] fstepD(3) [OF s1(4) that] overwrite_split [of ?f off c src]
      by simp
    then have "fstep k s s' (overwrite ?f off src)"
      using fstep_cong [OF fstep_trans [OF s1(4) s'(4)]] by blast
    moreover have "blkno (v_blk (view s')) (i_addrs (inodes s' k)) (j div BSIZE) \<noteq> 0"
      if j: "off \<le> j" "j < off + length src" for j
    proof (cases "j < off + c")
      case True
      have "off div BSIZE \<le> MAXFILE" using off by (simp add: less_mult_imp_div_less order_less_imp_le)
      then show ?thesis
        using fstepD(4) [OF s'(4), of "off div BSIZE"] s1(6) chunk_block [of off j "length src"] j(1) True by (simp add: c_def)
    qed (use s'(5) [of j] j(2) in simp)
    moreover have "inodes s' = inodes s"
      if p: "\<And>j. off \<le> j \<Longrightarrow> j < off + length src \<Longrightarrow> blkno (v_blk (view s)) (i_addrs (inodes s k)) (j div BSIZE) \<noteq> 0"
    proof -
      have "inodes s1 = inodes s" using s1(7) p [of off] False by auto
      moreover have "blkno (v_blk (view s1)) (i_addrs (inodes s1 k)) (j div BSIZE) \<noteq> 0" if "off + c \<le> j" "j < off + length src" for j
        using fstepD(4) [OF s1(4), of "j div BSIZE"] p [of j] that Suc.prems(5)
        by (simp add: less_mult_imp_div_less order_less_imp_le)
      ultimately show ?thesis using s'(6) by auto
    qed
    ultimately show ?thesis using s1(1) s'(1-3) by auto
  qed
qed

end
