(* ===== verification/Fs_File.thy ===== *)
theory Fs_File
  imports Fs_Data
begin

text \<open>
  Files as lists of bytes.  \<^verbatim>\<open>iupdate\<close> writes an inode so that \<^verbatim>\<open>ilock\<close> reads it back and leaves the other
  inodes of its block alone; \<^verbatim>\<open>writei\<close> splices its bytes into the file, \<^verbatim>\<open>readi\<close> returns a piece of it.
\<close>

section \<open>Inodes on the drive\<close>

lemma fold_put32_other:
  shows "(\<And>k. k \<in> set ks \<Longrightarrow> o' + 4 \<le> g k \<or> g k + 4 \<le> o') \<Longrightarrow> get32 (fold (\<lambda>k d. put32 d (g k) (v k)) ks d) o' = get32 d o'"
    and "(\<And>k. k \<in> set ks \<Longrightarrow> o' + 2 \<le> g k \<or> g k + 4 \<le> o') \<Longrightarrow> get16 (fold (\<lambda>k d. put32 d (g k) (v k)) ks d) o' = get16 d o'"
proof -
  assume a: "\<And>k. k \<in> set ks \<Longrightarrow> o' + 4 \<le> g k \<or> g k + 4 \<le> o'"
  have "fold (\<lambda>k d. put32 d (g k) (v k)) ks d \<in> {e. get32 e o' = get32 d o'}"
    by (rule fold_invariant [where Q = "\<lambda>k. k \<in> set ks"]) (use a in \<open>auto simp: disj_commute\<close>)
  then show "get32 (fold (\<lambda>k d. put32 d (g k) (v k)) ks d) o' = get32 d o'" by simp
next
  assume a: "\<And>k. k \<in> set ks \<Longrightarrow> o' + 2 \<le> g k \<or> g k + 4 \<le> o'"
  have "fold (\<lambda>k d. put32 d (g k) (v k)) ks d \<in> {e. get16 e o' = get16 d o'}"
    by (rule fold_invariant [where Q = "\<lambda>k. k \<in> set ks"]) (use a in \<open>auto simp: disj_commute\<close>)
  then show "get16 (fold (\<lambda>k d. put32 d (g k) (v k)) ks d) o' = get16 d o'" by simp
qed

lemma length_fold_put32 [simp]: "length (fold (\<lambda>k d. put32 d (g k) (v k)) ks d) = length d"
  by (induction ks arbitrary: d) simp_all

lemma fold_put32_at:
  assumes "distinct ks" and "k \<in> set ks" and "\<And>i j. i \<noteq> j \<Longrightarrow> g i + 4 \<le> g j \<or> g j + 4 \<le> g i" and "g k + 4 \<le> length d"
  shows "get32 (fold (\<lambda>k d. put32 d (g k) (v k)) ks d) (g k) = u32 (v k)"
  using assms(1,2,4)
proof (induction ks arbitrary: d)
  case (Cons x ks)
  show ?case
  proof (cases "x = k")
    case True
    then have "get32 (fold (\<lambda>k d. put32 d (g k) (v k)) ks (put32 d (g k) (v k))) (g k) = get32 (put32 d (g k) (v k)) (g k)"
      using Cons.prems(1) assms(3) by (intro fold_put32_other) (metis distinct.simps(2))
    then show ?thesis using True Cons.prems(3) by simp
  qed (use Cons in auto)
qed simp

lemma put_addrs_other:
  "o' + 4 \<le> b + 20 \<or> b + 64 \<le> o' \<Longrightarrow> get32 (put_addrs b as d) o' = get32 d o'"
  "o' + 2 \<le> b + 20 \<or> b + 64 \<le> o' \<Longrightarrow> get16 (put_addrs b as d) o' = get16 d o'"
  unfolding put_addrs_def by (rule fold_put32_other; auto simp: NDIRECT_def)+

lemma put_addrs_at:
  assumes "k < NDIRECT + 1" and "b + 64 \<le> length d"
  shows "get32 (put_addrs b as d) (b + 20 + 4 * k) = u32 (as ! k)"
  unfolding put_addrs_def using assms
  by (intro fold_put32_at [where g = "\<lambda>k. b + 20 + 4 * k" and v = "\<lambda>k. as ! k"]) (auto simp: NDIRECT_def)

definition ino_range :: "inode \<Rightarrow> bool" where
  "ino_range ip \<longleftrightarrow> (\<forall>x\<in>{i_type ip, i_major ip, i_minor ip, i_nlink ip}. - (2 ^ 15) \<le> x \<and> x < 2 ^ 15)
     \<and> i_size ip < 2 ^ 32 \<and> i_mode ip < 2 ^ 32 \<and> length (i_addrs ip) = NDIRECT + 1 \<and> (\<forall>a\<in>set (i_addrs ip). a < 2 ^ 32)"

text \<open>The inode on the drive agrees with the cached one, owner and group apart (\<^verbatim>\<open>iupdate\<close> does not write them).\<close>

definition synced :: "(nat \<Rightarrow> byte list) \<Rightarrow> inode \<Rightarrow> bool" where
  "synced M ip \<longleftrightarrow> (let d = get_dinode (M (IBLOCK (i_inum ip))) (i_inum ip) in
     d_type d = i_type ip \<and> d_major d = i_major ip \<and> d_minor d = i_minor ip \<and> d_nlink d = i_nlink ip
     \<and> d_mode d = i_mode ip \<and> d_size d = i_size ip \<and> d_addrs d = i_addrs ip)"

lemma length_store_dinode [simp]: "length (store_dinode ip d) = length d"
  by (simp add: store_dinode_def put_addrs_def Let_def)

lemma s16_mod [simp]: "s16 (u16 x mod 65536) = s16 (u16 x)"
proof -
  have "u16 x < 65536" by (simp add: u16_def nat_less_iff)
  then show ?thesis by simp
qed

lemma store_dinode_get:
  assumes d: "length d = BSIZE" and r: "ino_range ip"
  shows "synced (M(IBLOCK (i_inum ip) := store_dinode ip d)) ip"
proof -
  let ?o = "dinode_off (i_inum ip)"
  have o: "?o + 64 \<le> length d" using dinode_off_bound d by simp
  have as: "map (\<lambda>k. get32 (store_dinode ip d) (?o + 20 + 4 * k)) [0..<NDIRECT + 1] = i_addrs ip"
  proof (rule nth_equalityI)
    show "length (map (\<lambda>k. get32 (store_dinode ip d) (?o + 20 + 4 * k)) [0..<NDIRECT + 1]) = length (i_addrs ip)"
      using r by (simp add: ino_range_def)
    fix k assume "k < length (map (\<lambda>k. get32 (store_dinode ip d) (?o + 20 + 4 * k)) [0..<NDIRECT + 1])"
    then have k: "k < NDIRECT + 1" by simp
    have "i_addrs ip ! k < 2 ^ 32" using r k by (simp add: ino_range_def)
    then show "map (\<lambda>k. get32 (store_dinode ip d) (?o + 20 + 4 * k)) [0..<NDIRECT + 1] ! k = i_addrs ip ! k"
      using k o put_addrs_at [of k ?o] by (simp add: store_dinode_def Let_def del: upt_Suc)
  qed
  have "get16 (store_dinode ip d) ?o = u16 (i_type ip) mod 65536" "get16 (store_dinode ip d) (?o + 2) = u16 (i_major ip) mod 65536"
    "get16 (store_dinode ip d) (?o + 4) = u16 (i_minor ip) mod 65536" "get16 (store_dinode ip d) (?o + 6) = u16 (i_nlink ip) mod 65536"
    "get32 (store_dinode ip d) (?o + 12) = u32 (i_mode ip)" "get32 (store_dinode ip d) (?o + 16) = u32 (i_size ip)"
    using o by (simp_all add: store_dinode_def Let_def put_addrs_other)
  then show ?thesis
    using r as unfolding synced_def get_dinode_def Let_def dinode_off_def [symmetric]
    by (simp add: ino_range_def s16_u16)
qed

lemma store_dinode_other:
  assumes "i mod IPB \<noteq> i_inum ip mod IPB"
  shows "get_dinode (store_dinode ip d) i = get_dinode d i"
proof -
  let ?o = "dinode_off (i_inum ip)" and ?p = "dinode_off i"
  have a: "?o + 64 \<le> ?p \<or> ?p + 64 \<le> ?o" using dinode_off_apart [OF assms] by blast
  have g: "get16 (store_dinode ip d) (?p + j) = get16 d (?p + j)" if "j \<le> 10" for j
    using a that by (auto simp: store_dinode_def Let_def put_addrs_other)
  have h: "get32 (store_dinode ip d) (?p + j) = get32 d (?p + j)" if "j \<le> 60" for j
    using a that by (auto simp: store_dinode_def Let_def put_addrs_other)
  show ?thesis
    unfolding get_dinode_def Let_def dinode_off_def [symmetric]
    using g [of 0] g [of 2] g h by (simp add: NDIRECT_def add.assoc)
qed

text \<open>The block of an inode lies between the super block and the bitmap.\<close>

lemma IBLOCK_below:
  assumes "i < sb_ninodes (decode_sb (M 1))"
  shows "1 < IBLOCK i" "IBLOCK i < bitmap_block M"
proof -
  have "i div IPB \<le> sb_ninodes (decode_sb (M 1)) div IPB" using assms by (intro div_le_mono) simp
  then show "1 < IBLOCK i" "IBLOCK i < bitmap_block M" by (simp_all add: IBLOCK_def bitmap_block_def)
qed

lemma same_IBLOCK: "IBLOCK i = IBLOCK j \<Longrightarrow> i mod IPB = j mod IPB \<Longrightarrow> i = j"
  unfolding IBLOCK_def by (metis add_right_cancel div_mult_mod_eq)

lemma iupdate_ok:
  assumes t: "fs_txn B (Suc r) s" and dev: "i_dev (inodes s k) = ROOTDEV"
    and i: "i_inum (inodes s k) < sb_ninodes (decode_sb (v_blk (view s) 1))"
    and held: "IBLOCK (i_inum (inodes s k)) \<notin> v_held (view s)"
  defines "ib \<equiv> IBLOCK (i_inum (inodes s k))" and "M \<equiv> v_blk (view s)"
  shows "\<exists>s'. iupdate k s = Ok s' \<and> fs_txn B r s' \<and> fs_step s s' (M(ib := store_dinode (inodes s k) (M ib))) (inodes s)"
proof -
  note f = fs_txnD [OF t, folded M_def]
  have b: "1 < ib" "ib < bitmap_block M" using IBLOCK_below [of "i_inum (inodes s k)" M] i by (simp_all add: ib_def M_def)
  then have b': "ib < l_start s" "ib \<noteq> 1" using fs_metaD(3) [OF f(2)] by auto
  have "length (M ib) = BSIZE" using txn_size [OF f(1), of ib] b' txnD(3) [OF f(1)] by (simp add: M_def)
  then have "length (store_dinode (inodes s k) (M ib)) = BSIZE" by simp
  from txn_update [OF f(1) b' _ _ this] held obtain p s1 s2 s3 where
    s3: "bread ROOTDEV ib s = Ok (p, s1)" "getdata s1 p = M ib"
      "log_write p (setdata p (store_dinode (inodes s k) (M ib)) s1) = Ok s2" "brelse p s2 = Ok s3"
      "txn (insert ib B) (if ib \<in> B then Suc r else Suc r - 1) s3"
      "txn_step s s3 (M(ib := store_dinode (inodes s k) (M ib)))" "bstate.more s1 = bstate.more s"
    by (auto simp: M_def ib_def)
  note u = txn_stepD [OF s3(6)]
  have "inodes s1 = inodes s" using same_inodes_b(1) [OF s3(7)] .
  then have "iupdate k s = Ok s3" using s3(1-4) dev by (simp add: iupdate_def ib_def)
  moreover have "txn B r s3" by (rule txn_mono [OF s3(5)]) auto
  then have "fs_txn B r s3" using u f b fs_meta_upd [of ib M] by (simp add: fs_txn_def)
  ultimately show ?thesis using fs_stepI [OF s3(6)] by blast
qed

section \<open>The contents of a file\<close>

definition file_data :: "(nat \<Rightarrow> byte list) \<Rightarrow> inode \<Rightarrow> byte list" where
  "file_data M ip = map (fbyte M (i_addrs ip)) [0..<i_size ip]"

text \<open>Every block up to the end of the file is there: \<^verbatim>\<open>writei\<close> starts inside the file or at its end.\<close>

definition dense :: "(nat \<Rightarrow> byte list) \<Rightarrow> inode \<Rightarrow> bool" where
  "dense M ip \<longleftrightarrow> i_size ip \<le> MAXFILE * BSIZE \<and> (\<forall>j < i_size ip. blkno M (i_addrs ip) (j div BSIZE) \<noteq> 0)"

lemma length_file_data [simp]: "length (file_data M ip) = i_size ip"
  by (simp add: file_data_def)

lemma overwrite_data:
  assumes "off \<le> n"
  shows "map (overwrite f off src) [0..<max n (off + length src)] = splice (map f [0..<n]) off src"
  using assms by (intro nth_equalityI) (auto simp: overwrite_def splice_def nth_append min_def max_def split: if_splits)

text \<open>What depends on the blocks of a file only.\<close>

lemma file_cong:
  assumes "\<And>c. owns M as c \<Longrightarrow> M' c = M c"
  shows "\<And>i. i \<le> MAXFILE \<Longrightarrow> blkno M' as i = blkno M as i" "owns M' as = owns M as"
    "\<And>j. j < MAXFILE * BSIZE \<Longrightarrow> fbyte M' as j = fbyte M as j"
proof -
  have "M' (as ! NDIRECT) = M (as ! NDIRECT)" if "as ! NDIRECT \<noteq> 0"
    using assms [of "as ! NDIRECT"] that ownsI [of MAXFILE M as] by (simp add: blkno_def MAXFILE_def)
  then show blk: "\<And>i. i \<le> MAXFILE \<Longrightarrow> blkno M' as i = blkno M as i" by (simp add: blkno_def)
  then show "owns M' as = owns M as" by (auto simp: owns_def fun_eq_iff)
  show "fbyte M' as j = fbyte M as j" if "j < MAXFILE * BSIZE" for j
  proof -
    have q: "j div BSIZE < MAXFILE" using that by (simp add: less_mult_imp_div_less)
    then show ?thesis
      using blk [of "j div BSIZE"] assms [OF ownsI [of "j div BSIZE" M as]] by (simp add: fbyte_def Let_def)
  qed
qed

section \<open>Reading\<close>

definition file_ready :: "nat \<Rightarrow> 'z istate_scheme \<Rightarrow> bool" where
  "file_ready k s \<longleftrightarrow> bc_inv s \<and> i_dev (inodes s k) = ROOTDEV
     \<and> (\<forall>c. owns (v_blk (view s)) (i_addrs (inodes s k)) c \<longrightarrow> gettable (view s) c)"

definition unseen :: "'z istate_scheme \<Rightarrow> 'z istate_scheme \<Rightarrow> bool" where
  "unseen s s' \<longleftrightarrow> bc_inv s' \<and> view s' = view s \<and> bstate.more s' = bstate.more s"

lemma unseen_trans: "unseen s t \<Longrightarrow> unseen t u \<Longrightarrow> unseen s u"
  by (simp add: unseen_def)

lemma unseen_inodes: "unseen s t \<Longrightarrow> inodes t = inodes s"
  using same_inodes_b by (auto simp: unseen_def)

lemma unseen_ready: "file_ready k s \<Longrightarrow> unseen s t \<Longrightarrow> file_ready k t"
  using unseen_inodes [of s t] by (auto simp: file_ready_def unseen_def)

lemma read_owned:
  assumes "file_ready k s" and "owns (v_blk (view s)) (i_addrs (inodes s k)) c"
  shows "\<exists>i s1 s'. bread ROOTDEV c s = Ok (i, s1) \<and> getdata s1 i = v_blk (view s) c \<and> inodes s1 = inodes s
    \<and> brelse i s1 = Ok s' \<and> unseen s s'"
  using bc.bread_brelse [of s c] assms same_inodes_b(1) unfolding file_ready_def unseen_def by blast

lemma bmap_present:
  assumes r: "file_ready k s" and bn: "bn < MAXFILE"
  defines "a \<equiv> blkno (v_blk (view s)) (i_addrs (inodes s k)) bn"
  assumes a: "a \<noteq> 0"
  shows "\<exists>s'. bmap k bn s = Ok (a, s') \<and> unseen s s'"
proof (cases "bn < NDIRECT")
  case True
  then have "bmap k bn s = Ok (a, s)" using a by (simp add: bmap_def addr_or_alloc_def a_def blkno_def)
  then show ?thesis using r by (auto simp: unseen_def file_ready_def)
next
  case False
  let ?ind = "i_addrs (inodes s k) ! NDIRECT"
  have ind: "?ind \<noteq> 0" "a = get32 (v_blk (view s) ?ind) (4 * (bn - NDIRECT))"
    using False a bn by (auto simp: a_def blkno_def MAXFILE_def split: if_splits)
  then have "owns (v_blk (view s)) (i_addrs (inodes s k)) ?ind"
    using ownsI [of MAXFILE "v_blk (view s)" "i_addrs (inodes s k)"] by (simp add: blkno_def MAXFILE_def)
  from read_owned [OF r this] obtain i s1 s' where "bread ROOTDEV ?ind s = Ok (i, s1)" "getdata s1 i = v_blk (view s) ?ind"
      "brelse i s1 = Ok s'" "unseen s s'"
    by blast
  then show ?thesis
    using False bn ind a r by (auto simp: bmap_def addr_or_alloc_def file_ready_def Let_def MAXFILE_def)
qed

lemma block_bytes:
  assumes "length d = BSIZE" and "\<And>i. i < BSIZE \<Longrightarrow> d ! i = f (off div BSIZE * BSIZE + i)"
  shows "take (chunk off n) (drop (off mod BSIZE) d) = map f [off..<off + chunk off n]"
proof (rule nth_equalityI)
  have c: "off mod BSIZE + chunk off n \<le> BSIZE" by (rule chunk_props) simp
  then show "length (take (chunk off n) (drop (off mod BSIZE) d)) = length (map f [off..<off + chunk off n])"
    using assms(1) by simp
  fix i assume "i < length (take (chunk off n) (drop (off mod BSIZE) d))"
  then have i: "i < chunk off n" by simp
  have "off div BSIZE * BSIZE + (off mod BSIZE + i) = off + i" by (simp flip: add.assoc)
  then show "take (chunk off n) (drop (off mod BSIZE) d) ! i = map f [off..<off + chunk off n] ! i"
    using i c assms(1) assms(2) [of "off mod BSIZE + i"] by simp
qed

lemma readi_loop_ok:
  assumes "file_ready k s" and "off + n \<le> MAXFILE * BSIZE"
    and "\<And>j. off \<le> j \<Longrightarrow> j < off + n \<Longrightarrow> blkno (v_blk (view s)) (i_addrs (inodes s k)) (j div BSIZE) \<noteq> 0"
  shows "\<exists>s'. readi_loop k off n s = Ok (map (fbyte (v_blk (view s)) (i_addrs (inodes s k))) [off..<off + n], s') \<and> unseen s s'"
  using assms
proof (induction n arbitrary: off s rule: less_induct)
  case (less n)
  let ?M = "v_blk (view s)" and ?as = "i_addrs (inodes s k)" and ?bn = "off div BSIZE"
  show ?case
  proof (cases "n = 0")
    case True
    then show ?thesis using less.prems(1) by (auto simp: readi_loop.simps unseen_def file_ready_def)
  next
    case False
    define c where "c = chunk off n"
    have c: "0 < c" "c \<le> n" using chunk_pos [OF False] chunk_le by (simp_all add: c_def)
    have bn: "?bn < MAXFILE" using less.prems(2) False by (simp add: less_mult_imp_div_less)
    have nz: "blkno ?M ?as ?bn \<noteq> 0" using less.prems(3) [of off] False by simp
    obtain s1 where s1: "bmap k ?bn s = Ok (blkno ?M ?as ?bn, s1)" "unseen s s1"
      using bmap_present [OF less.prems(1) bn nz] by blast
    have i1: "inodes s1 = inodes s" "view s1 = view s" using unseen_inodes [OF s1(2)] s1(2) by (auto simp: unseen_def)
    have o: "owns ?M ?as (blkno ?M ?as ?bn)" using bn nz by (intro ownsI) auto
    from read_owned [OF unseen_ready [OF less.prems(1) s1(2)], of "blkno ?M ?as ?bn"] obtain i s2 s3 where
      s3: "bread ROOTDEV (blkno ?M ?as ?bn) s1 = Ok (i, s2)" "getdata s2 i = ?M (blkno ?M ?as ?bn)"
        "brelse i s2 = Ok s3" "unseen s1 s3"
      using o i1 by auto
    have u: "unseen s s3" using unseen_trans [OF s1(2) s3(4)] .
    then have i3: "inodes s3 = inodes s" "view s3 = view s" using unseen_inodes [OF u] by (auto simp: unseen_def)
    have "n - c < n" "off + c + (n - c) \<le> MAXFILE * BSIZE" using c less.prems(2) by auto
    from less.IH [OF this(1) unseen_ready [OF less.prems(1) u] this(2)] obtain s' where
      s': "readi_loop k (off + c) (n - c) s3 = Ok (map (fbyte ?M ?as) [off + c..<off + n], s')" "unseen s3 s'"
      using less.prems(3) i3 c by auto
    have "length (?M (blkno ?M ?as ?bn)) = BSIZE"
      using bc.size_law [of s] less.prems(1) o by (auto simp: file_ready_def gettable_def)
    then have "take c (drop (off mod BSIZE) (?M (blkno ?M ?as ?bn))) = map (fbyte ?M ?as) [off..<off + c]"
      unfolding c_def using nz file_mod_less(1) by (intro block_bytes) (simp_all add: fbyte_def)
    moreover have "[off..<off + n] = [off..<off + c] @ [off + c..<off + n]"
      using upt_add_eq_append [of off "off + c" "n - c"] c by simp
    moreover have "i_dev (inodes s1 k) = ROOTDEV" using less.prems(1) i1 by (simp add: file_ready_def)
    ultimately have "readi_loop k off n s = Ok (map (fbyte ?M ?as) [off..<off + n], s')"
      using False s1(1) s3(1-3) s'(1) by (subst readi_loop.simps) (simp add: Let_def c_def)
    then show ?thesis using unseen_trans [OF u s'(2)] by blast
  qed
qed

section \<open>Writing\<close>

abbreviation (input) blks :: "'z bstate_scheme \<Rightarrow> nat \<Rightarrow> byte list" where
  "blks s \<equiv> v_blk (view s)"

definition ninodes_of :: "(nat \<Rightarrow> byte list) \<Rightarrow> nat" where
  "ninodes_of M = sb_ninodes (decode_sb (M 1))"

text \<open>A cached inode of a file that agrees with the drive and whose blocks are in order.\<close>

definition wf_file :: "nat \<Rightarrow> 'z istate_scheme \<Rightarrow> bool" where
  "wf_file k s \<longleftrightarrow> file_at k s \<and> dense (blks s) (inodes s k) \<and> synced (blks s) (inodes s k) \<and> ino_range (inodes s k)
     \<and> i_inum (inodes s k) < ninodes_of (blks s) \<and> IBLOCK (i_inum (inodes s k)) \<notin> v_held (view s)"

text \<open>Another file: its blocks are in order and none of them belongs to the first one.\<close>

definition other_file :: "nat \<Rightarrow> inode \<Rightarrow> 'z istate_scheme \<Rightarrow> bool" where
  "other_file k jp s \<longleftrightarrow> addrs_ok (l_start s) (blks s) (i_addrs jp) \<and> i_size jp \<le> MAXFILE * BSIZE
     \<and> (\<forall>c. owns (blks s) (i_addrs jp) c \<longrightarrow> \<not> owns (blks s) (i_addrs (inodes s k)) c)"

text \<open>A change of the file's contents, and then of the block of its inode.\<close>

definition fstep' :: "nat \<Rightarrow> 'z istate_scheme \<Rightarrow> 'z istate_scheme \<Rightarrow> (nat \<Rightarrow> byte) \<Rightarrow> bool" where
  "fstep' k s s' f \<longleftrightarrow> (\<exists>s1. fstep k s s1 f \<and> file_at k s1 \<and> l_start s' = l_start s1 \<and> v_held (view s') = v_held (view s1)
     \<and> i_addrs (inodes s' k) = i_addrs (inodes s1 k) \<and> i_dev (inodes s' k) = i_dev (inodes s1 k)
     \<and> (\<forall>c. c \<noteq> IBLOCK (i_inum (inodes s k)) \<longrightarrow> blks s' c = blks s1 c))"

lemma fstep'_D:
  assumes t: "fs_txn B r s" and k: "file_at k s" and st: "fstep' k s s' f"
    and i: "i_inum (inodes s k) < ninodes_of (blks s)"
  shows "file_at k s'" "\<And>j. j < MAXFILE * BSIZE \<Longrightarrow> fbyte (blks s') (i_addrs (inodes s' k)) j = f j"
    "other_file k jp s \<Longrightarrow> other_file k jp s' \<and> file_data (blks s') jp = file_data (blks s) jp"
    "\<And>j. j \<le> MAXFILE \<Longrightarrow> blkno (blks s) (i_addrs (inodes s k)) j \<noteq> 0 \<Longrightarrow>
       blkno (blks s') (i_addrs (inodes s' k)) j = blkno (blks s) (i_addrs (inodes s k)) j"
    "blks s' 1 = blks s 1"
proof -
  let ?ib = "IBLOCK (i_inum (inodes s k))" and ?M = "blks s" and ?as = "i_addrs (inodes s k)" and ?as' = "i_addrs (inodes s' k)"
  obtain s1 where s1: "fstep k s s1 f" "file_at k s1" "l_start s' = l_start s1" "v_held (view s') = v_held (view s1)"
      "?as' = i_addrs (inodes s1 k)" "i_dev (inodes s' k) = i_dev (inodes s1 k)"
      "\<And>c. c \<noteq> ?ib \<Longrightarrow> blks s' c = blks s1 c"
    using st unfolding fstep'_def by blast
  note f = fstepD [OF s1(1)] and m = fs_txnD(2) [OF t]
  have ib: "1 < ?ib" "?ib < bitmap_block ?M" using IBLOCK_below [of "i_inum (inodes s k)" ?M] i by (auto simp: ninodes_of_def)
  have ls: "l_start s1 = l_start s" using fs_stepD(4) [OF f(9)] .
  have ok: "addrs_ok (l_start s) ?M ?as" "addrs_ok (l_start s) (blks s1) ?as'" using k s1 ls by (auto simp: file_at_def)
  have bm: "bitmap_block (blks s') = bitmap_block ?M" "blks s' 1 = ?M 1"
    using s1(7) [of 1] ib f(1,2) by (simp_all add: bitmap_block_def)
  then show "blks s' 1 = blks s 1" by simp
  have used': "used (blks s') = used (blks s1)"
    using s1(7) [of "bitmap_block ?M"] ib bm f(1) by (simp add: used_def fun_eq_iff)
  have same: "blks s' c = blks s1 c" if "bitmap_block ?M < c" for c using s1(7) [of c] that ib by auto
  have fc1: "\<And>c. owns (blks s1) ?as' c \<Longrightarrow> blks s' c = blks s1 c"
    using addrs_okD(2) [OF ok(2)] f(1) same by auto
  note fc = file_cong [of "blks s1" ?as' "blks s'", OF fc1]
  show "file_at k s'"
    using s1 ls fc bm f(1) unfolding file_at_def addrs_ok_def used' by simp
  show "\<And>j. j < MAXFILE * BSIZE \<Longrightarrow> fbyte (blks s') ?as' j = f j" using fc(3) f(3) s1(5) by simp
  show "\<And>j. j \<le> MAXFILE \<Longrightarrow> blkno ?M ?as j \<noteq> 0 \<Longrightarrow> blkno (blks s') ?as' j = blkno ?M ?as j"
    using fc(1) f(4) s1(5) by simp
  assume o: "other_file k jp s"
  let ?bs = "i_addrs jp"
  have b: "addrs_ok (l_start s) ?M ?bs" "\<And>c. owns ?M ?bs c \<Longrightarrow> \<not> owns ?M ?as c" using o by (auto simp: other_file_def)
  note bd = addrs_okD(2) [OF b(1)]
  have "blks s' c = ?M c" if "owns ?M ?bs c" for c
    using same [of c] f(7) [of c] bd [OF that] b(2) [OF that] by auto
  note fb = file_cong [of ?M ?bs "blks s'", OF this]
  have "\<not> owns (blks s') ?as' c" if "owns ?M ?bs c" for c
    using f(5) [of c] fc(2) s1(5) bd [OF that] b(2) [OF that] by auto
  moreover have "used (blks s') c" if "used ?M c" for c using that f(6) used' by simp
  ultimately show "other_file k jp s' \<and> file_data (blks s') jp = file_data (blks s) jp"
    using o fb s1(3) ls bm b(1) by (auto simp: other_file_def addrs_ok_def file_data_def)
qed

lemma addrs_range:
  assumes "addrs_ok start M as" and "start < FSSIZE"
  shows "\<forall>a\<in>set as. a < 2 ^ 32"
proof
  fix a assume "a \<in> set as"
  then obtain i where i: "i \<le> NDIRECT" "as ! i = a"
    using addrs_okD(1) [OF assms(1)] by (auto simp: in_set_conv_nth less_Suc_eq_le)
  then have "a = 0 \<or> owns M as a" using slot_blkno [OF i(1), of M as] by (auto simp: owns_def)
  then show "a < 2 ^ 32" using addrs_okD(2) [OF assms(1), of a] assms(2) by (auto simp: FSSIZE_def)
qed

lemma iblocks_kept:
  assumes t: "fs_txn B r s" and k: "file_at k s" and st: "fstep k s s1 f" and i: "i < ninodes_of (blks s)"
  shows "blks s1 (IBLOCK i) = blks s (IBLOCK i)"
proof -
  have b: "1 < IBLOCK i" "IBLOCK i < bitmap_block (blks s)" using IBLOCK_below [of i "blks s"] i by (auto simp: ninodes_of_def)
  then have "used (blks s) (IBLOCK i)"
    using fs_metaD(1,3) [OF fs_txnD(2) [OF t]] fs_txnD(2) [OF t] by (auto simp: fs_meta_def Let_def)
  moreover have "\<not> owns (blks s) (i_addrs (inodes s k)) (IBLOCK i)"
    using b addrs_okD(2) [of "l_start s" "blks s" "i_addrs (inodes s k)" "IBLOCK i"] k by (auto simp: file_at_def)
  ultimately show ?thesis using fstepD(7) [OF st, of "IBLOCK i"] b by auto
qed

lemma writei_run:
  assumes t: "fs_txn B (r + 3 * m + 1) s" and w: "wf_file k s" and n: "2 * m \<le> nfree (blks s)"
    and off: "off \<le> i_size (inodes s k)" "off + length src \<le> MAXFILE * BSIZE"
    and m: "src = [] \<or> off mod BSIZE + length src \<le> m * BSIZE" and ty: "i_type (inodes s k) \<noteq> T_DEV"
  defines "ip \<equiv> inodes s k" and "f \<equiv> overwrite (fbyte (blks s) (i_addrs (inodes s k))) off src"
  shows "\<exists>s' as'. writei devsw k src off s = Ok (int (length src), s') \<and> fs_txn B r s' \<and> fstep' k s s' f
    \<and> inodes s' = (inodes s)(k := ip\<lparr>i_addrs := as', i_size := max (i_size ip) (off + length src)\<rparr>) \<and> synced (blks s') (inodes s' k)
    \<and> v_held (view s') = v_held (view s)
    \<and> (\<forall>j. off \<le> j \<and> j < off + length src \<longrightarrow> blkno (blks s') (i_addrs (inodes s' k)) (j div BSIZE) \<noteq> 0)
    \<and> (\<forall>i < ninodes_of (blks s). i \<noteq> i_inum ip \<longrightarrow> get_dinode (blks s' (IBLOCK i)) i = get_dinode (blks s (IBLOCK i)) i)"
proof -
  have w': "file_at k s" "dense (blks s) ip" "synced (blks s) ip" "ino_range ip" "i_inum ip < ninodes_of (blks s)"
      "IBLOCK (i_inum ip) \<notin> v_held (view s)"
    using w by (simp_all add: wf_file_def ip_def)
  let ?ib = "IBLOCK (i_inum ip)"
  have t': "fs_txn B (Suc r + 3 * m) s" using t by (simp add: add.commute add.left_commute)
  from writei_loop_ok [OF t' w'(1) n m off(2)] obtain s1 where
    s1: "writei_loop k off src s = Ok s1" "fs_txn B (Suc r) s1" "file_at k s1" "fstep k s s1 f"
      "\<And>j. off \<le> j \<Longrightarrow> j < off + length src \<Longrightarrow> blkno (blks s1) (i_addrs (inodes s1 k)) (j div BSIZE) \<noteq> 0"
      "(\<forall>j. off \<le> j \<and> j < off + length src \<longrightarrow> blkno (blks s) (i_addrs ip) (j div BSIZE) \<noteq> 0) \<longrightarrow> inodes s1 = inodes s"
    by (auto simp: f_def ip_def)
  note st = fstepD [OF s1(4)]
  let ?as = "i_addrs (inodes s1 k)"
  have ip1: "inodes s1 k = ip\<lparr>i_addrs := ?as\<rparr>" using st(8) by (metis fun_upd_same ip_def)
  have sz: "i_size (inodes s1 k) = i_size ip" by (subst ip1) simp
  have hd: "v_held (view s1) = v_held (view s)" using fs_stepD(3) [OF st(9)] .
  have u: "u32 (off + length src) = off + length src"
    using off(2) by (simp add: MAXFILE_def NDIRECT_def NINDIRECT_def BSIZE_def)
  note ibk = iblocks_kept [OF t w'(1) s1(4)]
  show ?thesis
  proof (cases "src \<noteq> [] \<and> i_size ip < off + length src")
    case False
    then have mx: "max (i_size ip) (off + length src) = i_size ip" using off(1) by (auto simp: ip_def)
    have "inodes s1 = inodes s"
      using s1(6) w'(2) False by (auto simp: dense_def)
    moreover have "writei devsw k src off s = Ok (int (length src), s1)"
      using s1(1) False ty off u sz by (auto simp: writei_def Let_def ip_def)
    moreover have "synced (blks s1) ip" using w'(3,5) ibk by (simp add: synced_def)
    moreover have "fstep' k s s1 f" using s1(3,4) unfolding fstep'_def by blast
    moreover have "fs_txn B r s1" using fs_txn_mono [OF s1(2), of r B] fs_txnD(8) [OF s1(2)] by simp
    ultimately show ?thesis using s1(5) hd mx ibk by (intro exI [of _ s1] exI [of _ "i_addrs ip"]) (auto simp: ip_def)
  next
    case True
    let ?ip = "ip\<lparr>i_addrs := ?as, i_size := off + length src\<rparr>"
    define s2 where "s2 = setinode k ?ip s1"
    have "inodes s1 j = inodes s j" if "j \<noteq> k" for j using st(8) that by (metis fun_upd_other)
    then have all2: "inodes s2 = (inodes s)(k := ?ip)" by (auto simp: s2_def)
    have i2: "inodes s2 k = ?ip" "view s2 = view s1" by (simp_all add: s2_def)
    have "fs_txn B (Suc r) s2" using s1(2) by (simp add: s2_def)
    moreover have "i_dev ip = ROOTDEV" using w'(1) by (simp add: file_at_def ip_def)
    ultimately obtain s' where s': "iupdate k s2 = Ok s'" "fs_txn B r s'"
        "fs_step s2 s' ((blks s1)(?ib := store_dinode ?ip (blks s1 ?ib))) (inodes s2)"
      using iupdate_ok [of B r s2 k] w'(5,6) i2 hd st(2) by (auto simp: ninodes_of_def)
    note g = fs_stepD [OF s'(3)]
    have "writei devsw k src off s = Ok (int (length src), s')"
      using s1(1) True ty off u ip1 sz s'(1) by (auto simp: writei_def Let_def ip_def s2_def)
    moreover have "fstep' k s s' f"
      unfolding fstep'_def using s1(3,4) g i2 ip1 by (intro exI [of _ s1]) (auto simp: ip_def s2_def)
    moreover have rng: "ino_range ?ip"
      using w'(4) s1(3) off(2) addrs_range [of "l_start s1" "blks s1" ?as] txnD(3) [OF fs_txnD(1) [OF s1(2)]]
        addrs_okD(1) [of "l_start s1" "blks s1" ?as]
      by (auto simp: ino_range_def file_at_def MAXFILE_def NDIRECT_def NINDIRECT_def BSIZE_def)
    have len: "length (blks s1 ?ib) = BSIZE"
    proof (rule txn_size [OF fs_txnD(1) [OF s1(2)]])
      show "?ib < FSSIZE" using IBLOCK_below(2) [of "i_inum ip" "blks s"] w'(5) fs_txnD(7) [OF t] by (simp add: ninodes_of_def)
    qed
    have "synced (blks s') ?ip"
      using store_dinode_get [OF len rng, of "blks s1"] g(1) by simp
    moreover have "get_dinode (blks s' (IBLOCK i)) i = get_dinode (blks s (IBLOCK i)) i"
      if i: "i < ninodes_of (blks s)" "i \<noteq> i_inum ip" for i
    proof (cases "IBLOCK i = ?ib")
      case True
      then have "i mod IPB \<noteq> i_inum ip mod IPB" using same_IBLOCK i(2) by blast
      then show ?thesis using store_dinode_other [of i ?ip] True ibk [OF i(1)] g(1) by simp
    qed (use ibk [OF i(1)] g(1) in simp)
    moreover have "blkno (blks s') ?as (j div BSIZE) \<noteq> 0" if j: "off \<le> j" "j < off + length src" for j
    proof -
      have "blks s' c = blks s1 c" if "owns (blks s1) ?as c" for c
        using that s1(3) addrs_okD(2) [of "l_start s1" "blks s1" ?as c] IBLOCK_below(2) [of "i_inum ip" "blks s"] w'(5) st(1) g(1)
        by (auto simp: file_at_def ninodes_of_def)
      then have "blkno (blks s') ?as (j div BSIZE) = blkno (blks s1) ?as (j div BSIZE)"
        using j off(2) by (intro file_cong) (auto intro!: less_imp_le simp: less_mult_imp_div_less)
      then show ?thesis using s1(5) [OF j] by simp
    qed
    ultimately show ?thesis
      using s'(2) g(2,3) i2 all2 hd True by (intro exI [of _ s'] exI [of _ ?as]) (auto simp: max_def)
  qed
qed

lemma writei_data:
  assumes t: "fs_txn B (r + 3 * m + 1) s" and w: "wf_file k s" and n: "2 * m \<le> nfree (blks s)"
    and off: "off \<le> i_size (inodes s k)" "off + length src \<le> MAXFILE * BSIZE"
    and m: "src = [] \<or> off mod BSIZE + length src \<le> m * BSIZE" and ty: "i_type (inodes s k) \<noteq> T_DEV"
  shows "\<exists>s'. writei devsw k src off s = Ok (int (length src), s') \<and> fs_txn B r s' \<and> wf_file k s'
    \<and> (\<exists>as'. inodes s' = (inodes s)(k := (inodes s k)\<lparr>i_addrs := as', i_size := max (i_size (inodes s k)) (off + length src)\<rparr>))
    \<and> file_data (blks s') (inodes s' k) = splice (file_data (blks s) (inodes s k)) off src
    \<and> (\<forall>jp. other_file k jp s \<longrightarrow> other_file k jp s' \<and> file_data (blks s') jp = file_data (blks s) jp)
    \<and> (\<forall>i < ninodes_of (blks s). i \<noteq> i_inum (inodes s k) \<longrightarrow> get_dinode (blks s' (IBLOCK i)) i = get_dinode (blks s (IBLOCK i)) i)"
proof -
  let ?ip = "inodes s k" and ?f = "overwrite (fbyte (blks s) (i_addrs (inodes s k))) off src"
  have w': "file_at k s" "dense (blks s) ?ip" "ino_range ?ip" "i_inum ?ip < ninodes_of (blks s)" "IBLOCK (i_inum ?ip) \<notin> v_held (view s)"
    using w by (simp_all add: wf_file_def)
  from writei_run [OF assms] obtain s' as' where
    s': "writei devsw k src off s = Ok (int (length src), s')" "fs_txn B r s'" "fstep' k s s' ?f"
      "inodes s' = (inodes s)(k := ?ip\<lparr>i_addrs := as', i_size := max (i_size ?ip) (off + length src)\<rparr>)"
      "synced (blks s') (inodes s' k)" "v_held (view s') = v_held (view s)"
      "\<And>j. off \<le> j \<Longrightarrow> j < off + length src \<Longrightarrow> blkno (blks s') (i_addrs (inodes s' k)) (j div BSIZE) \<noteq> 0"
      "\<And>i. i < ninodes_of (blks s) \<Longrightarrow> i \<noteq> i_inum ?ip \<Longrightarrow> get_dinode (blks s' (IBLOCK i)) i = get_dinode (blks s (IBLOCK i)) i"
    by blast
  note d = fstep'_D [OF t w'(1) s'(3) w'(4)]
  let ?sz = "max (i_size ?ip) (off + length src)"
  have sz: "?sz \<le> MAXFILE * BSIZE" using w'(2) off(2) by (simp add: dense_def)
  have "file_data (blks s') (inodes s' k) = map ?f [0..<?sz]"
    using d(2) sz s'(4) by (auto simp: file_data_def)
  then have data: "file_data (blks s') (inodes s' k) = splice (file_data (blks s) ?ip) off src"
    using overwrite_data [OF off(1), of "fbyte (blks s) (i_addrs ?ip)" src] by (simp add: file_data_def)
  have "blkno (blks s') (i_addrs (inodes s' k)) (j div BSIZE) \<noteq> 0" if "j < ?sz" for j
  proof (cases "j < i_size ?ip")
    case True
    then have "j < MAXFILE * BSIZE" using sz by auto
    then have "j div BSIZE \<le> MAXFILE" by (simp add: less_mult_imp_div_less order_less_imp_le)
    then show ?thesis using d(4) [of "j div BSIZE"] w'(2) True by (auto simp: dense_def)
  qed (use s'(7) [of j] that off(1) in auto)
  then have "dense (blks s') (inodes s' k)" using sz s'(4) by (simp add: dense_def)
  moreover have "ino_range (inodes s' k)"
    using w'(3) s'(4) d(1) sz addrs_range [of "l_start s'" "blks s'" "i_addrs (inodes s' k)"] txnD(3) [OF fs_txnD(1) [OF s'(2)]]
      addrs_okD(1) [of "l_start s'" "blks s'" "i_addrs (inodes s' k)"]
    by (auto simp: ino_range_def file_at_def MAXFILE_def NDIRECT_def NINDIRECT_def BSIZE_def)
  ultimately have "wf_file k s'"
    using d(1,5) s'(4,5,6) w'(4,5) by (simp add: wf_file_def ninodes_of_def)
  then show ?thesis using s'(1,2,4,8) data d(3) by blast
qed

lemma readi_data:
  assumes r: "file_ready k s" and d: "dense (blks s) (inodes s k)" and ty: "i_type (inodes s k) \<noteq> T_DEV"
    and off: "off \<le> i_size (inodes s k)" "off + n < 2 ^ 32"
  defines "out \<equiv> take n (drop off (file_data (blks s) (inodes s k)))"
  shows "\<exists>s'. readi devsw k off n s = Ok (int (length out), out, s') \<and> unseen s s'"
proof -
  let ?ip = "inodes s k" and ?f = "fbyte (blks s) (i_addrs (inodes s k))"
  define c where "c = (if i_size ?ip < off + n then i_size ?ip - off else n)"
  have c: "off + c \<le> i_size ?ip" "c = min n (i_size ?ip - off)" using off(1) by (auto simp: c_def)
  have out: "out = map ?f [off..<off + c]"
    using c by (intro nth_equalityI) (auto simp: out_def file_data_def)
  have "off + c \<le> MAXFILE * BSIZE" using d c(1) by (simp add: dense_def)
  then obtain s' where s': "readi_loop k off c s = Ok (out, s')" "unseen s s'"
    using readi_loop_ok [OF r, of off c] d c(1) out by (auto simp: dense_def)
  have "readi devsw k off n s = Ok (int c, out, s')"
    using s'(1) ty off by (simp add: readi_def Let_def c_def)
  then show ?thesis using s'(2) out by auto
qed

lemma wf_file_ready:
  assumes "fs_txn B r s" and "wf_file k s"
  shows "file_ready k s"
proof -
  note t = fs_txnD(1) [OF assms(1)]
  have "gettable (view s) c" if "owns (blks s) (i_addrs (inodes s k)) c" for c
    using that assms(2) addrs_okD(2) [of "l_start s" "blks s" "i_addrs (inodes s k)" c] txnD(3) [OF t]
    by (intro txn_gettable [OF t]) (auto simp: wf_file_def file_at_def)
  then show ?thesis using assms(2) txnD(2) [OF t] by (simp add: file_ready_def wf_file_def file_at_def)
qed

section \<open>A drive with an empty file or directory\<close>

definition demo_ip :: "int \<Rightarrow> inode" where
  "demo_ip ty = \<lparr>i_dev = ROOTDEV, i_inum = 1, i_ref = 1, i_busy = True, i_valid = True, i_type = ty, i_major = 0,
     i_minor = 0, i_nlink = 1, i_ownerid = 0, i_groupid = 0, i_mode = 0, i_size = 0, i_addrs = replicate 11 0\<rparr>"

definition demo_file_disk :: "int \<Rightarrow> nat \<Rightarrow> byte list" where
  "demo_file_disk ty = demo_fs(2 := store_dinode (demo_ip ty) (replicate BSIZE 0))"

definition with_inode :: "int \<Rightarrow> lstate \<Rightarrow> istate" where
  "with_inode ty s = lstate.extend s \<lparr>inodes = (\<lambda>_. demo_ip ty)\<rparr>"

lemma with_inode_sel [simp]:
  "inodes (with_inode ty s) k = demo_ip ty" "view (with_inode ty s) = view s" "fs_txn B r (with_inode ty s) = fs_txn B r s"
  "l_start (with_inode ty s) = l_start s"
proof -
  have f: "l_start (with_inode ty s) = l_start s" "l_size (with_inode ty s) = l_size s" "l_dev (with_inode ty s) = l_dev s"
      "l_outstanding (with_inode ty s) = l_outstanding s" "lh_n (with_inode ty s) = lh_n s" "lh_block (with_inode ty s) = lh_block s"
      "inodes (with_inode ty s) k = demo_ip ty" "bstate.truncate (with_inode ty s) = bstate.truncate s"
    by (simp_all add: with_inode_def lstate.extend_def bstate.truncate_def)
  note c = same_cache [OF f(8)]
  have "logged (with_inode ty s) = logged s" using f by (simp add: logged_def)
  then show "fs_txn B r (with_inode ty s) = fs_txn B r s"
    using f c by (simp add: fs_txn_def txn_def log_live_def log_geom_def)
  show "inodes (with_inode ty s) k = demo_ip ty" "view (with_inode ty s) = view s" "l_start (with_inode ty s) = l_start s"
    using f c by simp_all
qed

lemma demo_ip_ok: "ty = T_FILE \<or> ty = T_DIR \<Longrightarrow> ino_range (demo_ip ty)"
  "owns M (i_addrs (demo_ip ty)) c \<longleftrightarrow> False" "addrs_ok start M (i_addrs (demo_ip ty))"
proof -
  have blk: "blkno M (i_addrs (demo_ip ty)) i = 0" for i by (auto simp: blkno_def demo_ip_def NDIRECT_def nth_replicate nth_Cons')
  then show o: "\<And>c. owns M (i_addrs (demo_ip ty)) c \<longleftrightarrow> False" by (auto simp: owns_def)
  show "addrs_ok start M (i_addrs (demo_ip ty))" unfolding addrs_ok_def o blk by (simp add: demo_ip_def NDIRECT_def)
  show "ino_range (demo_ip ty)" if "ty = T_FILE \<or> ty = T_DIR"
    using that by (auto simp: ino_range_def demo_ip_def T_FILE_def T_DIR_def NDIRECT_def)
qed

lemma demo_file:
  assumes ty: "ty = T_FILE \<or> ty = T_DIR"
  shows "\<exists>s :: istate. fs_txn {28} 6 s \<and> wf_file 0 s \<and> 2 \<le> nfree (blks s) \<and> inodes s = (\<lambda>_. demo_ip ty)"
proof -
  have len: "\<forall>b < FSSIZE. length (demo_file_disk ty b) = BSIZE"
    using demo_fs_bitmap(1) demo_sb by (auto simp: demo_file_disk_def demo_fs_def sb_ok_def)
  have "\<exists>s :: lstate. fs_txn {28} 6 s \<and> (\<forall>b < 970. v_blk (view s) b = demo_file_disk ty b) \<and> v_held (view s) = {} \<and> l_start s = 970"
    by (rule demo_begin [OF len])
      (use demo_fs_bitmap(2) in \<open>auto simp: demo_file_disk_def demo_fs_def demo_disk_def Let_def\<close>)
  then obtain s :: lstate where s: "fs_txn {28} 6 s" "\<And>b. b < 970 \<Longrightarrow> v_blk (view s) b = demo_file_disk ty b" "v_held (view s) = {}"
    by blast
  have b: "v_blk (view s) 1 = demo_disk 1" "v_blk (view s) 28 = demo_fs 28"
      "v_blk (view s) 2 = store_dinode (demo_ip ty) (replicate BSIZE 0)"
    using s(2) by (simp_all add: demo_file_disk_def demo_fs_def)
  have sb: "sb_size (decode_sb (demo_disk 1)) = 1000" "sb_ninodes (decode_sb (demo_disk 1)) = 200"
    by (simp_all add: demo_disk_def decode_sb_def Let_def BSIZE_def u32_def)
  have u: "used (v_blk (view s)) c \<longleftrightarrow> bit_used (demo_fs 28) c" for c
    using b(1,2) sb by (simp add: used_def bitmap_block_def IPB_def BSIZE_def DINODE_SIZE_def NDIRECT_def)
  have "{29, 30} \<subseteq> {c. c < sb_size (decode_sb (v_blk (view s) 1)) \<and> \<not> used (v_blk (view s)) c}"
    using b(1) sb u demo_fs_bitmap(2) by auto
  from card_mono [OF _ this] have free: "2 \<le> nfree (v_blk (view s))" by (simp add: nfree_def)
  have ib: "IBLOCK (i_inum (demo_ip ty)) = 2" by (simp add: IBLOCK_def demo_ip_def IPB_def BSIZE_def DINODE_SIZE_def NDIRECT_def)
  have "synced (v_blk (view s)) (demo_ip ty)"
    using store_dinode_get [of "replicate BSIZE 0" "demo_ip ty"] demo_ip_ok(1) [OF ty] b(3) unfolding ib synced_def by simp
  then have "wf_file 0 (with_inode ty s)"
    using demo_ip_ok(1) [OF ty] demo_ip_ok(2,3) s(3) sb b(1) by (simp add: wf_file_def file_at_def dense_def ninodes_of_def demo_ip_def)
  then show ?thesis using s(1) free by (intro exI [of _ "with_inode ty s"]) (simp add: fun_eq_iff)
qed

lemma demo_written:
  "\<exists>s :: istate. fs_txn {28} 2 s \<and> wf_file 0 s \<and> file_data (blks s) (inodes s 0) = [104, 105] \<and> i_type (inodes s 0) = T_FILE"
proof -
  obtain s :: istate where s: "fs_txn {28} 6 s" "wf_file 0 s" "2 \<le> nfree (blks s)" "inodes s 0 = demo_ip T_FILE"
    using demo_file [of T_FILE] by auto
  define src :: "byte list" where "src = [104, 105]"
  have h: "fs_txn {28} (2 + 3 * 1 + 1) s" "2 * 1 \<le> nfree (blks s)" using s(1,3) by simp_all
  have "0 + length src \<le> MAXFILE * BSIZE" "src = [] \<or> 0 mod BSIZE + length src \<le> 1 * BSIZE"
      "i_type (inodes s 0) \<noteq> T_DEV"
    using s(4) by (simp_all add: src_def demo_ip_def MAXFILE_def NDIRECT_def NINDIRECT_def BSIZE_def T_DEV_def T_FILE_def)
  from writei_data [where devsw = "\<lambda>_. (None, None)", OF h(1) s(2) h(2) le0 this] obtain s2 :: istate where s2: "fs_txn {28} 2 s2" "wf_file 0 s2"
      "\<exists>as'. inodes s2 = (inodes s)(0 := (inodes s 0)\<lparr>i_addrs := as', i_size := max (i_size (inodes s 0)) (0 + length src)\<rparr>)"
      "file_data (blks s2) (inodes s2 0) = splice (file_data (blks s) (inodes s 0)) 0 src"
    by blast
  moreover have "file_data (blks s) (inodes s 0) = []" "i_type (inodes s 0) = T_FILE"
    using s(4) by (simp_all add: demo_ip_def file_data_def)
  ultimately show ?thesis by (intro exI [of _ s2]) (auto simp: splice_def src_def)
qed

section \<open>Properties\<close>

text \<open>
  C2: \<^verbatim>\<open>writei\<close> splices its bytes into the file.  In a transaction with room for three log blocks per block written and
  one for the inode, on a drive with two free blocks per block written, a write that starts inside the file or at
  its end returns the number of bytes, the contents of the file become the old contents with the bytes replaced
  or appended at the offset, whichever blocks had to be allocated on the way, and the inode on the drive agrees with
  the cached one again.  The contents of every other file and every other inode on the drive stay as they were.
\<close>

theorem writei_splices:
  assumes "fs_txn B (r + 3 * m + 1) s" and "wf_file k s" and "2 * m \<le> nfree (blks s)"
    and "off \<le> i_size (inodes s k)" "off + length src \<le> MAXFILE * BSIZE"
    and "src = [] \<or> off mod BSIZE + length src \<le> m * BSIZE" and "i_type (inodes s k) \<noteq> T_DEV"
  shows "\<exists>s'. writei devsw k src off s = Ok (int (length src), s') \<and> fs_txn B r s' \<and> wf_file k s'
    \<and> (\<exists>as'. inodes s' = (inodes s)(k := (inodes s k)\<lparr>i_addrs := as', i_size := max (i_size (inodes s k)) (off + length src)\<rparr>))
    \<and> file_data (blks s') (inodes s' k) = splice (file_data (blks s) (inodes s k)) off src
    \<and> (\<forall>jp. other_file k jp s \<longrightarrow> other_file k jp s' \<and> file_data (blks s') jp = file_data (blks s) jp)
    \<and> (\<forall>i < ninodes_of (blks s). i \<noteq> i_inum (inodes s k) \<longrightarrow> get_dinode (blks s' (IBLOCK i)) i = get_dinode (blks s (IBLOCK i)) i)"
  by (rule writei_data [OF assms])

theorem writei_splices_witness:
  "\<exists>s s' :: istate. fs_txn {28} 6 s \<and> wf_file 0 s \<and> file_data (blks s) (inodes s 0) = []
     \<and> writei (\<lambda>_. (None, None)) 0 [104, 105] 0 s = Ok (2, s') \<and> file_data (blks s') (inodes s' 0) = [104, 105]"
proof -
  obtain s :: istate where s: "fs_txn {28} 6 s" "wf_file 0 s" "2 \<le> nfree (blks s)" "inodes s 0 = demo_ip T_FILE"
    using demo_file [of T_FILE] by auto
  have "fs_txn {28} (2 + 3 * 1 + 1) s" "2 * 1 \<le> nfree (blks s)" using s(1,3) by simp_all
  from writei_splices [OF this(1) s(2) this(2), of 0 "[104, 105]" "\<lambda>_. (None, None)"] show ?thesis
    using s by - (rule exI [of _ s], auto simp: demo_ip_def file_data_def splice_def MAXFILE_def NDIRECT_def NINDIRECT_def BSIZE_def T_DEV_def T_FILE_def)
qed

text \<open>
  C12: \<^verbatim>\<open>readi\<close> returns the bytes of the file from the offset on, at most \<open>n\<close> and at most to the end of the file, with their
  number as the result, whichever direct and indirect blocks they lie in; nothing that a client of the buffer cache sees, no inode
  and no other part of the state changes.
\<close>

theorem readi_returns:
  assumes "file_ready k s" and "dense (blks s) (inodes s k)" and "i_type (inodes s k) \<noteq> T_DEV"
    and "off \<le> i_size (inodes s k)" "off + n < 2 ^ 32"
  shows "\<exists>s'. readi devsw k off n s
      = Ok (int (length (take n (drop off (file_data (blks s) (inodes s k))))), take n (drop off (file_data (blks s) (inodes s k))), s')
    \<and> unseen s s'"
  by (rule readi_data [OF assms])

theorem readi_returns_witness:
  "\<exists>s s' :: istate. file_data (blks s) (inodes s 0) = [104, 105]
     \<and> readi (\<lambda>_. (None, None)) 0 1 100 s = Ok (1, [105], s') \<and> unseen s s'"
proof -
  obtain s :: istate where s: "fs_txn {28} 2 s" "wf_file 0 s" "file_data (blks s) (inodes s 0) = [104, 105]" "i_type (inodes s 0) = T_FILE"
    using demo_written by blast
  have sz: "i_size (inodes s 0) = 2" using s(3) length_file_data [of "blks s" "inodes s 0"] by simp
  from readi_returns [OF wf_file_ready [OF s(1,2)], of 1 100 "\<lambda>_. (None, None)"] show ?thesis
    using s sz by - (rule exI [of _ s], auto simp: wf_file_def T_FILE_def T_DEV_def)
qed

end
