(* ===== verification/Fs_Trunc.thy ===== *)
theory Fs_Trunc
  imports Fs_File
begin

text \<open>
  Truncation, \<^verbatim>\<open>itrunc\<close> of \<^verbatim>\<open>kernel/fs.c\<close>: it gives back exactly the blocks of the file, direct, indirect
  and the indirect block itself, and leaves an empty file.
\<close>

section \<open>Freeing blocks\<close>

text \<open>Between the two states the blocks of \<open>F\<close> were marked free, and only the bitmap changed.\<close>

definition freed :: "'z istate_scheme \<Rightarrow> 'z istate_scheme \<Rightarrow> nat set \<Rightarrow> bool" where
  "freed s t F \<longleftrightarrow> (\<forall>c. c \<noteq> bitmap_block (blks s) \<longrightarrow> blks t c = blks s c) \<and> bitmap_block (blks t) = bitmap_block (blks s)
     \<and> (\<forall>c. used (blks t) c \<longleftrightarrow> used (blks s) c \<and> c \<notin> F) \<and> fs_step s t (blks t) (inodes t)"

lemma freed_refl: "freed s s {}"
  by (simp add: freed_def)

lemma freed_trans:
  assumes "freed s t F" and "freed t u G"
  shows "freed s u (F \<union> G)"
proof -
  have "fs_step s u (blks u) (inodes u)" using assms by (auto simp: freed_def intro: fs_step_trans)
  then show ?thesis using assms by (auto simp: freed_def)
qed

lemma freed_setinode: "freed s t F \<Longrightarrow> freed s (setinode k ip t) F"
  using fs_step_setinode [of s t "blks t" "inodes t" k ip] by (auto simp: freed_def)

lemma freedD:
  assumes "freed s t F"
  shows "c \<noteq> bitmap_block (blks s) \<Longrightarrow> blks t c = blks s c" "bitmap_block (blks t) = bitmap_block (blks s)"
    "used (blks t) c \<longleftrightarrow> used (blks s) c \<and> c \<notin> F" "v_held (view t) = v_held (view s)" "l_start t = l_start s"
    "holds s j c \<Longrightarrow> holds t j c" "v_disk (view t) = v_disk (view s)" "v_pinned (view s) \<subseteq> v_pinned (view t)"
  using assms fs_stepD [of s t "blks t" "inodes t"] by (auto simp: freed_def)

text \<open>A block that can be freed.\<close>

definition freeable :: "'z istate_scheme \<Rightarrow> nat \<Rightarrow> bool" where
  "freeable s c \<longleftrightarrow> used (blks s) c \<and> bitmap_block (blks s) < c \<and> c < l_start s \<and> c \<notin> v_held (view s)"

lemma bfree_freed:
  assumes t: "fs_txn B r s" and c: "freeable s c"
  shows "\<exists>t. bfree ROOTDEV c s = Ok t \<and> fs_txn B r t \<and> freed s t {c} \<and> inodes t = inodes s"
proof -
  note d = fs_txnD [OF t]
  obtain u where u: "bfree ROOTDEV c s = Ok u" "fs_txn B r u" "txn_step s u (mark_free (blks s) c)"
    using bfree_ok [OF t] c by (auto simp: freeable_def)
  note f = txn_stepD [OF u(3)]
  have bm: "bitmap_block (blks s) \<noteq> 1" "c < FSSIZE"
    using fs_metaD(4) [OF d(2)] c txnD(3) [OF d(1)] by (auto simp: freeable_def)
  have "used (blks u) x \<longleftrightarrow> used (blks s) x \<and> x \<noteq> c" for x
    using used_clear [OF d(2,6) bm(2)] f(1) by (auto simp: mark_free_def)
  moreover have "bitmap_block (blks u) = bitmap_block (blks s)" using f(1) bm by (simp add: mark_free_def)
  moreover have "blks u x = blks s x" if "x \<noteq> bitmap_block (blks s)" for x using that f(1) by (simp add: mark_free_def)
  moreover have "inodes u = inodes s" using same_inodes(1) [OF f(5)] .
  ultimately have "freed s u {c}" using fs_stepI [OF u(3)] f(1) by (simp add: freed_def)
  then show ?thesis using u \<open>inodes u = inodes s\<close> by blast
qed

lemma freeable_after: "freeable s c \<Longrightarrow> freed s t F \<Longrightarrow> c \<notin> F \<Longrightarrow> freeable t c"
  using freedD [of s t F] by (auto simp: freeable_def)

section \<open>The two loops\<close>

text \<open>Blocks that can be freed one after the other: \<open>a i\<close> for the indices \<open>i\<close> of a list, 0 standing for none.\<close>

definition freeables :: "'z istate_scheme \<Rightarrow> (nat \<Rightarrow> nat) \<Rightarrow> nat list \<Rightarrow> bool" where
  "freeables s a is \<longleftrightarrow> distinct is \<and> (\<forall>i\<in>set is. a i \<noteq> 0 \<longrightarrow> freeable s (a i)) \<and> inj_on a {i \<in> set is. a i \<noteq> 0}"

lemma freeables_cong: "(\<And>i. i \<in> set is \<Longrightarrow> a i = b i) \<Longrightarrow> freeables s a is = freeables s b is"
  unfolding freeables_def inj_on_def by auto

lemma freeables_skip: "freeables s a (i # is) \<Longrightarrow> freeables s a is"
  unfolding freeables_def using inj_on_subset [of a "{j \<in> set (i # is). a j \<noteq> 0}" "{j \<in> set is. a j \<noteq> 0}"] by auto

lemma freeables_step:
  assumes "freeables s a (i # is)" and "a i \<noteq> 0" and "freed s t {a i}"
  shows "freeables t a is"
proof -
  have "freeable t (a j)" if "j \<in> set is" "a j \<noteq> 0" for j
  proof -
    have inj: "inj_on a {j \<in> set (i # is). a j \<noteq> 0}" and "i \<notin> set is" using assms(1) by (simp_all add: freeables_def)
    then have "j \<noteq> i" using that(1) by blast
    then have "a j \<noteq> a i" using inj_onD [OF inj, of j i] assms(2) that by auto
    then show ?thesis using assms(1,3) that freeable_after [of s "a j" t "{a i}"] by (simp add: freeables_def)
  qed
  then show ?thesis using freeables_skip [OF assms(1)] by (auto simp: freeables_def)
qed

definition zeroed :: "nat list \<Rightarrow> nat list \<Rightarrow> nat set \<Rightarrow> bool" where
  "zeroed as as' I \<longleftrightarrow> length as' = length as \<and> (\<forall>j < length as. as' ! j = (if j \<in> I then 0 else as ! j))"

lemma itrunc_direct_loop:
  assumes "fs_txn B r s" and "i_dev (inodes s k) = ROOTDEV" and "freeables s ((!) (i_addrs (inodes s k))) is"
    and "\<And>i. i \<in> set is \<Longrightarrow> i < length (i_addrs (inodes s k))"
  shows "\<exists>t as'. for_each (itrunc_direct k) is s = Ok t \<and> fs_txn B r t
    \<and> freed s t ((!) (i_addrs (inodes s k)) ` set is - {0})
    \<and> inodes t k = (inodes s k)\<lparr>i_addrs := as'\<rparr> \<and> zeroed (i_addrs (inodes s k)) as' (set is)"
  using assms
proof (induction "is" arbitrary: s)
  case Nil
  show ?case
    by (rule exI [of _ s], rule exI [of _ "i_addrs (inodes s k)"]) (use Nil(1) freed_refl [of s] in \<open>simp add: zeroed_def\<close>)
next
  case (Cons i "is")
  let ?as = "i_addrs (inodes s k)"
  show ?case
  proof (cases "?as ! i = 0")
    case True
    then have c: "itrunc_direct k i s = Ok s" by (simp add: itrunc_direct_def)
    obtain t as' where t: "for_each (itrunc_direct k) is s = Ok t" "fs_txn B r t" "freed s t ((!) ?as ` set is - {0})"
        "inodes t k = (inodes s k)\<lparr>i_addrs := as'\<rparr>" "zeroed ?as as' (set is)"
      using Cons.IH [OF Cons.prems(1,2) freeables_skip [OF Cons.prems(3)] Cons.prems(4)] by auto
    have "zeroed ?as as' (set (i # is))" using t(5) True by (auto simp: zeroed_def)
    moreover have "(!) ?as ` set (i # is) - {0} = (!) ?as ` set is - {0}" using True by auto
    ultimately show ?thesis using t c by auto
  next
    case False
    then have fr: "freeable s (?as ! i)" using Cons.prems(3) by (simp add: freeables_def)
    obtain u where u: "bfree ROOTDEV (?as ! i) s = Ok u" "fs_txn B r u" "freed s u {?as ! i}" "inodes u = inodes s"
      using bfree_freed [OF Cons.prems(1) fr] by blast
    define v where "v = set_addr k i 0 u"
    have v: "fs_txn B r v" "freed s v {?as ! i}" "inodes v k = (inodes s k)\<lparr>i_addrs := ?as[i := 0]\<rparr>"
      using u freed_setinode by (simp_all add: v_def) (simp add: set_addr_def)
    have c: "itrunc_direct k i s = Ok v" using False u(1) Cons.prems(2) by (simp add: itrunc_direct_def v_def)
    have ni: "i \<notin> set is" using Cons.prems(3) by (simp add: freeables_def)
    then have eq: "?as[i := 0] ! j = ?as ! j" if "j \<in> set is" for j using that by (metis nth_list_update_neq)
    have "freeables v ((!) (i_addrs (inodes v k))) is"
      using freeables_step [OF Cons.prems(3) False v(2)] v(3) eq freeables_cong [of "is" "(!) (?as[i := 0])" "(!) ?as" v] by simp
    then obtain t as' where t: "for_each (itrunc_direct k) is v = Ok t" "fs_txn B r t" "freed v t ((!) (?as[i := 0]) ` set is - {0})"
        "inodes t k = (inodes v k)\<lparr>i_addrs := as'\<rparr>" "zeroed (?as[i := 0]) as' (set is)"
      using Cons.IH [OF v(1)] v(3) Cons.prems(2,4) by auto
    have "(!) (?as[i := 0]) ` set is = (!) ?as ` set is" using eq by (intro image_cong) auto
    then have "freed s t ((!) ?as ` set (i # is) - {0})"
      using freed_trans [OF v(2) t(3)] False by (simp add: insert_Diff_if)
    moreover have "zeroed ?as as' (set (i # is))" using t(5) ni Cons.prems(4) [of i] by (auto simp: zeroed_def nth_list_update)
    ultimately show ?thesis using t(1,2,4) c v(3) by auto
  qed
qed

lemma itrunc_indirect_loop:
  assumes "fs_txn B r s" and "holds s bp ind" and "i_dev (inodes s k) = ROOTDEV" and "ind \<noteq> bitmap_block (blks s)"
    and "freeables s (\<lambda>j. get32 (blks s ind) (4 * j)) js"
  shows "\<exists>t. for_each (itrunc_indirect k bp) js s = Ok t \<and> fs_txn B r t \<and> inodes t = inodes s
    \<and> freed s t ((\<lambda>j. get32 (blks s ind) (4 * j)) ` set js - {0})"
  using assms
proof (induction js arbitrary: s)
  case Nil
  then show ?case using freed_refl [of s] by simp
next
  case (Cons j js)
  let ?a = "\<lambda>j. get32 (blks s ind) (4 * j)"
  have g: "getdata s bp = blks s ind" using bc.getdata_law [OF txnD(2) [OF fs_txnD(1) [OF Cons.prems(1)]] Cons.prems(2)] .
  show ?case
  proof (cases "?a j = 0")
    case True
    then have c: "itrunc_indirect k bp j s = Ok s" using g by (simp add: itrunc_indirect_def)
    moreover have "?a ` set (j # js) - {0} = ?a ` set js - {0}" using True by auto
    ultimately show ?thesis
      using Cons.IH [OF Cons.prems(1-4) freeables_skip [OF Cons.prems(5)]] by simp
  next
    case False
    then have fr: "freeable s (?a j)" using Cons.prems(5) by (simp add: freeables_def)
    obtain u where u: "bfree ROOTDEV (?a j) s = Ok u" "fs_txn B r u" "freed s u {?a j}" "inodes u = inodes s"
      using bfree_freed [OF Cons.prems(1) fr] by blast
    note f = freedD [OF u(3)]
    have c: "itrunc_indirect k bp j s = Ok u" using False u(1) g Cons.prems(3) by (simp add: itrunc_indirect_def Let_def)
    have eq: "blks u ind = blks s ind" using f(1) Cons.prems(4) by simp
    have "freeables u ?a js" by (rule freeables_step [OF Cons.prems(5) False u(3)])
    then obtain t where t: "for_each (itrunc_indirect k bp) js u = Ok t" "fs_txn B r t" "inodes t = inodes u"
        "freed u t (?a ` set js - {0})"
      using Cons.IH [OF u(2) f(6) [OF Cons.prems(2)]] u(4) Cons.prems(3,4) f(2) eq by auto
    have "freed s t (?a ` set (j # js) - {0})"
      using freed_trans [OF u(3) t(4)] False by (simp add: insert_Diff_if)
    then show ?thesis using t c u(4) by simp
  qed
qed

text \<open>A block held while others are freed.\<close>

lemma hold_while_freeing:
  assumes t: "fs_txn B (Suc r) s" and c: "freeable s c"
  shows "\<exists>i s1. bread ROOTDEV c s = Ok (i, s1) \<and> fs_txn B r s1 \<and> holds s1 i c \<and> inodes s1 = inodes s
    \<and> blks s1 = blks s \<and> v_held (view s1) = insert c (v_held (view s)) \<and> l_start s1 = l_start s
    \<and> (\<forall>t F. freed s1 t F \<and> fs_txn B r t \<longrightarrow>
         (\<exists>u. brelse i t = Ok u \<and> fs_txn B r u \<and> freed s u F \<and> inodes u = inodes t))"
proof -
  have c': "used (blks s) c" "c \<notin> v_held (view s)" "bitmap_block (blks s) < c" "c < l_start s" using c by (auto simp: freeable_def)
  obtain i s1 where s1: "bread ROOTDEV c s = Ok (i, s1)" "fs_txn B r s1" "holds s1 i c"
      "view s1 = (view s)\<lparr>v_held := insert c (v_held (view s))\<rparr>" "same_params s s1"
      "c \<in> v_pinned (view s) \<or> blks s c = v_disk (view s) c" "\<And>j d. holds s j d \<Longrightarrow> holds s1 j d"
    using fs_txn_hold [OF t c'] by blast
  have more: "lstate.more s1 = lstate.more s" using s1(5) by (simp add: same_params_def)
  have "\<exists>u. brelse i t = Ok u \<and> fs_txn B r u \<and> freed s u F \<and> inodes u = inodes t"
    if f: "freed s1 t F" and ft: "fs_txn B r t" for t F
  proof -
    note d = freedD [OF f]
    have st: "fs_step s1 t (blks t) (inodes t)" using f by (simp add: freed_def)
    have "blks t c = blks s c" using d(1) [of c] c'(3) s1(4) by simp
    then have cl: "c \<in> v_pinned (view t) \<or> blks t c = v_disk (view t) c" using s1(4,6) d(7,8) by auto
    obtain u where u: "brelse i t = Ok u" "fs_txn B r u" "view u = (view t)\<lparr>v_held := v_held (view t) - {c}\<rparr>"
        "same_params t u" "\<And>j d. j \<noteq> i \<Longrightarrow> holds t j d \<Longrightarrow> holds u j d"
      using fs_txn_release [OF ft d(6) [OF s1(3)] cl] by blast
    have mu: "lstate.more u = lstate.more t" using u(4) by (simp add: same_params_def)
    note iu = same_inodes [OF mu]
    have ks: "holds u j e" if "holds s j e" for j e
    proof -
      have "e \<noteq> c" using bc.held_law [OF txnD(2) [OF fs_txnD(1) [OF t]] that] c'(2) by blast
      then have "j \<noteq> i" using bc.unique_law [OF txnD(2) [OF fs_txnD(1) [OF s1(2)]] s1(3), of j e] s1(7) [OF that] by auto
      then show ?thesis using u(5) [of j e] d(6) s1(7) [OF that] by blast
    qed
    have "fs_step s u (blks u) (inodes u)"
      using st u(3,4) s1(4,5) d(4) c'(2) ks iu same_inodes [OF more] by (auto simp: fs_step_def same_params_def)
    then have "freed s u F" using f u(3) s1(4) by (simp add: freed_def)
    then show ?thesis using u(1,2) iu by blast
  qed
  then show ?thesis using s1 same_inodes(1) [OF more] by (auto simp: same_params_def)
qed

section \<open>Truncation\<close>

text \<open>The blocks of a file, by the loops that free them.\<close>

lemma owns_split:
  "{c. owns M as c} = ((!) as ` set [0..<NDIRECT] - {0}) \<union>
     (if as ! NDIRECT = 0 then {} else ((\<lambda>j. get32 (M (as ! NDIRECT)) (4 * j)) ` set [0..<NINDIRECT] - {0}) \<union> {as ! NDIRECT})"
  (is "?L = ?R")
proof -
  have l: "c \<in> ?R" if "owns M as c" for c
  proof -
    from that obtain i where i: "c \<noteq> 0" "i \<le> MAXFILE" "blkno M as i = c" by (auto simp: owns_def)
    consider "i < NDIRECT" | "i = MAXFILE" | "NDIRECT \<le> i" "i < MAXFILE" using i(2) by linarith
    then show ?thesis
    proof cases
      case 3
      then have "as ! NDIRECT \<noteq> 0" "c = get32 (M (as ! NDIRECT)) (4 * (i - NDIRECT))" "i - NDIRECT < NINDIRECT"
        using i by (auto simp: blkno_def MAXFILE_def split: if_splits)
      then show ?thesis using i(1) by auto
    qed (use i in \<open>auto simp: blkno_def MAXFILE_def\<close>)
  qed
  have d: "owns M as (as ! i)" if "i < NDIRECT" "as ! i \<noteq> 0" for i
    using that ownsI [of i M as] by (simp add: blkno_def MAXFILE_def)
  have m: "owns M as (as ! NDIRECT)" if "as ! NDIRECT \<noteq> 0"
    using that ownsI [of MAXFILE M as] by (simp add: blkno_def MAXFILE_def)
  have j: "owns M as (get32 (M (as ! NDIRECT)) (4 * j))"
    if "as ! NDIRECT \<noteq> 0" "j < NINDIRECT" "get32 (M (as ! NDIRECT)) (4 * j) \<noteq> 0" for j
    using that ownsI [of "j + NDIRECT" M as] by (simp add: blkno_def MAXFILE_def)
  show ?thesis
  proof (intro set_eqI iffI)
    show "c \<in> ?R" if "c \<in> ?L" for c using l that by simp
    show "c \<in> ?L" if "c \<in> ?R" for c using that d j m by (cases "as ! NDIRECT = 0") auto
  qed
qed

lemma file_at_freeable: "file_at k s \<Longrightarrow> owns (blks s) (i_addrs (inodes s k)) c \<Longrightarrow> freeable s c"
  using addrs_okD(2) [of "l_start s" "blks s" "i_addrs (inodes s k)" c] by (auto simp: file_at_def freeable_def)

lemma freeablesI:
  assumes "file_at k s" and "distinct is"
    and "\<And>i. i \<in> set is \<Longrightarrow> g i \<le> MAXFILE \<and> a i = blkno (blks s) (i_addrs (inodes s k)) (g i)" and "inj_on g (set is)"
  shows "freeables s a is"
  unfolding freeables_def
proof (intro conjI ballI impI inj_onI)
  show "distinct is" by fact
  show "freeable s (a i)" if "i \<in> set is" "a i \<noteq> 0" for i
    using that assms(3) [of i] ownsI [of "g i" "blks s" "i_addrs (inodes s k)"] file_at_freeable [OF assms(1)] by auto
  show "i = j" if "i \<in> {i \<in> set is. a i \<noteq> 0}" "j \<in> {i \<in> set is. a i \<noteq> 0}" "a i = a j" for i j
  proof -
    have ok: "addrs_ok (l_start s) (blks s) (i_addrs (inodes s k))" using assms(1) by (simp add: file_at_def)
    have "g i = g j" using that assms(3) [of i] assms(3) [of j] addrs_okD(3) [OF ok, of "g i" "g j"] by auto
    then show ?thesis using that assms(4) by (auto dest: inj_onD)
  qed
qed

text \<open>The part of \<^verbatim>\<open>itrunc\<close> after the direct blocks.\<close>

lemma itrunc_indirect_part:
  assumes t: "fs_txn B (Suc r) s" and dev: "i_dev (inodes s k) = ROOTDEV"
    and ind: "freeable s ind" "i_addrs (inodes s k) ! NDIRECT = ind"
    and fr: "freeables s (\<lambda>j. get32 (blks s ind) (4 * j)) [0..<NINDIRECT]"
    and ne: "\<And>j. j < NINDIRECT \<Longrightarrow> get32 (blks s ind) (4 * j) \<noteq> ind"
  shows "\<exists>bp s1 s2 s3 t. bread ROOTDEV ind s = Ok (bp, s1) \<and> for_each (itrunc_indirect k bp) [0..<NINDIRECT] s1 = Ok s2
    \<and> brelse bp s2 = Ok s3 \<and> bfree ROOTDEV ind s3 = Ok t \<and> fs_txn B r t \<and> inodes s3 = inodes s \<and> inodes t = inodes s
    \<and> freed s t (((\<lambda>j. get32 (blks s ind) (4 * j)) ` set [0..<NINDIRECT] - {0}) \<union> {ind})"
proof -
  let ?a = "\<lambda>j. get32 (blks s ind) (4 * j)" and ?F = "(\<lambda>j. get32 (blks s ind) (4 * j)) ` set [0..<NINDIRECT] - {0}"
  obtain bp s1 where s1: "bread ROOTDEV ind s = Ok (bp, s1)" "fs_txn B r s1" "holds s1 bp ind" "inodes s1 = inodes s"
      "blks s1 = blks s" "v_held (view s1) = insert ind (v_held (view s))" "l_start s1 = l_start s"
      "\<And>t F. freed s1 t F \<Longrightarrow> fs_txn B r t \<Longrightarrow> \<exists>u. brelse bp t = Ok u \<and> fs_txn B r u \<and> freed s u F \<and> inodes u = inodes t"
    using hold_while_freeing [OF t ind(1)] by blast
  have "freeables s1 (\<lambda>j. get32 (blks s1 ind) (4 * j)) [0..<NINDIRECT]"
    using fr ne s1(5-7) by (auto simp: freeables_def freeable_def)
  moreover have "ind \<noteq> bitmap_block (blks s1)" using ind(1) s1(5) by (simp add: freeable_def)
  ultimately obtain s2 where s2: "for_each (itrunc_indirect k bp) [0..<NINDIRECT] s1 = Ok s2" "fs_txn B r s2"
      "inodes s2 = inodes s1" "freed s1 s2 ?F"
    using itrunc_indirect_loop [OF s1(2,3), of k "[0..<NINDIRECT]"] s1(4,5) dev by auto
  obtain s3 where s3: "brelse bp s2 = Ok s3" "fs_txn B r s3" "freed s s3 ?F" "inodes s3 = inodes s2"
    using s1(8) [OF s2(4,2)] by blast
  have "ind \<notin> ?F" using ne by (fastforce simp: image_iff)
  then obtain u where "bfree ROOTDEV ind s3 = Ok u" "fs_txn B r u" "freed s3 u {ind}" "inodes u = inodes s3"
    using bfree_freed [OF s3(2) freeable_after [OF ind(1) s3(3)]] by blast
  moreover from this have "freed s u (?F \<union> {ind})" using freed_trans [OF s3(3)] by blast
  ultimately show ?thesis using s1(1,4) s2(1,3) s3(1,4) by auto
qed

lemma itrunc_blocks:
  assumes t: "fs_txn B (Suc (Suc r)) s" and k: "file_at k s"
  defines "as \<equiv> i_addrs (inodes s k)"
  shows "\<exists>t. itrunc k s = iupdate k (setinode k ((inodes t k)\<lparr>i_size := 0\<rparr>) t) \<and> fs_txn B (Suc r) t
    \<and> inodes t k = (inodes s k)\<lparr>i_addrs := replicate (NDIRECT + 1) 0\<rparr> \<and> freed s t {c. owns (blks s) as c}"
proof -
  let ?ip = "inodes s k" and ?ind = "as ! NDIRECT" and ?M = "blks s"
  let ?F = "(!) as ` set [0..<NDIRECT] - {0}"
  have dev: "i_dev ?ip = ROOTDEV" and ok: "addrs_ok (l_start s) ?M as" using k by (simp_all add: file_at_def as_def)
  note len = addrs_okD(1) [OF ok]
  have "freeables s ((!) as) [0..<NDIRECT]"
    by (rule freeablesI [OF k, where g = "\<lambda>i. i"]) (auto simp: blkno_def MAXFILE_def as_def)
  then obtain s1 as1 where s1: "for_each (itrunc_direct k) [0..<NDIRECT] s = Ok s1" "fs_txn B (Suc (Suc r)) s1" "freed s s1 ?F"
      "inodes s1 k = ?ip\<lparr>i_addrs := as1\<rparr>" "zeroed as as1 (set [0..<NDIRECT])"
    using itrunc_direct_loop [OF t dev, of "[0..<NDIRECT]"] len by (auto simp: as_def)
  note f1 = freedD [OF s1(3)]
  have as1: "as1 ! NDIRECT = ?ind" "as1[NDIRECT := 0] = replicate (NDIRECT + 1) 0"
    using s1(5) len by (auto simp: zeroed_def nth_list_update simp del: replicate_Suc intro!: nth_equalityI)
  show ?thesis
  proof (cases "?ind = 0")
    case True
    have "as1[NDIRECT := 0] = as1" using as1(1) True by (metis list_update_id)
    then have "inodes s1 k = ?ip\<lparr>i_addrs := replicate (NDIRECT + 1) 0\<rparr>" using as1(2) s1(4) by simp
    moreover have "itrunc k s = iupdate k (setinode k ((inodes s1 k)\<lparr>i_size := 0\<rparr>) s1)"
      using s1(1,4) as1(1) True by (simp add: itrunc_def)
    moreover have "fs_txn B (Suc r) s1" using fs_txn_mono [OF s1(2), of "Suc r" B] fs_txnD(8) [OF s1(2)] by simp
    ultimately show ?thesis using s1(3) owns_split [of ?M as] True by auto
  next
    case False
    let ?a = "\<lambda>j. get32 (?M ?ind) (4 * j)" and ?G = "(\<lambda>j. get32 (?M ?ind) (4 * j)) ` set [0..<NINDIRECT] - {0}"
    have b: "?a j = blkno ?M as (j + NDIRECT)" "j + NDIRECT < MAXFILE" if "j < NINDIRECT" for j
      using that False by (simp_all add: blkno_def MAXFILE_def)
    have i: "blkno ?M as MAXFILE = ?ind" by (simp add: blkno_def MAXFILE_def)
    have dis: "blkno ?M as x \<noteq> as ! y" if "NDIRECT \<le> x" "x \<le> MAXFILE" "y < NDIRECT" "blkno ?M as x \<noteq> 0" for x y
      using addrs_okD(3) [OF ok, of x y] that by (auto simp: blkno_def MAXFILE_def split: if_splits)
    have "freeable s ?ind" using ownsI [of MAXFILE ?M as] i False file_at_freeable [OF k] by (simp add: as_def)
    moreover have "?ind \<notin> ?F" using dis [of MAXFILE] i False by (fastforce simp: MAXFILE_def)
    ultimately have fi: "freeable s1 ?ind" using freeable_after s1(3) by blast
    have mi: "blks s1 ?ind = ?M ?ind" using f1(1) fi f1(2) by (simp add: freeable_def)
    have "freeables s ?a [0..<NINDIRECT]"
      by (rule freeablesI [OF k, where g = "\<lambda>j. j + NDIRECT"]) (use b in \<open>auto simp: as_def inj_on_def intro: less_imp_le\<close>)
    moreover have "?a j \<notin> ?F" if "j < NINDIRECT" for j using dis [of "j + NDIRECT"] b [OF that] by fastforce
    ultimately have fr: "freeables s1 (\<lambda>j. get32 (blks s1 ?ind) (4 * j)) [0..<NINDIRECT]"
      using freeable_after [OF _ s1(3)] unfolding mi freeables_def by auto
    have ne: "get32 (blks s1 ?ind) (4 * j) \<noteq> ?ind" if "j < NINDIRECT" for j
      using addrs_okD(3) [OF ok, of MAXFILE "j + NDIRECT"] b [OF that] i False unfolding mi by auto
    have dev1: "i_dev (inodes s1 k) = ROOTDEV" using s1(4) dev by simp
    have "i_addrs (inodes s1 k) ! NDIRECT = ?ind" using s1(4) as1(1) by simp
    from itrunc_indirect_part [OF s1(2) dev1 fi this fr ne] obtain bp s2 s3 s4 t where
      t: "bread ROOTDEV ?ind s1 = Ok (bp, s2)" "for_each (itrunc_indirect k bp) [0..<NINDIRECT] s2 = Ok s3"
        "brelse bp s3 = Ok s4" "bfree ROOTDEV ?ind s4 = Ok t" "fs_txn B (Suc r) t" "inodes s4 = inodes s1" "inodes t = inodes s1"
        "freed s1 t (?G \<union> {?ind})"
      unfolding mi by blast
    let ?t = "set_addr k NDIRECT 0 t"
    have "itrunc k s = iupdate k (setinode k ((inodes ?t k)\<lparr>i_size := 0\<rparr>) ?t)"
      using s1(1,4) as1(1) False t(1-4,6) dev by (simp add: itrunc_def)
    moreover have "freed s ?t {c. owns ?M as c}"
      using freed_setinode [OF freed_trans [OF s1(3) t(8)]] owns_split [of ?M as] False by (simp add: set_addr_def)
    moreover have "inodes ?t k = ?ip\<lparr>i_addrs := replicate (NDIRECT + 1) 0\<rparr>"
      using t(7) s1(4) as1(2) by simp
    ultimately show ?thesis using t(5) by (intro exI [of _ ?t]) simp
  qed
qed

lemma no_blocks:
  assumes "as = replicate (NDIRECT + 1) 0"
  shows "\<not> owns M as c" "addrs_ok start M as"
proof -
  have b: "blkno M as i = 0" for i
    unfolding blkno_def assms by (auto simp del: replicate_Suc)
  then show "\<not> owns M as c" by (auto simp: owns_def)
  show "addrs_ok start M as" using b assms by (auto simp: addrs_ok_def owns_def)
qed

lemma itrunc_ok:
  assumes t: "fs_txn B (Suc (Suc 0)) s" and w: "wf_file k s"
  defines "as \<equiv> i_addrs (inodes s k)"
  shows "\<exists>s'. itrunc k s = Ok s' \<and> fs_txn B 0 s' \<and> wf_file k s' \<and> i_size (inodes s' k) = 0
    \<and> (\<forall>c. used (blks s') c \<longleftrightarrow> used (blks s) c \<and> \<not> owns (blks s) as c)
    \<and> (\<forall>jp. other_file k jp s \<longrightarrow> other_file k jp s' \<and> file_data (blks s') jp = file_data (blks s) jp)
    \<and> (\<forall>i < ninodes_of (blks s). i \<noteq> i_inum (inodes s k) \<longrightarrow> get_dinode (blks s' (IBLOCK i)) i = get_dinode (blks s (IBLOCK i)) i)"
proof -
  let ?M = "blks s" and ?ip = "inodes s k" and ?ib = "IBLOCK (i_inum (inodes s k))"
  let ?jp = "?ip\<lparr>i_addrs := replicate (NDIRECT + 1) 0, i_size := 0\<rparr>"
  have w': "file_at k s" "ino_range ?ip" "i_inum ?ip < ninodes_of ?M" "?ib \<notin> v_held (view s)" "i_dev ?ip = ROOTDEV"
    using w by (simp_all add: wf_file_def file_at_def)
  obtain u where u: "itrunc k s = iupdate k (setinode k ((inodes u k)\<lparr>i_size := 0\<rparr>) u)" "fs_txn B (Suc 0) u"
      "inodes u k = ?ip\<lparr>i_addrs := replicate (NDIRECT + 1) 0\<rparr>" "freed s u {c. owns ?M as c}"
    using itrunc_blocks [OF t w'(1)] unfolding as_def by blast
  note f = freedD [OF u(4)]
  define v where "v = setinode k ?jp u"
  have v: "fs_txn B (Suc 0) v" "inodes v k = ?jp" "view v = view u" "itrunc k s = iupdate k v" "l_start v = l_start s"
    using u f(5) by (simp_all add: v_def)
  have ib: "1 < ?ib" "?ib < bitmap_block ?M" using IBLOCK_below [of "i_inum ?ip" ?M] w'(3) by (auto simp: ninodes_of_def)
  have one: "blks u 1 = ?M 1" using f(1) [of 1] fs_metaD(4) [OF fs_txnD(2) [OF t]] by simp
  obtain s' where s': "iupdate k v = Ok s'" "fs_txn B 0 s'"
      "fs_step v s' ((blks u)(?ib := store_dinode ?jp (blks u ?ib))) (inodes v)"
    using iupdate_ok [OF v(1), of k] v(2,3) w'(3-5) f(4) one by (auto simp: ninodes_of_def)
  note g = fs_stepD [OF s'(3)]
  have bm: "bitmap_block (blks s') = bitmap_block ?M" "blks s' 1 = ?M 1"
    using g(1) ib f(2) one by (simp_all add: bitmap_block_def)
  have us: "used (blks s') c \<longleftrightarrow> used ?M c \<and> \<not> owns ?M as c" for c
    using g(1) ib f(2) f(3) [of c] by (simp add: used_def)
  have iu: "blks u (IBLOCK i) = ?M (IBLOCK i)" if "i < ninodes_of ?M" for i
    using f(1) [of "IBLOCK i"] IBLOCK_below [of i ?M] that by (simp add: ninodes_of_def)
  have "?ib < FSSIZE" using ib fs_txnD(7) [OF t] by simp
  then have len: "length (blks u ?ib) = BSIZE" using txn_size [OF fs_txnD(1) [OF u(2)]] by simp
  have r: "ino_range ?jp" using w'(2) by (simp add: ino_range_def)
  have "synced (blks s') ?jp" using store_dinode_get [OF len r, of "blks u"] g(1) by simp
  moreover have "file_at k s'"
    using g(2) v(2) no_blocks [OF refl] w'(5) by (simp add: file_at_def)
  ultimately have wf: "wf_file k s'"
    using g(2,3) v(2,3) r w'(3,4) bm f(4) by (simp add: wf_file_def dense_def ninodes_of_def)
  have oth: "other_file k jp s' \<and> file_data (blks s') jp = file_data ?M jp" if o: "other_file k jp s" for jp
  proof -
    have a: "addrs_ok (l_start s) ?M (i_addrs jp)" "\<And>c. owns ?M (i_addrs jp) c \<Longrightarrow> \<not> owns ?M as c" "i_size jp \<le> MAXFILE * BSIZE"
      using o by (auto simp: other_file_def as_def)
    have "blks s' c = ?M c" if "owns ?M (i_addrs jp) c" for c
      using addrs_okD(2) [OF a(1) that] f(1) [of c] g(1) ib by simp
    note fc = file_cong [of ?M "i_addrs jp" "blks s'", OF this]
    have "addrs_ok (l_start s') (blks s') (i_addrs jp)"
      using a(1,2) fc us bm g(4) v(5) unfolding addrs_ok_def by simp
    then show ?thesis using fc a(3) g(2) v(2) no_blocks(1) [OF refl] by (auto simp: other_file_def file_data_def)
  qed
  have "get_dinode (blks s' (IBLOCK i)) i = get_dinode (?M (IBLOCK i)) i" if i: "i < ninodes_of ?M" "i \<noteq> i_inum ?ip" for i
  proof (cases "IBLOCK i = ?ib")
    case True
    then have "i mod IPB \<noteq> i_inum ?ip mod IPB" using same_IBLOCK i(2) by blast
    then show ?thesis using store_dinode_other [of i ?jp] True iu [OF i(1)] g(1) by simp
  qed (use iu [OF i(1)] g(1) in simp)
  then show ?thesis using s'(1,2) v(2,4) g(2) wf us oth by (intro exI [of _ s']) simp
qed

section \<open>Properties\<close>

text \<open>
  C9: \<^verbatim>\<open>itrunc\<close> gives back exactly the blocks of the file: inside a transaction it succeeds, the file becomes empty on the drive
  and in the cache, a bit of the bitmap is cleared if and only if its block was a direct, an indirect or the indirect
  block of the file, and every other file and inode keeps its contents.
\<close>

theorem itrunc_frees:
  assumes "fs_txn B (Suc (Suc 0)) s" and "wf_file k s"
  shows "\<exists>s'. itrunc k s = Ok s' \<and> fs_txn B 0 s' \<and> wf_file k s' \<and> i_size (inodes s' k) = 0
    \<and> (\<forall>c. used (blks s') c \<longleftrightarrow> used (blks s) c \<and> \<not> owns (blks s) (i_addrs (inodes s k)) c)
    \<and> (\<forall>jp. other_file k jp s \<longrightarrow> other_file k jp s' \<and> file_data (blks s') jp = file_data (blks s) jp)
    \<and> (\<forall>i < ninodes_of (blks s). i \<noteq> i_inum (inodes s k) \<longrightarrow> get_dinode (blks s' (IBLOCK i)) i = get_dinode (blks s (IBLOCK i)) i)"
  by (rule itrunc_ok [OF assms])

theorem itrunc_frees_witness:
  "\<exists>s s' :: istate. fs_txn {28} 2 s \<and> wf_file 0 s \<and> file_data (blks s) (inodes s 0) = [104, 105]
     \<and> itrunc 0 s = Ok s' \<and> i_size (inodes s' 0) = 0 \<and> \<not> used (blks s') (blkno (blks s) (i_addrs (inodes s 0)) 0)"
proof -
  obtain s :: istate where s: "fs_txn {28} 2 s" "wf_file 0 s" "file_data (blks s) (inodes s 0) = [104, 105]"
    using demo_written by blast
  have sz: "i_size (inodes s 0) = 2" using s(3) length_file_data [of "blks s" "inodes s 0"] by simp
  have "blkno (blks s) (i_addrs (inodes s 0)) 0 \<noteq> 0"
    using s(2) sz by (auto simp: wf_file_def dense_def dest!: spec [of _ 0])
  then have o: "owns (blks s) (i_addrs (inodes s 0)) (blkno (blks s) (i_addrs (inodes s 0)) 0)" by (intro ownsI) simp_all
  have "fs_txn {28} (Suc (Suc 0)) s" using s(1) by (simp add: numeral_2_eq_2)
  from itrunc_frees [OF this s(2)] obtain s' where "itrunc 0 s = Ok s'" "i_size (inodes s' 0) = 0"
      "\<forall>c. used (blks s') c \<longleftrightarrow> used (blks s) c \<and> \<not> owns (blks s) (i_addrs (inodes s 0)) c"
    by blast
  then show ?thesis using s o by blast
qed

end
