(* ===== verification/Fs_Link.thy ===== *)
theory Fs_Link
  imports Fs_File
begin

text \<open>
  Directories as lists of entries: what \<^verbatim>\<open>dirlookup\<close> finds is the first entry of the directory's contents with the name, and a name
  entered by \<^verbatim>\<open>dirlink\<close> is found by \<^verbatim>\<open>dirlookup\<close>, while the other names stay where they were.
\<close>

section \<open>Entries\<close>

definition dent :: "byte list \<Rightarrow> nat \<Rightarrow> byte list" where
  "dent d j = take DIRENT_SIZE (drop (j * DIRENT_SIZE) d)"

definition dent_named :: "(nat \<Rightarrow> byte) \<Rightarrow> byte list \<Rightarrow> nat \<Rightarrow> bool" where
  "dent_named name d j \<longleftrightarrow> dirent_inum (dent d j) \<noteq> 0 \<and> namecmp name (cstr (drop 2 (dent d j))) = 0"

definition dir_find :: "(nat \<Rightarrow> byte) \<Rightarrow> byte list \<Rightarrow> nat option" where
  "dir_find name d = List.find (dent_named name d) [0..<length d div DIRENT_SIZE]"

text \<open>A cached directory: a file whose size is a number of entries.\<close>

definition wf_dir :: "nat \<Rightarrow> 'z istate_scheme \<Rightarrow> bool" where
  "wf_dir dp s \<longleftrightarrow> wf_file dp s \<and> i_type (inodes s dp) = T_DIR \<and> DIRENT_SIZE dvd i_size (inodes s dp)"

definition dir_data :: "nat \<Rightarrow> 'z istate_scheme \<Rightarrow> byte list" where
  "dir_data dp s = file_data (blks s) (inodes s dp)"

definition dir_ready :: "nat \<Rightarrow> 'z istate_scheme \<Rightarrow> bool" where
  "dir_ready dp s \<longleftrightarrow> file_ready dp s \<and> dense (blks s) (inodes s dp) \<and> i_type (inodes s dp) = T_DIR
     \<and> DIRENT_SIZE dvd i_size (inodes s dp)"

lemma wf_dir_ready: "fs_txn B r s \<Longrightarrow> wf_dir dp s \<Longrightarrow> dir_ready dp s"
  using wf_file_ready by (auto simp: wf_dir_def dir_ready_def wf_file_def)

lemma length_dir_data [simp]: "length (dir_data dp s) = i_size (inodes s dp)"
  by (simp add: dir_data_def)

lemma unseen_dir: "unseen s t \<Longrightarrow> dir_data dp t = dir_data dp s" "unseen s t \<Longrightarrow> dir_ready dp s \<Longrightarrow> dir_ready dp t"
  using unseen_inodes [of s t] unseen_ready [of dp s t] by (auto simp: dir_data_def dir_ready_def unseen_def)

lemma dir_offsets_eq: "DIRENT_SIZE dvd sz \<Longrightarrow> dir_offsets sz = map (\<lambda>j. j * DIRENT_SIZE) [0..<sz div DIRENT_SIZE]"
  by (auto simp: dir_offsets_def DIRENT_SIZE_def DIRSIZ_def elim!: dvdE)

lemma length_dent: "j < length d div DIRENT_SIZE \<Longrightarrow> length (dent d j) = DIRENT_SIZE"
proof -
  assume "j < length d div DIRENT_SIZE"
  then have "Suc j * DIRENT_SIZE \<le> length d" by (simp add: DIRENT_SIZE_def DIRSIZ_def less_eq_div_iff_mult_less_eq Suc_le_eq flip: less_eq_Suc_le)
  then show ?thesis by (simp add: dent_def)
qed

lemma read_dent:
  assumes "dir_ready dp s" and "j < i_size (inodes s dp) div DIRENT_SIZE"
  shows "\<exists>t. readi devsw dp (j * DIRENT_SIZE) DIRENT_SIZE s = Ok (int DIRENT_SIZE, dent (dir_data dp s) j, t) \<and> unseen s t"
proof -
  have r: "file_ready dp s" "dense (blks s) (inodes s dp)" "i_type (inodes s dp) \<noteq> T_DEV"
    using assms(1) by (auto simp: dir_ready_def T_DIR_def T_DEV_def)
  have l: "Suc j * DIRENT_SIZE \<le> i_size (inodes s dp)"
    using assms(2) by (metis Suc_leI div_times_less_eq_dividend le_trans mult_le_mono1)
  have "i_size (inodes s dp) \<le> MAXFILE * BSIZE" using r(2) by (simp add: dense_def)
  then have "j * DIRENT_SIZE + DIRENT_SIZE < 2 ^ 32" using l by (simp add: MAXFILE_def NDIRECT_def NINDIRECT_def BSIZE_def)
  moreover have "j * DIRENT_SIZE \<le> i_size (inodes s dp)" using l by simp
  moreover have "length (dent (dir_data dp s) j) = DIRENT_SIZE" using length_dent [of j "dir_data dp s"] assms(2) by simp
  ultimately show ?thesis using readi_data [OF r, of "j * DIRENT_SIZE" DIRENT_SIZE devsw] by (simp add: dent_def dir_data_def)
qed

section \<open>Looking up\<close>

text \<open>The loop over the entries from \<open>i\<close> on.\<close>

lemma dirlookup_loop_ok:
  assumes "dir_ready dp s" and "\<And>j. j \<in> set js \<Longrightarrow> j < i_size (inodes s dp) div DIRENT_SIZE"
  shows "\<exists>t. unseen s t \<and> dirlookup_loop devsw dp name (map (\<lambda>j. j * DIRENT_SIZE) js) s =
    (case List.find (dent_named name (dir_data dp s)) js of
       None \<Rightarrow> Ok (None, t)
     | Some j \<Rightarrow> rbind (iget ROOTDEV (dirent_inum (dent (dir_data dp s) j)) t) (\<lambda>(ip, t). Ok (Some (ip, j * DIRENT_SIZE), t)))"
  using assms
proof (induction js arbitrary: s)
  case Nil
  have "unseen s s" using Nil(1) by (simp add: unseen_def dir_ready_def file_ready_def)
  then show ?case by auto
next
  case (Cons j js)
  obtain t where t: "readi devsw dp (j * DIRENT_SIZE) DIRENT_SIZE s = Ok (int DIRENT_SIZE, dent (dir_data dp s) j, t)" "unseen s t"
    using read_dent [OF Cons.prems(1), of j devsw] Cons.prems(2) by auto
  have i: "inodes t = inodes s" using unseen_inodes [OF t(2)] .
  have dev: "i_dev (inodes t dp) = ROOTDEV" using Cons.prems(1) i by (simp add: dir_ready_def file_ready_def)
  note d = unseen_dir [OF t(2)]
  show ?case
  proof (cases "dent_named name (dir_data dp s) j")
    case True
    then show ?thesis using t dev by (intro exI [of _ t]) (simp add: dent_named_def)
  next
    case False
    obtain u where "unseen t u" "dirlookup_loop devsw dp name (map (\<lambda>j. j * DIRENT_SIZE) js) t =
        (case List.find (dent_named name (dir_data dp s)) js of
           None \<Rightarrow> Ok (None, u)
         | Some j \<Rightarrow> rbind (iget ROOTDEV (dirent_inum (dent (dir_data dp s) j)) u) (\<lambda>(ip, t). Ok (Some (ip, j * DIRENT_SIZE), t)))"
      using Cons.IH [OF d(2) [OF Cons.prems(1)]] Cons.prems(2) unfolding d(1) i by auto
    moreover have "dirent_inum (dent (dir_data dp s) j) = 0 \<or> namecmp name (cstr (drop 2 (dent (dir_data dp s) j))) \<noteq> 0"
      using False by (simp add: dent_named_def)
    ultimately show ?thesis using t False unseen_trans [OF t(2)] by (intro exI [of _ u]) auto
  qed
qed

lemma dirlookup_ok:
  assumes "dir_ready dp s"
  shows "\<exists>t. unseen s t \<and> dirlookup devsw dp name s =
    (case dir_find name (dir_data dp s) of
       None \<Rightarrow> Ok (None, t)
     | Some j \<Rightarrow> rbind (iget ROOTDEV (dirent_inum (dent (dir_data dp s) j)) t) (\<lambda>(ip, t). Ok (Some (ip, j * DIRENT_SIZE), t)))"
  using dirlookup_loop_ok [OF assms, of "[0..<i_size (inodes s dp) div DIRENT_SIZE]" devsw name] assms
  by (simp add: dirlookup_def dir_ready_def dir_offsets_eq dir_find_def)

section \<open>Names\<close>

lemma namecmp_eq: "namecmp p q = 0 \<longleftrightarrow> (\<forall>i < DIRSIZ. (\<forall>j < i. p j \<noteq> 0) \<longrightarrow> p i = q i)"
  by (simp add: namecmp_def strncmp_eq_0)

lemma namecmp_sym: "namecmp p q = 0 \<Longrightarrow> namecmp q p = 0"
proof -
  assume a: "namecmp p q = 0"
  have "p i = q i" if "i < DIRSIZ" "\<forall>j < i. q j \<noteq> 0" for i
    using that
  proof (induction i rule: less_induct)
    case (less i)
    then have "\<forall>j < i. p j \<noteq> 0" by (metis less_trans)
    then show ?case using a less.prems(1) by (simp add: namecmp_eq)
  qed
  then show ?thesis by (simp add: namecmp_eq)
qed

lemma namecmp_trans: "namecmp p q = 0 \<Longrightarrow> namecmp q r = 0 \<Longrightarrow> namecmp p r = 0"
  unfolding namecmp_eq by (metis less_trans)

lemma name_field_nth:
  assumes "i < DIRSIZ"
  shows "name_field p ! i = (if \<exists>j\<le>i. p j = 0 then 0 else p i)"
  using assms by (simp add: name_field_def strncpy_eq)

lemma length_name_field [simp]: "length (name_field p) = DIRSIZ"
  by (simp add: name_field_def)

lemma namecmp_field: "namecmp p (cstr (name_field p)) = 0"
  unfolding namecmp_eq by (auto simp: cstr_def name_field_nth le_less)

lemma namecmp_stored: "namecmp other (cstr (name_field p)) = 0 \<longleftrightarrow> namecmp other p = 0"
  using namecmp_field [of p] namecmp_sym namecmp_trans by blast

section \<open>The contents of a directory as a map from names to inode numbers\<close>

definition dir_map :: "byte list \<Rightarrow> (nat \<Rightarrow> byte) \<Rightarrow> nat option" where
  "dir_map d name = map_option (\<lambda>j. dirent_inum (dent d j)) (dir_find name d)"

lemma mk_dirent_sel:
  "length (mk_dirent inum p) = DIRENT_SIZE" "drop 2 (mk_dirent inum p) = name_field p"
  "inum < 65536 \<Longrightarrow> dirent_inum (mk_dirent inum p) = inum"
proof -
  show "length (mk_dirent inum p) = DIRENT_SIZE" "drop 2 (mk_dirent inum p) = name_field p"
    by (simp_all add: mk_dirent_def DIRENT_SIZE_def)
  assume "inum < 65536"
  moreover have "get16 (put16 (replicate 2 0) 0 inum @ name_field p) 0 = get16 (put16 (replicate 2 0) 0 inum) 0"
    by (simp add: get16_def nth_append)
  ultimately show "dirent_inum (mk_dirent inum p) = inum" by (simp add: dirent_inum_def mk_dirent_def)
qed

lemma dent_splice:
  assumes e: "length e = DIRENT_SIZE" and d: "length d = n * DIRENT_SIZE" and j: "j \<le> n" and i: "i < max n (Suc j)"
  shows "dent (splice d (j * DIRENT_SIZE) e) i = (if i = j then e else dent d i)"
proof -
  consider "i < j" | "i = j" | "j < i" by linarith
  then show ?thesis
    using assms by cases (auto intro!: nth_equalityI simp: dent_def splice_def nth_append min_def DIRENT_SIZE_def DIRSIZ_def max_def split: if_splits)
qed

lemma length_splice_entry:
  "length e = DIRENT_SIZE \<Longrightarrow> length d = n * DIRENT_SIZE \<Longrightarrow> j \<le> n \<Longrightarrow>
   length (splice d (j * DIRENT_SIZE) e) = max n (Suc j) * DIRENT_SIZE"
  by (auto simp: splice_def min_def max_def DIRENT_SIZE_def DIRSIZ_def)

lemma dir_find_None: "dir_find name d = None \<longleftrightarrow> (\<forall>i < length d div DIRENT_SIZE. \<not> dent_named name d i)"
  by (auto simp: dir_find_def find_None_iff_all)

lemma find_append: "List.find P (xs @ ys) = (case List.find P xs of None \<Rightarrow> List.find P ys | Some x \<Rightarrow> Some x)"
  by (induction xs) auto

lemma find_single:
  assumes "j \<in> set xs" and "P j" and "\<And>x. x \<in> set xs \<Longrightarrow> P x \<Longrightarrow> x = j"
  shows "List.find P xs = Some j"
proof -
  obtain y where y: "List.find P xs = Some y" using find_ex [OF assms(1)] assms(2) by blast
  then show ?thesis using find_SomeD [OF y] assms(3) by auto
qed

text \<open>The slot that \<^verbatim>\<open>dirlink\<close> takes: the first free one, or the end.\<close>

definition free_slot :: "byte list \<Rightarrow> nat" where
  "free_slot d = (case List.find (\<lambda>j. dirent_inum (dent d j) = 0) [0..<length d div DIRENT_SIZE] of
     None \<Rightarrow> length d div DIRENT_SIZE | Some j \<Rightarrow> j)"

lemma free_slot: "free_slot d \<le> length d div DIRENT_SIZE"
    "free_slot d < length d div DIRENT_SIZE \<Longrightarrow> dirent_inum (dent d (free_slot d)) = 0"
  by (auto simp: free_slot_def split: option.splits dest!: find_SomeD)

lemma dir_map_link:
  assumes len: "DIRENT_SIZE dvd length d" and no: "dir_find name d = None" and inum: "0 < inum" "inum < 65536"
  defines "d' \<equiv> splice d (free_slot d * DIRENT_SIZE) (mk_dirent inum name)"
  shows "dir_map d' other = (if namecmp other name = 0 then Some inum else dir_map d other)"
proof -
  define n where "n = length d div DIRENT_SIZE"
  define j where "j = free_slot d"
  have n: "length d = n * DIRENT_SIZE" using len by (simp add: n_def)
  have j: "j \<le> n" "j < n \<Longrightarrow> dirent_inum (dent d j) = 0" using free_slot [of d] by (auto simp: n_def j_def)
  note e = mk_dirent_sel(1) [of inum name]
  have "0 < DIRENT_SIZE" by (simp add: DIRENT_SIZE_def)
  then have n': "length d' div DIRENT_SIZE = max n (Suc j)"
    using length_splice_entry [OF e n j(1)] by (simp add: d'_def j_def)
  have ent: "dent d' i = (if i = j then mk_dirent inum name else dent d i)" if "i < max n (Suc j)" for i
    using dent_splice [OF e n j(1) that] by (simp add: d'_def j_def)
  have at_j: "dent_named other d' j \<longleftrightarrow> namecmp other name = 0"
    using ent [of j] inum by (simp add: dent_named_def mk_dirent_sel namecmp_stored)
  have at_i: "dent_named other d' i \<longleftrightarrow> dent_named other d i" if "i < n" "i \<noteq> j" for i
    using ent [of i] that by (simp add: dent_named_def)
  show ?thesis
  proof (cases "namecmp other name = 0")
    case True
    have "i = j" if i: "i \<in> set [0..<max n (Suc j)]" "dent_named other d' i" for i
    proof (rule ccontr)
      assume ne: "i \<noteq> j"
      then have "i < n" using i(1) j(1) by auto
      then have "dent_named name d i"
        using at_i [OF _ ne] i(2) namecmp_trans [OF namecmp_sym [OF True]] by (simp add: dent_named_def)
      then show False using no \<open>i < n\<close> by (simp add: dir_find_None n_def)
    qed
    then have "dir_find other d' = Some j"
      unfolding dir_find_def n' using at_j True by (intro find_single) auto
    then show ?thesis using True ent [of j] inum by (simp add: dir_map_def mk_dirent_sel)
  next
    case False
    have nj: "\<not> dent_named other d' j" using at_j False by simp
    have "dent_named other d' i \<longleftrightarrow> dent_named other d i" if "i < n" for i
      using at_i [OF that] nj j(2) that by (cases "i = j") (auto simp: dent_named_def)
    then have f: "List.find (dent_named other d') [0..<n] = List.find (dent_named other d) [0..<n]"
      by (intro find_cong) auto
    have "dir_find other d' = List.find (dent_named other d') [0..<n]"
    proof (cases "j < n")
      case True
      then have "max n (Suc j) = n" by simp
      then show ?thesis unfolding dir_find_def n' by simp
    next
      case False
      then have "max n (Suc j) = Suc n" "j = n" using j(1) by auto
      then show ?thesis unfolding dir_find_def n' using nj
        by (auto simp: find_append split: option.split)
    qed
    then have eq: "dir_find other d' = dir_find other d" using f by (simp add: dir_find_def n_def)
    have "dent d' i = dent d i" if "dir_find other d = Some i" for i
      using find_SomeD [of "dent_named other d" "[0..<n]" i] that ent [of i] at_j False nj at_i [of i] j(2)
      by (cases "i = j") (auto simp: dir_find_def n_def dent_named_def)
    then show ?thesis using eq False by (auto simp: dir_map_def map_option_case split: option.split)
  qed
qed

section \<open>Linking\<close>

lemma dirlink_loop_ok:
  assumes "dir_ready dp s" and "\<And>j. j \<in> set js \<Longrightarrow> j < i_size (inodes s dp) div DIRENT_SIZE"
  shows "\<exists>t. unseen s t \<and> dirlink_loop devsw dp (map (\<lambda>j. j * DIRENT_SIZE) js) e s =
    Ok (case List.find (\<lambda>j. dirent_inum (dent (dir_data dp s) j) = 0) js of None \<Rightarrow> e | Some j \<Rightarrow> j * DIRENT_SIZE, t)"
  using assms
proof (induction js arbitrary: s)
  case Nil
  have "unseen s s" using Nil(1) by (simp add: unseen_def dir_ready_def file_ready_def)
  then show ?case by auto
next
  case (Cons j js)
  obtain t where t: "readi devsw dp (j * DIRENT_SIZE) DIRENT_SIZE s = Ok (int DIRENT_SIZE, dent (dir_data dp s) j, t)" "unseen s t"
    using read_dent [OF Cons.prems(1), of j devsw] Cons.prems(2) by auto
  note i = unseen_inodes [OF t(2)] and d = unseen_dir [OF t(2)]
  obtain u where "unseen t u" "dirlink_loop devsw dp (map (\<lambda>j. j * DIRENT_SIZE) js) e t =
      Ok (case List.find (\<lambda>j. dirent_inum (dent (dir_data dp s) j) = 0) js of None \<Rightarrow> e | Some j \<Rightarrow> j * DIRENT_SIZE, u)"
    using Cons.IH [OF d(2) [OF Cons.prems(1)]] Cons.prems(2) unfolding d(1) i by auto
  then show ?case using t unseen_trans [OF t(2)] by (cases "dirent_inum (dent (dir_data dp s) j) = 0") auto
qed

lemma one_block: "16 * j mod BSIZE + 16 \<le> BSIZE"
proof -
  have "16 * j mod 512 = 16 * (j mod 32)" by (simp add: mult_mod_right)
  moreover have "j mod 32 \<le> 31" using mod_less_divisor [of 32 j] by linarith
  ultimately show ?thesis by (simp add: BSIZE_def)
qed

lemma dirlink_ok:
  assumes t: "fs_txn B (r + 4) s" and w: "wf_dir dp s" and n: "2 \<le> nfree (blks s)"
    and sz: "i_size (inodes s dp) + DIRENT_SIZE \<le> MAXFILE * BSIZE" and no: "dir_find name (dir_data dp s) = None"
  shows "\<exists>s' as' z. dirlink devsw dp name inum s = Ok (0, s') \<and> fs_txn B r s' \<and> wf_dir dp s'
    \<and> dir_data dp s' = splice (dir_data dp s) (free_slot (dir_data dp s) * DIRENT_SIZE) (mk_dirent inum name)
    \<and> inodes s' = (inodes s)(dp := (inodes s dp)\<lparr>i_addrs := as', i_size := z\<rparr>)"
proof -
  let ?d = "dir_data dp s" and ?e = "mk_dirent inum name" and ?off = "free_slot (dir_data dp s) * DIRENT_SIZE"
  have d16: "DIRENT_SIZE = 16" by (simp add: DIRENT_SIZE_def DIRSIZ_def)
  have w': "wf_file dp s" "i_type (inodes s dp) = T_DIR" "DIRENT_SIZE dvd i_size (inodes s dp)" using w by (simp_all add: wf_dir_def)
  note rd = wf_dir_ready [OF t w]
  obtain s1 where s1: "unseen s s1" "dirlookup devsw dp name s = Ok (None, s1)"
    using dirlookup_ok [OF rd, of devsw name] no by auto
  have i1: "inodes s1 = inodes s" "view s1 = view s" "bstate.more s1 = bstate.more s" "bc_inv s1"
    using s1(1) unseen_inodes [OF s1(1)] by (auto simp: unseen_def)
  have offs: "dir_offsets (i_size (inodes s dp)) = map (\<lambda>j. j * DIRENT_SIZE) [0..<i_size (inodes s dp) div DIRENT_SIZE]"
    using dir_offsets_eq [OF w'(3)] .
  have dd: "dir_data dp s1 = ?d" "dir_ready dp s1" using unseen_dir [OF s1(1)] rd by auto
  have "?off = (case List.find (\<lambda>j. dirent_inum (dent ?d j) = 0) [0..<i_size (inodes s dp) div DIRENT_SIZE] of
      None \<Rightarrow> length (dir_offsets (i_size (inodes s dp))) * DIRENT_SIZE | Some j \<Rightarrow> j * DIRENT_SIZE)"
    by (simp add: free_slot_def offs split: option.split)
  then obtain s2 where s2: "unseen s1 s2" "dirlink_loop devsw dp (dir_offsets (i_size (inodes s dp)))
      (length (dir_offsets (i_size (inodes s dp))) * DIRENT_SIZE) s1 = Ok (?off, s2)"
    using dirlink_loop_ok [OF dd(2), of "[0..<i_size (inodes s dp) div DIRENT_SIZE]" devsw
        "length (dir_offsets (i_size (inodes s dp))) * DIRENT_SIZE"] i1(1) dd(1) offs by auto
  have u2: "unseen s s2" using unseen_trans [OF s1(1) s2(1)] .
  have i2: "inodes s2 = inodes s" "view s2 = view s" using u2 unseen_inodes [OF u2] by (auto simp: unseen_def)
  note f2 = same_log [of s2 s]
  have t2: "fs_txn B (r + 3 * 1 + 1) s2"
  proof -
    have m: "bstate.more s2 = bstate.more s" "bc_inv s2" using u2 by (auto simp: unseen_def)
    have "log_live s2" "logged s2 = logged s"
      using log_live_cong [OF txnD(1) [OF fs_txnD(1) [OF t]] m(2,1)] i2(2) same_log [OF m(1)] by (simp_all add: logged_def)
    then show ?thesis using t i2(2) same_log [OF m(1)] by (simp add: fs_txn_def txn_def)
  qed
  have ls: "l_start s2 = l_start s" using same_log(1) u2 by (auto simp: unseen_def)
  have w2: "wf_file dp s2" using w'(1) i2 ls by (simp add: wf_file_def file_at_def)
  have le: "length ?e = DIRENT_SIZE" by (rule mk_dirent_sel)
  have off: "?off \<le> i_size (inodes s2 dp)"
    using free_slot(1) [of ?d] i2(1) div_times_less_eq_dividend [of "i_size (inodes s dp)" DIRENT_SIZE]
    by (metis length_dir_data le_trans mult_le_mono1)
  then have "?off + length ?e \<le> MAXFILE * BSIZE" using sz i2(1) le by simp
  moreover have "?e = [] \<or> ?off mod BSIZE + length ?e \<le> 1 * BSIZE"
    using one_block [of "free_slot ?d"] le d16 by (simp add: mult.commute)
  ultimately obtain s' as' where s': "writei devsw dp ?e ?off s2 = Ok (int (length ?e), s')" "fs_txn B r s'" "wf_file dp s'"
      "inodes s' = (inodes s2)(dp := (inodes s2 dp)\<lparr>i_addrs := as', i_size := max (i_size (inodes s2 dp)) (?off + length ?e)\<rparr>)"
      "file_data (blks s') (inodes s' dp) = splice (file_data (blks s2) (inodes s2 dp)) ?off ?e"
    using writei_data [OF t2 w2 _ off, of ?e devsw] n i2 w'(2) by (auto simp: T_DIR_def T_DEV_def)
  have code: "dirlink devsw dp name inum s = Ok (0, s')"
    using s1(2) s2(2) s'(1) i1(1) le by (simp add: dirlink_def Let_def)
  have "DIRENT_SIZE dvd i_size (inodes s' dp)"
    using s'(4) i2(1) w'(3) le by (auto simp: max_def)
  then have "wf_dir dp s'" using s'(3,4) i2(1) w'(2) by (simp add: wf_dir_def)
  then show ?thesis using code s'(2,4,5) i2 by (auto simp: dir_data_def)
qed

text \<open>There is an entry of the inode cache for an inode.\<close>

definition cache_room :: "nat \<Rightarrow> 'z istate_scheme \<Rightarrow> bool" where
  "cache_room inum s \<longleftrightarrow> (\<exists>k < NINODE. i_ref (inodes s k) = 0
     \<or> i_ref (inodes s k) > 0 \<and> i_dev (inodes s k) = ROOTDEV \<and> i_inum (inodes s k) = inum)"

lemma iget_ok:
  assumes "cache_room inum s"
  shows "\<exists>k s'. iget ROOTDEV inum s = Ok (k, s') \<and> i_dev (inodes s' k) = ROOTDEV \<and> i_inum (inodes s' k) = inum"
proof (cases "List.find (\<lambda>k. i_ref (inodes s k) > 0 \<and> i_dev (inodes s k) = ROOTDEV \<and> i_inum (inodes s k) = inum) [0..<NINODE]")
  case (Some k)
  then show ?thesis using find_SomeD [OF Some] by (simp add: iget_def)
next
  case None
  then obtain j where "j < NINODE" "i_ref (inodes s j) = 0"
    using assms by (auto simp: cache_room_def find_None_iff_all)
  then obtain k where "List.find (\<lambda>k. i_ref (inodes s k) = 0) [0..<NINODE] = Some k"
    using find_ex [of j "[0..<NINODE]" "\<lambda>k. i_ref (inodes s k) = 0"] by auto
  then show ?thesis using None by (simp add: iget_def)
qed

lemma dirlink_map:
  assumes t: "fs_txn B (r + 4) s" and w: "wf_dir dp s" and n: "2 \<le> nfree (blks s)"
    and sz: "i_size (inodes s dp) + DIRENT_SIZE \<le> MAXFILE * BSIZE" and no: "dir_map (dir_data dp s) name = None"
    and inum: "0 < inum" "inum < 65536" and room: "cache_room inum s"
  shows "\<exists>s'. dirlink devsw dp name inum s = Ok (0, s') \<and> fs_txn B r s' \<and> wf_dir dp s'
    \<and> dir_map (dir_data dp s') = (\<lambda>other. if namecmp other name = 0 then Some inum else dir_map (dir_data dp s) other)
    \<and> (\<exists>ip off s''. dirlookup devsw dp name s' = Ok (Some (ip, off), s'')
         \<and> i_dev (inodes s'' ip) = ROOTDEV \<and> i_inum (inodes s'' ip) = inum)"
proof -
  have nf: "dir_find name (dir_data dp s) = None" using no by (simp add: dir_map_def)
  obtain s' as' z where s': "dirlink devsw dp name inum s = Ok (0, s')" "fs_txn B r s'" "wf_dir dp s'"
      "dir_data dp s' = splice (dir_data dp s) (free_slot (dir_data dp s) * DIRENT_SIZE) (mk_dirent inum name)"
      "inodes s' = (inodes s)(dp := (inodes s dp)\<lparr>i_addrs := as', i_size := z\<rparr>)"
    using dirlink_ok [OF t w n sz nf] by blast
  have m: "dir_map (dir_data dp s') other = (if namecmp other name = 0 then Some inum else dir_map (dir_data dp s) other)" for other
    using dir_map_link [OF _ nf inum] w s'(4) by (simp add: wf_dir_def)
  have "namecmp name name = 0" by (simp add: namecmp_eq)
  then obtain j where j: "dir_find name (dir_data dp s') = Some j" "dirent_inum (dent (dir_data dp s') j) = inum"
    using m [of name] by (auto simp: dir_map_def)
  obtain t where t: "unseen s' t" "dirlookup devsw dp name s' = rbind (iget ROOTDEV inum t) (\<lambda>(ip, t). Ok (Some (ip, j * DIRENT_SIZE), t))"
    using dirlookup_ok [OF wf_dir_ready [OF s'(2,3)], of devsw name] j by auto
  have "cache_room inum t"
    using room s'(5) unseen_inodes [OF t(1)] by (auto simp: cache_room_def)
  from iget_ok [OF this] obtain k u where "iget ROOTDEV inum t = Ok (k, u)" "i_dev (inodes u k) = ROOTDEV" "i_inum (inodes u k) = inum"
    by blast
  then show ?thesis using s'(1-3) m t(2) by (intro exI [of _ s']) auto
qed

section \<open>Property\<close>

text \<open>
  C13: a directory is a map from names to inode numbers.  Inside a transaction \<^verbatim>\<open>dirlink\<close> of a name that the directory does not have, in
  the first free entry or a new one at the end, updates the map at that name (and at the names that \<^verbatim>\<open>namecmp\<close>
  does not distinguish from it) and nowhere else; \<^verbatim>\<open>dirlookup\<close> of the name then returns a cached inode with that number.
\<close>

theorem dirlink_updates_map:
  assumes "fs_txn B (r + 4) s" and "wf_dir dp s" and "2 \<le> nfree (blks s)"
    and "i_size (inodes s dp) + DIRENT_SIZE \<le> MAXFILE * BSIZE" and "dir_map (dir_data dp s) name = None"
    and "0 < inum" "inum < 65536" and "cache_room inum s"
  shows "\<exists>s'. dirlink devsw dp name inum s = Ok (0, s') \<and> fs_txn B r s' \<and> wf_dir dp s'
    \<and> dir_map (dir_data dp s') = (\<lambda>other. if namecmp other name = 0 then Some inum else dir_map (dir_data dp s) other)
    \<and> (\<exists>ip off s''. dirlookup devsw dp name s' = Ok (Some (ip, off), s'')
         \<and> i_dev (inodes s'' ip) = ROOTDEV \<and> i_inum (inodes s'' ip) = inum)"
  by (rule dirlink_map [OF assms])

theorem dirlink_updates_map_witness:
  "\<exists>s s' :: istate. wf_dir 0 s \<and> dir_map (dir_data 0 s) (cstr [46]) = None
     \<and> dirlink (\<lambda>_. (None, None)) 0 (cstr [46]) 1 s = Ok (0, s') \<and> dir_map (dir_data 0 s') (cstr [46]) = Some 1"
proof -
  obtain s :: istate where s: "fs_txn {28} 6 s" "wf_file 0 s" "2 \<le> nfree (blks s)" "inodes s = (\<lambda>_. demo_ip T_DIR)"
    using demo_file [of T_DIR] by auto
  have w: "wf_dir 0 s" using s(2,4) by (simp add: wf_dir_def demo_ip_def)
  have t: "fs_txn {28} (2 + 4) s" using s(1) by simp
  have z: "i_size (inodes s 0) + DIRENT_SIZE \<le> MAXFILE * BSIZE"
    using s(4) by (simp add: demo_ip_def DIRENT_SIZE_def DIRSIZ_def MAXFILE_def NDIRECT_def NINDIRECT_def BSIZE_def)
  have d: "dir_map (dir_data 0 s) (cstr [46]) = None"
    using s(4) by (simp add: dir_map_def dir_find_def demo_ip_def)
  have c: "cache_room 1 s" using s(4) unfolding cache_room_def by (intro exI [of _ 0]) (simp add: demo_ip_def NINODE_def)
  have "namecmp (cstr [46]) (cstr [46]) = 0" by (simp add: namecmp_eq)
  then show ?thesis
    using dirlink_updates_map [OF t w s(3) z d _ _ c, where devsw = "\<lambda>_. (None, None)"] w d by auto
qed

end
