(* ===== verification/Spec2Isabelle.thy ===== *)
theory Spec2Isabelle
  imports Vm_Alloc Proc_Props Sleep Trap Fs_Trunc Fs_Link
begin

text \<open>
  Verification of xv6-x86_64, a small Unix kernel in C, in its 64-bit configuration (\<^verbatim>\<open>X64\<close> defined).

  \<^bold>\<open>The program and the theories.\<close>  The kernel is a stack of layers, and each layer is a theory that imports the ones it calls.  Names
  of definitions are the names of the C functions.

  \<^item> \<open>Prelude\<close>: the outcome of kernel code (\<^typ>\<open>'a res\<close>: returned, panicked, asleep, outside the behaviour C defines), the
    constants of \<^verbatim>\<open>include/param.h\<close>, \<^verbatim>\<open>include/fs.h\<close> and \<^verbatim>\<open>include/stat.h\<close>, fields of byte arrays.
  \<^item> \<open>Ide\<close> (\<^verbatim>\<open>kernel/ide.c\<close>): the disk driver, with the queue of requests; a drive is a map from sectors to contents.
  \<^item> \<open>Block_Cache\<close>: the contract of the buffer cache as a locale, \<open>Bio\<close> (\<^verbatim>\<open>kernel/bio.c\<close>): the cache with its doubly linked list as
    pointers, and the interpretation of the locale.
  \<^item> \<open>Log\<close> (\<^verbatim>\<open>kernel/log.c\<close>): the write-ahead log, and the super block that \<^verbatim>\<open>tools/mkfs.c\<close> writes.
  \<^item> \<open>Fs_Block\<close>, \<open>Fs_Inode\<close>, \<open>Fs_Dir\<close> (\<^verbatim>\<open>kernel/fs.c\<close>): blocks and the bitmap, inodes and file contents, directories and paths; \<open>Fs_Frame\<close>
    says what they leave alone, \<open>Fs_Data\<close>, \<open>Fs_File\<close> and \<open>Fs_Trunc\<close> what they do to the bytes of a file, \<open>Fs_Link\<close> what they do to the names
    in a directory.
  \<^item> \<open>Kstring\<close> (\<^verbatim>\<open>kernel/string.c\<close>, \<^verbatim>\<open>ulib/ulib.c\<close>): strings and memory of the kernel and of user programs.
  \<^item> \<open>Kalloc\<close> (\<^verbatim>\<open>kernel/kalloc.c\<close>): physical pages; \<open>Vm\<close> and \<open>Vm_Alloc\<close> (\<^verbatim>\<open>kernel/vm.c\<close>, \<^verbatim>\<open>kernel/vm64.c\<close>): page tables in that memory.
  \<^item> \<open>Spinlock\<close> (\<^verbatim>\<open>kernel/spinlock.c\<close>): one lock and all the processors that contend for it, as a step relation.
  \<^item> \<open>Ring\<close>: circular buffers with 32-bit counters as a locale, \<open>Pipe\<close> (\<^verbatim>\<open>kernel/pipe.c\<close>): pipes, with the first interpretation.
  \<^item> \<open>File\<close> (\<^verbatim>\<open>kernel/file.c\<close>): the table of open files.
  \<^item> \<open>Proc\<close> (\<^verbatim>\<open>kernel/proc.c\<close>): processes; \<open>Proc_Inv\<close>: an abstract process table that the operations refine; \<open>Proc_Props\<close>: scheduling and
    \<^verbatim>\<open>fork\<close>; \<open>Sleep\<close>: \<^verbatim>\<open>sleep\<close> and \<^verbatim>\<open>wakeup\<close> at the granularity of their locks.
  \<^item> \<open>Syscall\<close>, \<open>Exec\<close>, \<open>Sysfile\<close> (\<^verbatim>\<open>kernel/syscall.c\<close>, \<^verbatim>\<open>kernel/sysproc.c\<close>, \<^verbatim>\<open>kernel/exec.c\<close>, \<^verbatim>\<open>kernel/sysfile.c\<close>): the system calls.
  \<^item> \<open>Cprintf\<close> and \<open>Console\<close> (\<^verbatim>\<open>kernel/console.c\<close>, \<^verbatim>\<open>kernel/uart.c\<close>, \<^verbatim>\<open>kernel/kbd.c\<close>, \<^verbatim>\<open>ulib/printf.c\<close>): formatted output, the screen, the line
    discipline, with the second interpretation of \<open>Ring\<close>; \<open>Trap\<close> (\<^verbatim>\<open>kernel/trap.c\<close>): interrupts, exceptions and system calls.

  \<^bold>\<open>State.\<close>  The C globals are one extensible record that grows with the layers: \<^verbatim>\<open>bstate\<close> (buffers and drives), \<^verbatim>\<open>lstate\<close> (the log),
  \<^verbatim>\<open>istate\<close> (cached inodes), \<^verbatim>\<open>fstate\<close> (open files, pipes, physical memory), \<^verbatim>\<open>kstate\<close> (processes), \<^verbatim>\<open>cstate\<close> (console).  An operation of a
  lower layer is polymorphic in the extension, so that it leaves the upper layers alone by its frame lemma.  Pointers into the
  static tables are indices.  \<^verbatim>\<open>uint\<close> is \<^typ>\<open>nat\<close> with \<^const>\<open>u32\<close> where it can wrap, or \<^typ>\<open>32 word\<close>; \<^verbatim>\<open>int\<close> is \<^typ>\<open>int\<close>; memory is a map from
  addresses to bytes.

  \<^bold>\<open>Concurrency.\<close>  A section between \<^verbatim>\<open>acquire\<close> and \<^verbatim>\<open>release\<close> is one step.  The definitions follow one call at a time: one that has to wait for another
  process has the outcome \<^const>\<open>Sleeps\<close>, which ends its model and carries no state, or returns the state at the sleep (\<^verbatim>\<open>wait\<close>, \<^verbatim>\<open>pipewrite\<close>, \<^verbatim>\<open>filewrite\<close>,
  \<^verbatim>\<open>consoleread\<close>); the wait for the drive in \<^verbatim>\<open>iderw\<close> is the run in which only the drive acts meanwhile.  Where the interleaving is the point
  there is a step relation: requests to the drive (\<open>Ide\<close>), processors at a spin lock (\<open>Spinlock\<close>), readers and writers of a pipe (\<open>Pipe\<close>), system
  calls sharing the log (\<open>Log\<close>), processes (\<open>Proc_Inv\<close>, with \<^verbatim>\<open>fork\<close> as one step and \<^verbatim>\<open>exit\<close> in two parts), threads at \<^verbatim>\<open>sleep\<close> and \<^verbatim>\<open>wakeup\<close> (\<open>Sleep\<close>).
  A crash is a prefix of the sequence of block writes.

  \<^bold>\<open>What is shown.\<close>
  \<^item> Storage: a commit interrupted at any write is absent or complete after recovery; recovery can itself be interrupted; the
    reservations of \<^verbatim>\<open>begin_op\<close> bound a log of more than \<^const>\<open>LOGSIZE\<close> blocks, and fail by one block on the log \<^verbatim>\<open>mkfs\<close> makes; a cached block is
    unique and current, and the cache recycles the buffer released longest ago; the drive serves requests in their order whatever else is
    requested meanwhile.
  \<^item> Files: \<^verbatim>\<open>writei\<close> splices bytes into a file and \<^verbatim>\<open>readi\<close> returns them, through direct and indirect blocks, allocating as needed; \<^verbatim>\<open>itrunc\<close>
    gives back exactly the blocks of a file; all three leave other files and inodes alone.  \<^verbatim>\<open>dirlink\<close> and \<^verbatim>\<open>dirlookup\<close> update and read a map
    from names to inode numbers.  Reference counts of open files are exact.
  \<^item> Memory: pages are exclusive; the kernel's page table is the linear map, a process keeps it and gains exactly the pages asked for.
  \<^item> Processes: mutual exclusion; the chain of parents leads from every process to \<^verbatim>\<open>init\<close>, and identifiers are unique, as long as \<^verbatim>\<open>nextpid\<close>
    does not overflow; no exit and no wakeup of a sleeping thread is missed; a round of the scheduler runs every process that is and stays ready.  \<^verbatim>\<open>argptr\<close> checks exactly the range of its argument.
  \<^item> Pipes and console: bytes arrive in order; each end of a pipe wakes the other, but for a writer that is killed; the screen stays in its array;
    typing edits a line and a read takes a prefix of the finished input.

  \<^bold>\<open>Bounds and fuel.\<close>  The scan of the buffer list may follow \<^const>\<open>NBUF\<close> links, which the list invariant makes enough; the waiting loop of \<^verbatim>\<open>iderw\<close> is
  given one interrupt for each request in the queue, and \<open>iderw_behind_queue\<close> says that they are enough.  Every other loop is structural or has a measure.

  \<^bold>\<open>Not modelled.\<close>
  \<^item> Code that consists of instructions for the machine: \<^verbatim>\<open>bootasm.S\<close>, the \<^verbatim>\<open>entry\<close> files, \<^verbatim>\<open>initcode\<close>, \<^verbatim>\<open>swtch\<close>, \<^verbatim>\<open>trapasm\<close>, \<^verbatim>\<open>vectors\<close>, \<^verbatim>\<open>usys.S\<close>, and the inline
    assembly of \<^verbatim>\<open>include/x86.h\<close> beyond \<^verbatim>\<open>stosb\<close> and \<^verbatim>\<open>xchg\<close>: their meaning is the processor's.  Where C code depends on them (a context
    switch, a translated address) the model has the effect as a definition.
  \<^item> Devices: \<^verbatim>\<open>lapic.c\<close>, \<^verbatim>\<open>ioapic.c\<close>, \<^verbatim>\<open>picirq.c\<close>, \<^verbatim>\<open>timer.c\<close>, \<^verbatim>\<open>mp.c\<close>, \<^verbatim>\<open>acpi.c\<close>, \<^verbatim>\<open>cpuid.c\<close> write and read registers and tables that the firmware
    provides; \<^verbatim>\<open>bootmain.c\<close> and \<^verbatim>\<open>main.c\<close> call the initialisation in order.
  \<^item> The memory disk \<^verbatim>\<open>memide.c\<close>, which reads a field that \<^verbatim>\<open>struct buf\<close> does not have.
  \<^item> User programs (\<^verbatim>\<open>user/\<close>, \<^verbatim>\<open>ulib/umalloc.c\<close>) and the tools that make an image (\<^verbatim>\<open>tools/\<close>, but for the super block) run outside the kernel
    and change nothing of its state except through the system calls.
  \<^item> The 32-bit variants of code that \<^verbatim>\<open>X64\<close> excludes, except where the 64-bit kernel compiles them too.
\<close>

end
